(* ===== verification/SerPrelude.thy ===== *)
theory SerPrelude
  imports Main "HOL-Library.Word" "HOL-Library.Multiset"
begin

text \<open>
  Shared vocabulary of the development: C characters as bytes, decimal and hexadecimal
  digits, the reading of unsigned C arithmetic on words as arithmetic on naturals, and the
  small facts on lists and maps that several components use.  The collections
  \<open>word_nat\<close> (words read as naturals), \<open>digit_simps\<close> (characters and digits) and
  \<open>list_facts\<close> carry the component proofs.
\<close>

unbundle bit_operations_syntax

named_theorems word_nat
named_theorems digit_simps
named_theorems list_facts

subsection \<open>Types and characters\<close>

type_synonym addr = nat \<comment> \<open>a pointer; \<open>0\<close> is the null pointer\<close>
type_synonym u32 = "32 word"
type_synonym u64 = "64 word"

abbreviation ord_of :: "char \<Rightarrow> nat" where
  "ord_of c \<equiv> of_char c"

definition chr_of :: "nat \<Rightarrow> char" where
  "chr_of n = char_of n"

definition is_digit :: "char \<Rightarrow> bool" where
  "is_digit c \<longleftrightarrow> 48 \<le> ord_of c \<and> ord_of c \<le> 57"

definition digit_val :: "char \<Rightarrow> nat" where
  "digit_val c = ord_of c - 48"

definition digit_chr :: "nat \<Rightarrow> char" where
  "digit_chr d = chr_of (48 + d)"

text \<open>The number a string of decimal digits denotes, most significant digit first.\<close>

definition dec_value :: "string \<Rightarrow> nat" where
  "dec_value s = foldl (\<lambda>v c. v * 10 + digit_val c) 0 s"

definition all_digits :: "string \<Rightarrow> bool" where
  "all_digits s = list_all is_digit s"

lemma ord_of_chr_of [simp, digit_simps]: "n < 256 \<Longrightarrow> ord_of (chr_of n) = n"
  by (simp add: chr_of_def)

lemma chr_of_ord_of [simp, digit_simps]: "chr_of (ord_of c) = c"
  by (simp add: chr_of_def)

lemma ord_of_less [simp]: "ord_of c < 256"
  by (rule nat_of_char_less_256)

lemma digit_chr_is_digit [simp, digit_simps]: "d < 10 \<Longrightarrow> is_digit (digit_chr d)"
  by (simp add: is_digit_def digit_chr_def)

lemma digit_val_digit_chr [simp, digit_simps]: "d < 10 \<Longrightarrow> digit_val (digit_chr d) = d"
  by (simp add: digit_val_def digit_chr_def)

lemma digit_val_less: "is_digit c \<Longrightarrow> digit_val c < 10"
  unfolding is_digit_def digit_val_def by linarith

lemma digit_chr_digit_val [simp, digit_simps]: "is_digit c \<Longrightarrow> digit_chr (digit_val c) = c"
  by (simp add: is_digit_def digit_val_def digit_chr_def)

lemma dec_value_Nil [simp]: "dec_value [] = 0"
  by (simp add: dec_value_def)

lemma dec_value_snoc [simp]: "dec_value (s @ [c]) = dec_value s * 10 + digit_val c"
  by (simp add: dec_value_def)

lemma dec_value_foldl:
  "foldl (\<lambda>v c. v * 10 + digit_val c) a s = a * 10 ^ length s + dec_value s"
proof (induction s arbitrary: a)
  case Nil
  then show ?case by simp
next
  case (Cons c s)
  have "dec_value (c # s) = digit_val c * 10 ^ length s + dec_value s"
    using Cons.IH [of "digit_val c"] by (simp add: dec_value_def)
  moreover have "foldl (\<lambda>v c. v * 10 + digit_val c) a (c # s)
      = (a * 10 + digit_val c) * 10 ^ length s + dec_value s"
    using Cons.IH by simp
  ultimately show ?case by (simp add: algebra_simps)
qed

lemma dec_value_Cons: "dec_value (c # s) = digit_val c * 10 ^ length s + dec_value s"
  using dec_value_foldl [of "digit_val c" s] by (simp add: dec_value_def)

lemma dec_value_bound: "all_digits s \<Longrightarrow> dec_value s < 10 ^ length s"
proof (induction s)
  case Nil
  then show ?case by simp
next
  case (Cons c s)
  then have c: "digit_val c \<le> 9" and s: "dec_value s < 10 ^ length s"
    using digit_val_less [of c] by (auto simp: all_digits_def)
  have "digit_val c * 10 ^ length s \<le> 9 * 10 ^ length s" using c by (rule mult_le_mono1)
  then have "digit_val c * 10 ^ length s + dec_value s < 9 * 10 ^ length s + 10 ^ length s"
    using s by (rule add_le_less_mono)
  then show ?case by (simp add: dec_value_Cons)
qed

lemma all_digits_simps [simp]:
  "all_digits []" "all_digits (c # s) \<longleftrightarrow> is_digit c \<and> all_digits s"
  "all_digits (s @ t) \<longleftrightarrow> all_digits s \<and> all_digits t"
  by (simp_all add: all_digits_def)

subsection \<open>Unsigned words read as naturals\<close>

lemma unat_and_mask [word_nat]: "unat (w AND mask n) = unat (w :: 'a::len word) mod 2 ^ n"
  by (simp only: take_bit_eq_mask [symmetric] unsigned_take_bit_eq) (simp only: take_bit_eq_mod)

lemma unat32_less: "unat (w :: 32 word) < 2 ^ 32"
  using unsigned_less [of w] by simp

lemma unat_drop_bit [word_nat]: "unat (drop_bit n w) = unat (w :: 'a::len word) div 2 ^ n"
  by (simp only: unat_drop_bit_eq) (simp only: drop_bit_eq_div)

subsection \<open>Multisets\<close>

lemma filter_mset_none: "(\<And>x. x \<in># M \<Longrightarrow> \<not> P x) \<Longrightarrow> filter_mset P M = {#}"
  by (induction M) auto

lemma filter_mset_all: "(\<And>x. x \<in># M \<Longrightarrow> P x) \<Longrightarrow> filter_mset P M = M"
  by (induction M) auto

lemma sorted_shift: "sorted xs \<Longrightarrow> sorted (map (\<lambda>k. k + n) (xs :: nat list))"
  by (induction xs) auto

subsection \<open>Printers and parsers\<close>

text \<open>
  The contract between a printer and the parser of its format, over the values \<open>valid\<close>
  accepts.  Header fields, branch identifiers and ports rely on it.
\<close>

locale codec =
  fixes enc :: "'v \<Rightarrow> string" and dec :: "string \<Rightarrow> 'v option" and valid :: "'v \<Rightarrow> bool"
  assumes dec_enc: "valid x \<Longrightarrow> dec (enc x) = Some x"
begin

lemma enc_inj: "valid x \<Longrightarrow> valid y \<Longrightarrow> enc x = enc y \<Longrightarrow> x = y"
  by (metis dec_enc option.inject)

lemma enc_inj_on: "inj_on enc (Collect valid)"
  by (auto intro!: inj_onI enc_inj)

end

end
