(* ===== verification/Ut.thy ===== *)
theory Ut
  imports SerPrelude
begin

text \<open>
  The string and number helpers of \<^verbatim>\<open>src/sip_router/ut.h\<close>, which every parser and every
  header printer of the server calls.  A C \<^verbatim>\<open>str\<close> (pointer and length) is a \<^typ>\<open>string\<close>; an
  output buffer is the string written to it; \<^verbatim>\<open>unsigned short\<close> and \<^verbatim>\<open>unsigned int\<close> results are
  naturals with the reduction modulo \<open>2 ^ 16\<close> and \<open>2 ^ 32\<close> written out; a result code that the
  C function returns beside an output parameter is the first component of a pair.
\<close>

section \<open>Definitions\<close>

subsection \<open>Trimming\<close>

definition trim_tail_char :: "char \<Rightarrow> bool" where
  "trim_tail_char c \<longleftrightarrow> ord_of c \<in> {0, 13, 10, 32, 9}"

definition trim_len :: "string \<Rightarrow> string" where
  "trim_len s =
     dropWhile (\<lambda>c. ord_of c \<in> {32, 9}) (rev (dropWhile trim_tail_char (rev s)))"

definition trim_r :: "string \<Rightarrow> string" where
  "trim_r s = rev (dropWhile (\<lambda>c. ord_of c \<in> {0, 13, 10}) (rev s))"

subsection \<open>Decimal numbers\<close>

fun str2s_loop :: "string \<Rightarrow> nat \<Rightarrow> nat \<Rightarrow> nat \<times> nat" where
  "str2s_loop [] ret i = (ret, 0)"
| "str2s_loop (c # cs) ret i =
     (if is_digit c
      then (let ret' = (ret * 10 + digit_val c) mod 65536; i' = i + 1
            in if i' > 5 then (0, 1) else str2s_loop cs ret' i')
      else (0, 1))"

text \<open>The value and the error flag; the value is the 16-bit \<^verbatim>\<open>ret\<close> of the C loop.\<close>

definition str2s :: "string \<Rightarrow> nat \<times> nat" where
  "str2s s = str2s_loop s 0 0"

definition btostr :: "nat \<Rightarrow> string" where
  "btostr v =
     (let val = v mod 256; a = val div 100; b = val mod 100 div 10
      in (if a \<noteq> 0 then [digit_chr a] else []) @
         (if b \<noteq> 0 \<or> a \<noteq> 0 then [digit_chr b] else []) @
         [digit_chr (val mod 10)])"

definition INT2STR_MAX_LEN :: nat where
  "INT2STR_MAX_LEN = 19 + 1 + 1"

definition base_chr :: "nat \<Rightarrow> char" where
  "base_chr d = (if d < 10 then chr_of (d + 48) else chr_of (d + 97 - 10))"

text \<open>The first argument is the number \<open>i + 1\<close> of cells of \<^verbatim>\<open>r\<close> still free.\<close>

fun int2str_base_loop :: "nat \<Rightarrow> nat \<Rightarrow> nat \<Rightarrow> int \<Rightarrow> string \<Rightarrow> string" where
  "int2str_base_loop 0 l base j r = r"
| "int2str_base_loop (Suc i) l base j r =
     (let r' = base_chr (l mod base) # r; l' = l div base
      in if (l' \<noteq> 0 \<or> int i - 1 > j) \<and> i > 0
         then int2str_base_loop i l' base j r' else r')"

definition int2str_base_0pad :: "nat \<Rightarrow> nat \<Rightarrow> nat \<Rightarrow> string option" where
  "int2str_base_0pad l base sz =
     (if base < 2 \<or> base > 36 then None
      else Some (int2str_base_loop (INT2STR_MAX_LEN - 1) l base
                   (int (INT2STR_MAX_LEN - 2) - int sz) []))"

definition int2str_base :: "nat \<Rightarrow> nat \<Rightarrow> string option" where
  "int2str_base l base = int2str_base_0pad l base 0"

fun int2str_loop :: "nat \<Rightarrow> nat \<Rightarrow> string \<Rightarrow> string" where
  "int2str_loop 0 l r = r"
| "int2str_loop (Suc i) l r =
     (let r' = digit_chr (l mod 10) # r; l' = l div 10
      in if l' \<noteq> 0 \<and> i > 0 then int2str_loop i l' r' else r')"

definition int2str :: "nat \<Rightarrow> string" where
  "int2str l = int2str_loop (INT2STR_MAX_LEN - 1) l []"

definition USHORT2SBUF_MAX_LEN :: int where
  "USHORT2SBUF_MAX_LEN = 5"

text \<open>\<^verbatim>\<open>buf[offs]=x+'0'; offs+=((offs|x)!=0);\<close>: a leading zero is overwritten.\<close>

definition put_digit :: "string \<Rightarrow> nat \<Rightarrow> string" where
  "put_digit buf x = (if buf \<noteq> [] \<or> x \<noteq> 0 then buf @ [digit_chr x] else buf)"

definition ushort2sbuf :: "nat \<Rightarrow> int \<Rightarrow> string" where
  "ushort2sbuf u len =
     (if len < USHORT2SBUF_MAX_LEN then []
      else (let a = u div 10000; u1 = u mod 10000;
                b = u1 div 1000; u2 = u1 mod 1000;
                c = u2 div 100; u3 = u2 mod 100;
                d = u3 div 10; u4 = u3 mod 10
            in put_digit (put_digit (put_digit (put_digit [] a) b) c) d @ [digit_chr u4]))"

definition ushort2str :: "nat \<Rightarrow> string" where
  "ushort2str u = ushort2sbuf u 5"

fun str2int_loop :: "string \<Rightarrow> nat \<Rightarrow> int \<times> nat" where
  "str2int_loop [] r = (0, r)"
| "str2int_loop (c # cs) r =
     (if is_digit c then str2int_loop cs ((r * 10 + digit_val c) mod 2 ^ 32) else (-1, r))"

text \<open>The return code and the 32-bit \<^verbatim>\<open>*_r\<close>.\<close>

definition str2int :: "string \<Rightarrow> int \<times> nat" where
  "str2int s = str2int_loop s 0"

subsection \<open>Hexadecimal numbers and escapes\<close>

definition hex2int :: "char \<Rightarrow> int" where
  "hex2int c =
     (let n = ord_of c in
      if 48 \<le> n \<and> n \<le> 57 then int n - 48
      else if 97 \<le> n \<and> n \<le> 102 then int n - 97 + 10
      else if 65 \<le> n \<and> n \<le> 70 then int n - 65 + 10
      else -1)"

text \<open>The C loop runs from the last character to the first: the list is the reversed input.\<close>

fun reverse_hex_loop :: "string \<Rightarrow> nat \<Rightarrow> int \<times> nat" where
  "reverse_hex_loop [] res = (1, res)"
| "reverse_hex_loop (c # cs) res =
     (let res' = (res * 16) mod 2 ^ 32; n = ord_of c in
      if 48 \<le> n \<and> n \<le> 57 then reverse_hex_loop cs ((res' + (n - 48)) mod 2 ^ 32)
      else if 97 \<le> n \<and> n \<le> 102 then reverse_hex_loop cs ((res' + (n - 97 + 10)) mod 2 ^ 32)
      else if 65 \<le> n \<and> n \<le> 70 then reverse_hex_loop cs ((res' + (n - 65 + 10)) mod 2 ^ 32)
      else (-1, res'))"

definition reverse_hex2int :: "string \<Rightarrow> int \<times> nat" where
  "reverse_hex2int s = reverse_hex_loop (rev s) 0"

definition hex_digit_chr :: "nat \<Rightarrow> char" where
  "hex_digit_chr d = (if d \<ge> 10 then chr_of (d + 97 - 10) else chr_of (d + 48))"

fun int2reverse_hex_loop :: "nat \<Rightarrow> nat \<Rightarrow> string \<Rightarrow> int \<times> string" where
  "int2reverse_hex_loop 0 nr out = (if nr \<noteq> 0 then -1 else 1, out)"
| "int2reverse_hex_loop (Suc sz) nr out =
     (if nr = 0 then (1, out)
      else int2reverse_hex_loop sz (nr div 16) (out @ [hex_digit_chr (nr mod 16)]))"

text \<open>The return code and the characters written to the buffer of \<open>sz\<close> bytes.\<close>

definition int2reverse_hex :: "nat \<Rightarrow> nat \<Rightarrow> int \<times> string" where
  "int2reverse_hex sz nr =
     (if sz \<noteq> 0 \<and> nr = 0 then (1, ''0'') else int2reverse_hex_loop sz nr [])"

definition string2hex :: "string \<Rightarrow> int \<times> string" where
  "string2hex s =
     (if s = [] then (1, ''0'')
      else (int (length s),
            concat (map (\<lambda>c. [hex_digit_chr (ord_of c div 16), hex_digit_chr (ord_of c mod 16)]) s)))"

text \<open>The return code (the length, or \<open>-1\<close>) and the contents of \<^verbatim>\<open>new_user\<close>.\<close>

fun un_escape_loop :: "string \<Rightarrow> string \<Rightarrow> int \<times> string" where
  "un_escape_loop [] out = (int (length out), out)"
| "un_escape_loop (c # cs) out =
     (if c = CHR ''%''
      then (case cs of
              h # l # rest \<Rightarrow>
                (if hex2int h < 0 then (-1, out)
                 else if hex2int l < 0 then (-1, out)
                 else (let value = hex2int h * 16 + hex2int l in
                       if value < 32 \<or> value > 126 then (-1, out)
                       else un_escape_loop rest (out @ [chr_of (nat value)])))
            | _ \<Rightarrow> (-1, out))
      else un_escape_loop cs (out @ [c]))"

definition un_escape :: "string \<Rightarrow> int \<times> string" where
  "un_escape user = un_escape_loop user []"

definition tolower_chr :: "char \<Rightarrow> char" where
  "tolower_chr c = (if 65 \<le> ord_of c \<and> ord_of c \<le> 90 then chr_of (ord_of c + 32) else c)"

definition strlower :: "string \<Rightarrow> string" where
  "strlower s = map tolower_chr s"

section \<open>Lemmas\<close>

subsection \<open>Decimal numbers\<close>

lemma str2s_loop_eq:
  assumes "i \<le> 5" "ret < 65536"
  shows "str2s_loop s ret i =
    (if all_digits s \<and> length s + i \<le> 5
     then ((ret * 10 ^ length s + dec_value s) mod 65536, 0) else (0, 1))"
  using assms
proof (induction s arbitrary: ret i)
  case Nil
  then show ?case by simp
next
  case (Cons c s)
  let ?r = "(ret * 10 + digit_val c) mod 65536"
  show ?case
  proof (cases "is_digit c \<and> i + 1 \<le> 5")
    case True
    have "(?r * 10 ^ length s + dec_value s) mod 65536
        = ((ret * 10 + digit_val c) * 10 ^ length s + dec_value s) mod 65536"
      by (metis mod_add_left_eq mod_mult_left_eq)
    then show ?thesis
      using True Cons.IH [of "i + 1" ?r] by (simp add: dec_value_Cons algebra_simps)
  next
    case False
    then show ?thesis by auto
  qed
qed

lemma str2int_loop_digits:
  "all_digits s \<Longrightarrow> str2int_loop s (r mod 2 ^ 32) = (0, (r * 10 ^ length s + dec_value s) mod 2 ^ 32)"
proof (induction s arbitrary: r)
  case Nil
  then show ?case by simp
next
  case (Cons c s)
  have "str2int_loop (c # s) (r mod 2 ^ 32) = str2int_loop s ((r * 10 + digit_val c) mod 2 ^ 32)"
    using Cons.prems by (simp del: power_numeral) (metis mod_add_left_eq mod_mult_left_eq)
  also have "\<dots> = (0, ((r * 10 + digit_val c) * 10 ^ length s + dec_value s) mod 2 ^ 32)"
    using Cons.prems by (intro Cons.IH) simp
  finally show ?case by (simp add: dec_value_Cons algebra_simps)
qed

lemma str2int_digits: "all_digits s \<Longrightarrow> str2int s = (0, dec_value s mod 2 ^ 32)"
  using str2int_loop_digits [of s 0] by (simp add: str2int_def)

lemma str2int_loop_bad: "\<not> all_digits s \<Longrightarrow> fst (str2int_loop s r) = -1"
  by (induction s arbitrary: r) auto

lemma int2str_loop_digits:
  "0 < i \<Longrightarrow> l < 10 ^ i \<Longrightarrow> all_digits r \<Longrightarrow>
   all_digits (int2str_loop i l r) \<and>
   dec_value (int2str_loop i l r) = l * 10 ^ length r + dec_value r"
proof (induction i arbitrary: l r)
  case 0
  then show ?case by simp
next
  case (Suc i)
  let ?r = "digit_chr (l mod 10) # r"
  have r: "all_digits ?r" using Suc.prems by simp
  have val: "(l div 10) * 10 ^ length ?r + dec_value ?r = l * 10 ^ length r + dec_value r"
  proof -
    have "l * 10 ^ length r = (l div 10 * 10 + l mod 10) * 10 ^ length r" by simp
    also have "\<dots> = l div 10 * (10 * 10 ^ length r) + l mod 10 * 10 ^ length r"
      by (simp only: distrib_right mult.assoc)
    finally show ?thesis by (simp add: dec_value_Cons)
  qed
  show ?case
  proof (cases "l div 10 \<noteq> 0 \<and> i > 0")
    case True
    have "l div 10 < 10 ^ i" using Suc.prems by (simp add: less_mult_imp_div_less mult.commute)
    with True r Suc.IH [of "l div 10" ?r] val show ?thesis by simp
  next
    case False
    then have "l div 10 = 0" using Suc.prems by auto
    then show ?thesis using False r val by simp
  qed
qed

lemma int2str_digits:
  assumes "l < 10 ^ 20"
  shows "all_digits (int2str l) \<and> dec_value (int2str l) = l"
  using int2str_loop_digits [of "INT2STR_MAX_LEN - 1" l "[]"] assms
  by (simp add: int2str_def INT2STR_MAX_LEN_def)

lemma put_digit_digits:
  "x < 10 \<Longrightarrow> all_digits b \<Longrightarrow>
   all_digits (put_digit b x) \<and> dec_value (put_digit b x) = dec_value b * 10 + x \<and>
   length (put_digit b x) \<le> Suc (length b)"
  by (auto simp: put_digit_def)

lemma ushort2str_digits:
  assumes "u < 65536"
  shows "all_digits (ushort2str u) \<and> dec_value (ushort2str u) = u \<and> length (ushort2str u) \<le> 5"
proof -
  define u1 where "u1 = u mod 10000"
  define u2 where "u2 = u1 mod 1000"
  define u3 where "u3 = u2 mod 100"
  define a where "a = u div 10000"
  define b where "b = u1 div 1000"
  define c where "c = u2 div 100"
  define d where "d = u3 div 10"
  define e where "e = u3 mod 10"
  note defs = a_def b_def c_def d_def e_def u1_def u2_def u3_def
  have "u1 < 10 * 1000" "u2 < 10 * 100" "u3 < 10 * 10" "u < 10 * 10000"
    using assms by (simp_all add: u1_def u2_def u3_def)
  then have dig: "a < 10" "b < 10" "c < 10" "d < 10" "e < 10"
    unfolding a_def b_def c_def d_def e_def by (simp_all add: less_mult_imp_div_less)
  have "u = a * 10000 + u1" "u1 = b * 1000 + u2" "u2 = c * 100 + u3" "u3 = d * 10 + e"
    unfolding defs by (rule div_mult_mod_eq [symmetric])+
  then have u: "u = (((a * 10 + b) * 10 + c) * 10 + d) * 10 + e" by (simp add: distrib_right)
  have 1: "all_digits (put_digit [] a) \<and> dec_value (put_digit [] a) = a
      \<and> length (put_digit [] a) \<le> 1"
    using put_digit_digits [of a "[]"] dig by simp
  note 2 = put_digit_digits [of b "put_digit [] a"]
  note 3 = put_digit_digits [of c "put_digit (put_digit [] a) b"]
  note 4 = put_digit_digits [of d "put_digit (put_digit (put_digit [] a) b) c"]
  have eq: "ushort2str u = put_digit (put_digit (put_digit (put_digit [] a) b) c) d @ [digit_chr e]"
    by (simp add: ushort2str_def ushort2sbuf_def USHORT2SBUF_MAX_LEN_def Let_def defs)
  show ?thesis unfolding eq using 1 2 3 4 dig u by simp
qed

subsection \<open>Hexadecimal numbers\<close>

lemma hex_digit_chr_cases:
  "d < 16 \<Longrightarrow> d < 10 \<and> ord_of (hex_digit_chr d) = d + 48 \<or>
              10 \<le> d \<and> ord_of (hex_digit_chr d) = d + 87"
  by (auto simp: hex_digit_chr_def)

lemma reverse_hex_loop_snoc:
  "d < 16 \<Longrightarrow> reverse_hex_loop xs r = (1, v) \<Longrightarrow>
   reverse_hex_loop (xs @ [hex_digit_chr d]) r = (1, (v * 16 mod 2 ^ 32 + d) mod 2 ^ 32)"
proof (induction xs arbitrary: r)
  case Nil
  then show ?case using hex_digit_chr_cases [of d] by (auto simp: Let_def)
next
  case (Cons x xs)
  then show ?case by (auto simp: Let_def split: if_splits)
qed

lemma int2reverse_hex_loop_decodes:
  "nr < 16 ^ sz \<Longrightarrow> nr < 2 ^ 32 \<Longrightarrow>
   \<exists>ds. int2reverse_hex_loop sz nr out = (1, out @ ds) \<and> length ds \<le> sz \<and>
        reverse_hex_loop (rev ds) 0 = (1, nr)"
proof (induction sz arbitrary: nr out)
  case 0
  then show ?case by simp
next
  case (Suc sz)
  show ?case
  proof (cases "nr = 0")
    case True
    then show ?thesis by simp
  next
    case False
    let ?d = "hex_digit_chr (nr mod 16)"
    have "nr div 16 < 16 ^ sz" "nr div 16 < 2 ^ 32"
      using Suc.prems by (simp_all add: less_mult_imp_div_less mult.commute)
    then obtain ds where ds: "int2reverse_hex_loop sz (nr div 16) (out @ [?d]) = (1, (out @ [?d]) @ ds)"
      "length ds \<le> sz" "reverse_hex_loop (rev ds) 0 = (1, nr div 16)"
      using Suc.IH by blast
    have "reverse_hex_loop (rev (?d # ds)) 0 = (1, nr)"
      using reverse_hex_loop_snoc [of "nr mod 16" "rev ds" 0 "nr div 16"] ds(3) Suc.prems(2)
      by simp
    then show ?thesis using False ds by (intro exI [of _ "?d # ds"]) simp
  qed
qed

lemma reverse_hex2int_int2reverse_hex:
  assumes "nr < 2 ^ 32"
  shows "fst (int2reverse_hex 8 nr) = 1 \<and>
         reverse_hex2int (snd (int2reverse_hex 8 nr)) = (1, nr)"
proof (cases "nr = 0")
  case True
  then show ?thesis by (simp add: int2reverse_hex_def reverse_hex2int_def)
next
  case False
  have "nr < 16 ^ 8" using assms by simp
  from int2reverse_hex_loop_decodes [OF this assms, of "[]"] False show ?thesis
    by (auto simp: int2reverse_hex_def reverse_hex2int_def)
qed

subsection \<open>Escapes\<close>

text \<open>The reference encoder: characters outside \<open>keep\<close>, and \<^verbatim>\<open>%\<close> itself, as \<^verbatim>\<open>%xx\<close>.\<close>

definition esc_chr :: "(char \<Rightarrow> bool) \<Rightarrow> char \<Rightarrow> string" where
  "esc_chr keep c =
     (if keep c \<and> c \<noteq> CHR ''%'' then [c]
      else [CHR ''%'', hex_digit_chr (ord_of c div 16), hex_digit_chr (ord_of c mod 16)])"

definition printable :: "char \<Rightarrow> bool" where
  "printable c \<longleftrightarrow> 32 \<le> ord_of c \<and> ord_of c \<le> 126"

lemma hex2int_hex_digit_chr: "d < 16 \<Longrightarrow> hex2int (hex_digit_chr d) = int d"
  using hex_digit_chr_cases [of d] by (auto simp: hex2int_def)

lemma un_escape_loop_esc:
  "list_all printable s \<Longrightarrow>
   un_escape_loop (concat (map (esc_chr keep) s)) out = (int (length out + length s), out @ s)"
proof (induction s arbitrary: out)
  case Nil
  then show ?case by simp
next
  case (Cons c s)
  have n: "ord_of c div 16 < 16" using ord_of_less [of c] by linarith
  have v: "int (ord_of c div 16) * 16 + int (ord_of c mod 16) = int (ord_of c)"
    by (metis div_mult_mod_eq of_nat_add of_nat_mult of_nat_numeral)
  have p: "32 \<le> ord_of c" "ord_of c \<le> 126" using Cons.prems by (auto simp: printable_def)
  have "un_escape_loop (esc_chr keep c @ t) out = un_escape_loop t (out @ [c])" for t
    using n p v by (auto simp: esc_chr_def hex2int_hex_digit_chr Let_def)
  then show ?case using Cons.IH [of "out @ [c]"] Cons.prems by simp
qed

lemma un_escape_loop_step:
  assumes "un_escape_loop (c # cs) out = (r, out')"
  shows "r = -1 \<and> out' = out \<or>
    (\<exists>t v. length t < length (c # cs) \<and> un_escape_loop t (out @ [v]) = (r, out'))"
proof (cases "c = CHR ''%''")
  case False
  then have "un_escape_loop cs (out @ [c]) = (r, out')" using assms by simp
  then show ?thesis by force
next
  case True
  show ?thesis
  proof (cases "\<exists>h l rest. cs = h # l # rest")
    case False
    then have "un_escape_loop (c # cs) out = (-1, out)" using True by (auto split: list.split)
    then show ?thesis using assms by simp
  next
    case rest: True
    then obtain h l rest where cs: "cs = h # l # rest" by blast
    let ?v = "hex2int h * 16 + hex2int l"
    have "un_escape_loop (c # cs) out = (-1, out) \<or>
        un_escape_loop (c # cs) out = un_escape_loop rest (out @ [chr_of (nat ?v)])"
      using True cs by (simp add: Let_def)
    moreover have "length rest < length (c # cs)" using cs by simp
    ultimately show ?thesis using assms by (metis prod.inject)
  qed
qed

lemma un_escape_loop_length:
  "un_escape_loop s out = (r, out') \<Longrightarrow>
   length out' \<le> length out + length s \<and> (r = -1 \<or> r = int (length out'))"
proof (induction s arbitrary: out rule: length_induct)
  case (1 s)
  show ?case
  proof (cases s)
    case Nil
    then show ?thesis using "1.prems" by auto
  next
    case (Cons c cs)
    then consider "r = -1" "out' = out"
      | t v where "length t < length s" "un_escape_loop t (out @ [v]) = (r, out')"
      using un_escape_loop_step "1.prems" by blast
    then show ?thesis
    proof cases
      case 1
      then show ?thesis by simp
    next
      case 2
      then have "length out' \<le> length (out @ [v]) + length t \<and> (r = -1 \<or> r = int (length out'))"
        using "1.IH" by blast
      then show ?thesis using 2(1) by simp
    qed
  qed
qed

subsection \<open>The codecs of the number formats\<close>

definition str2s_opt :: "string \<Rightarrow> nat option" where
  "str2s_opt s = (case str2s s of (v, e) \<Rightarrow> if e = 0 then Some v else None)"

definition str2int_opt :: "string \<Rightarrow> nat option" where
  "str2int_opt s = (case str2int s of (e, v) \<Rightarrow> if e = 0 then Some v else None)"

definition reverse_hex_opt :: "string \<Rightarrow> nat option" where
  "reverse_hex_opt s = (case reverse_hex2int s of (e, v) \<Rightarrow> if e = 1 then Some v else None)"

interpretation port_codec: codec ushort2str str2s_opt "\<lambda>u. u < 65536"
proof
  fix u :: nat
  assume u: "u < 65536"
  then have "all_digits (ushort2str u)" "dec_value (ushort2str u) = u" "length (ushort2str u) \<le> 5"
    using ushort2str_digits [OF u] by auto
  with u show "str2s_opt (ushort2str u) = Some u"
    by (simp add: str2s_opt_def str2s_def str2s_loop_eq)
qed

interpretation int_codec: codec int2str str2int_opt "\<lambda>l. l < 2 ^ 32"
proof
  fix l :: nat
  assume l: "l < 2 ^ 32"
  then have "l < 10 ^ 20" by simp
  from int2str_digits [OF this] l show "str2int_opt (int2str l) = Some l"
    by (simp add: str2int_opt_def str2int_digits)
qed

interpretation rhex_codec: codec "\<lambda>n. snd (int2reverse_hex 8 n)" reverse_hex_opt "\<lambda>n. n < 2 ^ 32"
  by unfold_locales (simp add: reverse_hex_opt_def reverse_hex2int_int2reverse_hex)

section \<open>Properties\<close>

text \<open>\<^verbatim>\<open>str2s\<close> accepts exactly the strings of at most five decimal digits; its value is
  the number they denote reduced to 16 bits (so 65536 to 99999 wrap without an error), and
  every other string sets the error flag and returns 0.\<close>

theorem str2s_spec:
  "str2s s = (if all_digits s \<and> length s \<le> 5 then (dec_value s mod 65536, 0) else (0, 1))"
  by (simp add: str2s_def str2s_loop_eq)

text \<open>The number formats the server writes are read back unchanged: ports printed by
  \<^verbatim>\<open>ushort2str\<close>, unsigned integers printed by \<^verbatim>\<open>int2str\<close> and the reversed hexadecimal of
  \<^verbatim>\<open>int2reverse_hex\<close> in an eight byte buffer.\<close>

theorem number_roundtrips:
  assumes "u < 65536" and "l < 2 ^ 32"
  shows "str2s (ushort2str u) = (u, 0) \<and> str2int (int2str l) = (0, l) \<and>
    reverse_hex2int (snd (int2reverse_hex 8 l)) = (1, l)"
  using port_codec.dec_enc [OF assms(1)] int_codec.dec_enc [OF assms(2)]
    rhex_codec.dec_enc [OF assms(2)]
  by (auto simp: str2s_opt_def str2int_opt_def reverse_hex_opt_def split: prod.splits if_splits)

theorem number_roundtrips_witness:
  "(5060::nat) < 65536 \<and> (4294967295::nat) < 2 ^ 32 \<and>
   str2s (ushort2str 5060) = (5060, 0) \<and> str2int (int2str 4294967295) = (0, 4294967295) \<and>
   reverse_hex2int (snd (int2reverse_hex 8 4294967295)) = (1, 4294967295)"
  using number_roundtrips [of 5060 4294967295] by simp

text \<open>\<^verbatim>\<open>un_escape\<close> never writes more characters than it reads (so a buffer of the input's
  length is enough), returns \<open>-1\<close> or the number of characters written, and inverts every
  percent encoding of a printable string.\<close>

theorem un_escape_spec:
  "length (snd (un_escape u)) \<le> length u \<and>
   fst (un_escape u) \<in> {-1, int (length (snd (un_escape u)))} \<and>
   (list_all printable s \<longrightarrow>
    un_escape (concat (map (esc_chr keep) s)) = (int (length s), s))"
  using un_escape_loop_length [of u "[]"] un_escape_loop_esc [of s keep "[]"]
  by (cases "un_escape_loop u []") (auto simp: un_escape_def)

theorem un_escape_spec_witness:
  "list_all printable ''a b'' \<and>
   un_escape (concat (map (esc_chr (\<lambda>c. c \<noteq> CHR '' '')) ''a b'')) = (3, ''a b'')"
proof -
  have p: "list_all printable ''a b''" by (simp add: printable_def)
  then show ?thesis using un_escape_spec [of "[]" "''a b''" "\<lambda>c. c \<noteq> CHR '' ''"] by simp
qed

end
