(* ===== verification/QValue.thy ===== *)
theory QValue
  imports SerPrelude
begin

text \<open>
  The q parameter of contacts and branches: \<^verbatim>\<open>src/sip_router/qvalue.c\<close> (the recogniser
  \<^verbatim>\<open>str2q\<close>, a seven state machine over the characters) and \<^verbatim>\<open>src/sip_router/qvalue.h\<close> (the
  printer).  A q value is an integer number of thousandths; \<open>-1\<close> means unspecified.
\<close>

section \<open>Definitions\<close>

definition Q_UNSPECIFIED :: int where "Q_UNSPECIFIED = -1"
definition MAX_Q :: int where "MAX_Q = 1000"
definition MIN_Q :: int where "MIN_Q = 0"

datatype q_error = E_INVALID_PARAMS | E_Q_INV_CHAR | E_Q_EMPTY | E_Q_TOO_BIG | E_Q_DEC_MISSING

datatype qstate = ST_START | ST_0 | ST_1 | ST_0_PT | ST_1_PT | ST_1_PT_0 | ST_0_PT_N

text \<open>The variables of the loop: \<^verbatim>\<open>*q\<close>, \<^verbatim>\<open>digits\<close> and \<^verbatim>\<open>order\<close>.\<close>

record qctx =
  qv :: int
  digits :: int
  order :: int

definition too_big_or_inv :: "char \<Rightarrow> nat \<Rightarrow> q_error" where
  "too_big_or_inv c lo = (if lo \<le> ord_of c \<and> ord_of c \<le> 57 then E_Q_TOO_BIG else E_Q_INV_CHAR)"

fun str2q_step :: "qstate \<Rightarrow> char \<Rightarrow> qctx \<Rightarrow> q_error + (qstate \<times> qctx)" where
  "str2q_step ST_START c x =
     (if ord_of c = 32 \<or> ord_of c = 9 then Inr (ST_START, x)
      else if c = CHR ''0'' then Inr (ST_0, x\<lparr>qv := 0\<rparr>)
      else if c = CHR ''1'' then Inr (ST_1, x\<lparr>qv := 1000\<rparr>)
      else if c = CHR ''.'' then Inr (ST_0_PT, x)
      else Inl E_Q_INV_CHAR)"
| "str2q_step ST_0 c x =
     (if c = CHR ''0'' then Inr (ST_0, x)
      else if c = CHR ''.'' then Inr (ST_0_PT, x)
      else if c = CHR ''1'' then Inr (ST_1, x\<lparr>qv := 1000\<rparr>)
      else Inl (too_big_or_inv c 50))"
| "str2q_step ST_1 c x =
     (if c = CHR ''.'' then Inr (ST_1_PT, x) else Inl (too_big_or_inv c 48))"
| "str2q_step ST_0_PT c x =
     (if is_digit c
      then Inr (ST_0_PT_N, x\<lparr>qv := int (digit_val c) * order x, order := order x div 10\<rparr>)
      else Inl E_Q_INV_CHAR)"
| "str2q_step ST_1_PT c x =
     (if c = CHR ''0'' then Inr (ST_1_PT_0, x) else Inl (too_big_or_inv c 49))"
| "str2q_step ST_1_PT_0 c x =
     (if c = CHR ''0'' then Inr (ST_1_PT_0, x) else Inl (too_big_or_inv c 49))"
| "str2q_step ST_0_PT_N c x =
     (if is_digit c
      then (if digits x \<le> 3
            then Inr (ST_0_PT_N, x\<lparr>qv := qv x + int (digit_val c) * order x,
                                   order := order x div 10, digits := digits x + 1\<rparr>)
            else Inr (ST_0_PT_N, x))
      else Inl E_Q_INV_CHAR)"

fun str2q_loop :: "qstate \<Rightarrow> string \<Rightarrow> qctx \<Rightarrow> q_error option \<times> int" where
  "str2q_loop st [] x =
     (case st of
        ST_START \<Rightarrow> (Some E_Q_EMPTY, qv x)
      | ST_0_PT \<Rightarrow> (Some E_Q_DEC_MISSING, qv x)
      | ST_1_PT \<Rightarrow> (Some E_Q_DEC_MISSING, qv x)
      | _ \<Rightarrow> (None, qv x))"
| "str2q_loop st (c # cs) x =
     (case str2q_step st c x of
        Inl e \<Rightarrow> (Some e, qv x)
      | Inr (st', x') \<Rightarrow> str2q_loop st' cs x')"

text \<open>
  The return code (\<open>None\<close> is 0) and \<^verbatim>\<open>*q\<close>, whose initial value is \<open>q\<close>; the string is \<open>None\<close>
  when the pointer is null.
\<close>

definition str2q :: "int \<Rightarrow> string option \<Rightarrow> q_error option \<times> int" where
  "str2q q so =
     (case so of None \<Rightarrow> (Some E_INVALID_PARAMS, q)
      | Some s \<Rightarrow> str2q_loop ST_START s \<lparr>qv = q, digits = 1, order = 100\<rparr>)"

definition len_q :: "int \<Rightarrow> nat" where
  "len_q q =
     (if q = Q_UNSPECIFIED then 0
      else if q \<ge> MAX_Q then 1
      else if q \<le> MIN_Q then 1
      else if q mod 100 = 0 then 2 + 1
      else if q mod 10 = 0 then 2 + 2
      else 2 + 3)"

definition q2str :: "int \<Rightarrow> string" where
  "q2str q =
     (if q = Q_UNSPECIFIED then []
      else if q \<ge> MAX_Q then ''1''
      else if q \<le> MIN_Q then ''0''
      else (let p = ''0.'' @ [digit_chr (nat (q div 100))]; q1 = q mod 100 in
            if q1 = 0 then p
            else (let p1 = p @ [digit_chr (nat (q1 div 10))]; q2 = q1 mod 10 in
                  if q2 = 0 then p1 else p1 @ [digit_chr (nat q2)])))"

section \<open>Lemmas\<close>

text \<open>
  The digits already read and the weight of the next one bound the value: after \<open>k\<close> fraction
  digits \<open>qv + 10 * order\<close> stays within 1000.
\<close>

fun q_inv :: "qstate \<Rightarrow> qctx \<Rightarrow> bool" where
  "q_inv ST_START x = (order x = 100 \<and> digits x = 1)"
| "q_inv ST_0 x = (qv x = 0 \<and> order x = 100 \<and> digits x = 1)"
| "q_inv ST_0_PT x = (order x = 100 \<and> digits x = 1)"
| "q_inv ST_0_PT_N x =
     (0 \<le> qv x \<and> qv x \<le> 1000 \<and>
      (digits x = 1 \<and> order x = 10 \<and> qv x \<le> 900 \<or>
       digits x = 2 \<and> order x = 1 \<and> qv x \<le> 990 \<or>
       digits x = 3 \<and> order x = 0 \<and> qv x \<le> 999 \<or>
       digits x = 4 \<and> order x = 0 \<and> qv x \<le> 999))"
| "q_inv _ x = (qv x = 1000)"

lemma q_inv_step:
  "q_inv st x \<Longrightarrow> str2q_step st c x = Inr (st', x') \<Longrightarrow> q_inv st' x'"
  using digit_val_less [of c] by (cases st) (auto split: if_splits)

lemma q_inv_loop:
  "q_inv st x \<Longrightarrow> str2q_loop st s x = (None, q) \<Longrightarrow> 0 \<le> q \<and> q \<le> 1000"
proof (induction s arbitrary: st x)
  case Nil
  then show ?case by (cases st) auto
next
  case (Cons c s)
  then obtain st' x' where s: "str2q_step st c x = Inr (st', x')" "str2q_loop st' s x' = (None, q)"
    by (auto split: sum.splits)
  from Cons.IH [OF q_inv_step [OF Cons.prems(1) s(1)] s(2)] show ?case .
qed

text \<open>Reading a fraction: the first three digits count, the others are only checked.\<close>

lemma str2q_fraction_tail:
  "digits x = 4 \<or> digits x = 3 \<and> order x = 0 \<Longrightarrow> all_digits s \<Longrightarrow>
   str2q_loop ST_0_PT_N s x = (None, qv x)"
  by (induction s arbitrary: x) auto

lemma str2q_fraction:
  assumes "all_digits s"
  shows "str2q_loop ST_0_PT (d1 # s) \<lparr>qv = q, digits = 1, order = 100\<rparr> =
    (if is_digit d1
     then (None, int (digit_val d1) * 100 +
       (case s of [] \<Rightarrow> 0
        | [d2] \<Rightarrow> int (digit_val d2) * 10
        | d2 # d3 # _ \<Rightarrow> int (digit_val d2) * 10 + int (digit_val d3)))
     else (Some E_Q_INV_CHAR, q))"
  using assms by (auto simp: str2q_fraction_tail split: list.splits)

lemma str2q_prefix: "str2q q (Some (''0.'' @ s)) = str2q_loop ST_0_PT s \<lparr>qv = 0, digits = 1, order = 100\<rparr>"
  by (simp add: str2q_def)

lemma int_div_mod_unique:
  fixes q d k r :: int
  assumes "q = d * k + r" "0 \<le> r" "r < d"
  shows "q div d = k \<and> q mod d = r"
  using assms by simp

lemma three_digits:
  fixes q :: int
  assumes "0 < q" "q < 1000"
  shows "\<exists>a b c :: nat. a < 10 \<and> b < 10 \<and> c < 10 \<and> q = 100 * int a + 10 * int b + int c"
proof -
  define n where "n = nat q"
  have n: "q = int n" "n < 1000" using assms by (auto simp: n_def)
  define a b c where "a = n div 100" and "b = n mod 100 div 10" and "c = n mod 100 mod 10"
  have "n = 100 * a + 10 * b + c"
    using div_mult_mod_eq [of n 100] div_mult_mod_eq [of "n mod 100" 10]
    unfolding a_def b_def c_def by linarith
  then have "q = 100 * int a + 10 * int b + int c" using n(1) by simp
  moreover have "a < 10" "b < 10" "c < 10"
    using n(2) by (simp_all add: a_def b_def c_def less_mult_imp_div_less)
  ultimately show ?thesis by blast
qed

lemma q2str_digits:
  assumes "a < 10" "b < 10" "c < 10" "q = 100 * int a + 10 * int b + int c" "0 < q"
  shows "q2str q = ''0.'' @ digit_chr a #
    (if c = 0 then (if b = 0 then [] else [digit_chr b]) else [digit_chr b, digit_chr c])"
proof -
  have r: "10 * int b + int c < 100" "q < 1000" using assms by linarith+
  have "q div 100 = int a \<and> q mod 100 = 10 * int b + int c"
    by (rule int_div_mod_unique [of _ 100]) (use assms r in simp_all)
  moreover have "(10 * int b + int c) div 10 = int b \<and> (10 * int b + int c) mod 10 = int c"
    by (rule int_div_mod_unique [of _ 10]) (use assms in simp_all)
  ultimately show ?thesis
    using assms(5) r(2) by (simp add: q2str_def Q_UNSPECIFIED_def MAX_Q_def MIN_Q_def Let_def)
qed

lemma str2q_q2str:
  assumes "0 \<le> q" "q \<le> 1000"
  shows "str2q q0 (Some (q2str q)) = (None, q)"
proof (cases "q = 0 \<or> q = 1000")
  case True
  then show ?thesis by (auto simp: q2str_def Q_UNSPECIFIED_def MAX_Q_def MIN_Q_def str2q_def)
next
  case False
  then have r: "0 < q" "q < 1000" using assms by auto
  obtain a b c where abc: "a < 10" "b < 10" "c < (10::nat)" "q = 100 * int a + 10 * int b + int c"
    using three_digits [OF r] by blast
  show ?thesis
    using str2q_prefix [of q0] q2str_digits [OF abc r(1)] abc by (simp add: str2q_fraction)
qed

definition str2q_opt :: "string \<Rightarrow> int option" where
  "str2q_opt s = (case str2q 0 (Some s) of (None, q) \<Rightarrow> Some q | _ \<Rightarrow> None)"

interpretation q_codec: codec q2str str2q_opt "\<lambda>q. 0 \<le> q \<and> q \<le> 1000"
  by unfold_locales (simp add: str2q_opt_def str2q_q2str)

lemma len_q_q2str: "len_q q = length (q2str q)"
proof (cases "0 < q \<and> q < 1000")
  case True
  have m: "q mod 100 mod 10 = q mod 10" by (rule mod_mod_cancel) simp
  moreover have "q mod 100 = 0 \<Longrightarrow> q mod 10 = 0" using m by simp
  ultimately show ?thesis
    using True by (simp add: len_q_def q2str_def Q_UNSPECIFIED_def MAX_Q_def MIN_Q_def Let_def)
next
  case False
  then show ?thesis by (auto simp: len_q_def q2str_def Q_UNSPECIFIED_def MAX_Q_def MIN_Q_def)
qed

section \<open>Properties\<close>

text \<open>Every q value that is printed is read back: \<^verbatim>\<open>str2q\<close> of \<^verbatim>\<open>q2str\<close> is the identity on
  0 to 1000 thousandths, whatever the output variable held before; \<^verbatim>\<open>len_q\<close> is the length of the
  text \<^verbatim>\<open>q2str\<close> writes, which fits the five characters of its buffer.\<close>

theorem q_roundtrip:
  "(0 \<le> q \<and> q \<le> 1000 \<longrightarrow> str2q q0 (Some (q2str q)) = (None, q)) \<and>
   len_q p = length (q2str p) \<and> length (q2str p) \<le> 5"
proof -
  have "len_q p \<le> 5" by (simp add: len_q_def)
  then show ?thesis by (simp add: str2q_q2str len_q_q2str)
qed

theorem q_roundtrip_witness:
  "str2q 7 (Some (q2str 567)) = (None, 567) \<and> q2str 567 = ''0.567''"
proof -
  have "q2str 567 = ''0.567''" by code_simp
  then show ?thesis using q_roundtrip [of 567 7 0] by simp
qed

text \<open>A q value \<^verbatim>\<open>str2q\<close> accepts is between 0 and 1000, and a fraction of any number of
  digits denotes the number its first three digits (padded with zeros) spell.\<close>

theorem str2q_spec:
  "(str2q q0 (Some s) = (None, q) \<longrightarrow> 0 \<le> q \<and> q \<le> 1000) \<and>
   (ds \<noteq> [] \<and> all_digits ds \<longrightarrow>
      str2q q0 (Some (''0.'' @ ds)) = (None, int (dec_value (take 3 (ds @ ''00'')))))"
proof -
  have "str2q q0 (Some (''0.'' @ ds)) = (None, int (dec_value (take 3 (ds @ ''00''))))"
    if ds: "ds \<noteq> []" "all_digits ds"
  proof -
    obtain d1 t where t: "ds = d1 # t" "is_digit d1" "all_digits t"
      using ds by (cases ds) auto
    then show ?thesis
      using str2q_prefix [of q0 ds] str2q_fraction [OF t(3), of d1 0]
      by (cases t rule: list.exhaust; cases "tl t")
        (auto simp: dec_value_def digit_val_def split: list.splits)
  qed
  then show ?thesis
    using q_inv_loop [of ST_START "\<lparr>qv = q0, digits = 1, order = 100\<rparr>" s q]
    by (simp add: str2q_def)
qed

theorem str2q_spec_witness:
  "str2q 3 (Some ''1.000'') = (None, 1000) \<and> (1000::int) \<le> 1000 \<and>
   str2q 3 (Some (''0.'' @ ''98765'')) = (None, 987)"
proof -
  have "str2q 3 (Some ''1.000'') = (None, 1000)" by code_simp
  moreover have "all_digits ''98765''" by code_simp
  moreover have "dec_value (take 3 (''98765'' @ ''00'')) = 987" by code_simp
  ultimately show ?thesis using str2q_spec [of 3 "''1.000''" 1000 "''98765''"] by simp
qed

end
