(* ===== verification/Dset.thy ===== *)
theory Dset
  imports QValue
begin

text \<open>
  The destination set of a request, \<^verbatim>\<open>src/sip_router/dset.c\<close>: the array of additional branches
  with its iterator, the q value of the Request-URI, the printing of the set as a Contact header
  field, and the rewriting of the Request-URI.  The array holds \<^verbatim>\<open>nr_branches\<close> entries, here a
  list; a C string with its length is a \<open>string\<close>, \<open>None\<close> stands for a null pointer (passed with
  length 0).
\<close>

section \<open>Definitions\<close>

definition MAX_BRANCHES :: nat where "MAX_BRANCHES = 12"
definition MAX_URI_SIZE :: nat where "MAX_URI_SIZE = 1024"
definition MAX_REDIRECTION_LEN :: nat where "MAX_REDIRECTION_LEN = 512"
definition E_TOO_MANY_BRANCHES :: int where "E_TOO_MANY_BRANCHES = -12"

definition CONTACT :: string where "CONTACT = ''Contact: ''"
definition CONTACT_DELIM :: string where "CONTACT_DELIM = '', ''"
definition Q_PARAM :: string where "Q_PARAM = ''>;q=''"
definition CRLF :: string where "CRLF = [chr_of 13, chr_of 10]"

record branch =
  uri :: string
  dst_uri :: string
  bq :: int
  force_send_socket :: addr

text \<open>The file's static variables and \<^verbatim>\<open>ser_error\<close>.\<close>

record dset =
  branches :: "branch list"
  branch_iterator :: nat
  ruri_q :: int
  ser_error :: int

text \<open>The part of \<^verbatim>\<open>struct sip_msg\<close> the file reads and writes.\<close>

record msg_uri =
  new_uri :: "string option"
  first_line_uri :: string
  parsed_uri_ok :: bool

definition nr_branches :: "dset \<Rightarrow> nat" where
  "nr_branches d = length (branches d)"

definition init_branch_iterator :: "dset \<Rightarrow> dset" where
  "init_branch_iterator d = d\<lparr>branch_iterator := 0\<rparr>"

definition next_branch :: "dset \<Rightarrow> branch option \<times> dset" where
  "next_branch d =
     (let i = branch_iterator d in
      if i < nr_branches d then (Some (branches d ! i), d\<lparr>branch_iterator := i + 1\<rparr>)
      else (None, d))"

definition clear_branches :: "dset \<Rightarrow> dset" where
  "clear_branches d = d\<lparr>branches := [], ruri_q := Q_UNSPECIFIED\<rparr>"

definition get_request_uri :: "msg_uri \<Rightarrow> string" where
  "get_request_uri m = (case new_uri m of Some u \<Rightarrow> u | None \<Rightarrow> first_line_uri m)"

text \<open>
  The return value and the new set; \<open>None\<close> stands for the write past the end of
  \<^verbatim>\<open>branches[nr_branches].uri\<close>, which holds \<^verbatim>\<open>MAX_URI_SIZE\<close> characters.
\<close>

definition append_branch ::
  "msg_uri \<Rightarrow> string option \<Rightarrow> string option \<Rightarrow> int \<Rightarrow> addr \<Rightarrow> dset \<Rightarrow> (int \<times> dset) option" where
  "append_branch m u dst q sock d =
     (let uri_len = (case u of None \<Rightarrow> 0 | Some s \<Rightarrow> length s);
          dst_uri_len = (case dst of None \<Rightarrow> 0 | Some s \<Rightarrow> length s) in
      if nr_branches d = MAX_BRANCHES - 1
      then Some (-1, d\<lparr>ser_error := E_TOO_MANY_BRANCHES\<rparr>)
      else if uri_len > MAX_URI_SIZE - 1 then Some (-1, d)
      else if dst_uri_len > MAX_URI_SIZE - 1 then Some (-1, d)
      else (let u' = (case u of
                  None \<Rightarrow> (case new_uri m of Some s \<Rightarrow> s | None \<Rightarrow> first_line_uri m)
                | Some s \<Rightarrow> s) in
            if length u' + 1 > MAX_URI_SIZE then None
            else Some (1, d\<lparr>branches := branches d @
              [\<lparr>uri = u',
                dst_uri = (case dst of Some s \<Rightarrow> if length s \<noteq> 0 then s else [] | None \<Rightarrow> []),
                bq = q, force_send_socket = sock\<rparr>]\<rparr>)))"

text \<open>The first loop of \<^verbatim>\<open>print_dset\<close>: number of contacts and total length.\<close>

function print_dset_count :: "dset \<Rightarrow> nat \<Rightarrow> nat \<Rightarrow> nat \<times> nat \<times> dset" where
  "print_dset_count d cnt len =
     (case next_branch d of
        (None, d') \<Rightarrow> (cnt, len, d')
      | (Some b, d') \<Rightarrow> print_dset_count d' (cnt + 1)
          (len + length (uri b) +
           (if bq b \<noteq> Q_UNSPECIFIED then 1 + length Q_PARAM + len_q (bq b) else 0)))"
  by pat_completeness auto
termination
  by (relation "measure (\<lambda>(d, _). nr_branches d - branch_iterator d)")
    (auto simp: next_branch_def nr_branches_def Let_def split: if_splits)

text \<open>The second loop: \<open>p\<close> is what has been written so far, \<open>i\<close> the number of contacts.\<close>

function print_dset_write :: "dset \<Rightarrow> nat \<Rightarrow> string \<Rightarrow> string \<times> dset" where
  "print_dset_write d i p =
     (case next_branch d of
        (None, d') \<Rightarrow> (p, d')
      | (Some b, d') \<Rightarrow>
          (let p = (if i \<noteq> 0 then p @ CONTACT_DELIM else p);
               p = (if bq b \<noteq> Q_UNSPECIFIED then p @ ''<'' else p);
               p = p @ uri b;
               p = (if bq b \<noteq> Q_UNSPECIFIED then p @ Q_PARAM @ q2str (bq b) else p)
           in print_dset_write d' (i + 1) p))"
  by pat_completeness auto
termination
  by (relation "measure (\<lambda>(d, _). nr_branches d - branch_iterator d)")
    (auto simp: next_branch_def nr_branches_def Let_def split: if_splits)

text \<open>
  The characters written to the static buffer and \<^verbatim>\<open>*len\<close>, or a null pointer.
\<close>

definition print_dset :: "msg_uri \<Rightarrow> dset \<Rightarrow> (string \<times> nat) option \<times> dset" where
  "print_dset m d =
     (let (cnt, len) = (case new_uri m of
             Some u \<Rightarrow> (1, length u + (if ruri_q d \<noteq> Q_UNSPECIFIED
                                   then 1 + length Q_PARAM + len_q (ruri_q d) else 0))
           | None \<Rightarrow> (0, 0));
          (cnt, len, d) = print_dset_count (init_branch_iterator d) cnt len
      in if cnt = 0 then (None, d)
      else (let len = len + length CONTACT + length CRLF + (cnt - 1) * length CONTACT_DELIM in
        if len + 1 > MAX_REDIRECTION_LEN then (None, d)
        else (let p = CONTACT;
                  (p, i) = (case new_uri m of
                      Some u \<Rightarrow>
                        (let p = (if ruri_q d \<noteq> Q_UNSPECIFIED then p @ ''<'' else p);
                             p = p @ u;
                             p = (if ruri_q d \<noteq> Q_UNSPECIFIED then p @ Q_PARAM @ q2str (ruri_q d)
                                  else p)
                         in (p, 1))
                    | None \<Rightarrow> (p, 0));
                  (p, d) = print_dset_write (init_branch_iterator d) i p
              in (Some (p @ CRLF @ '' '', len), d))))"

definition set_ruri_q :: "int \<Rightarrow> dset \<Rightarrow> dset" where
  "set_ruri_q q d = d\<lparr>ruri_q := q\<rparr>"

definition get_ruri_q :: "dset \<Rightarrow> int" where
  "get_ruri_q d = ruri_q d"

text \<open>\<open>mem_ok\<close> is whether \<^verbatim>\<open>pkg_malloc\<close> returned a buffer.\<close>

definition rewrite_uri :: "bool \<Rightarrow> msg_uri \<Rightarrow> string \<Rightarrow> int \<times> msg_uri" where
  "rewrite_uri mem_ok m s =
     (if \<not> mem_ok then (-1, m)
      else (1, m\<lparr>parsed_uri_ok := False, new_uri := Some s\<rparr>))"

section \<open>Specification\<close>

text \<open>The contacts of the set with their q values, in order, and the header field they give.\<close>

definition contacts :: "msg_uri \<Rightarrow> dset \<Rightarrow> (string \<times> int) list" where
  "contacts m d = (case new_uri m of Some u \<Rightarrow> [(u, ruri_q d)] | None \<Rightarrow> []) @
     map (\<lambda>b. (uri b, bq b)) (branches d)"

definition print_contact :: "string \<times> int \<Rightarrow> string" where
  "print_contact c = (case c of (u, q) \<Rightarrow>
     if q = Q_UNSPECIFIED then u else ''<'' @ u @ Q_PARAM @ q2str q)"

fun join_contacts :: "(string \<times> int) list \<Rightarrow> string" where
  "join_contacts [] = []"
| "join_contacts [c] = print_contact c"
| "join_contacts (c # cs) = print_contact c @ CONTACT_DELIM @ join_contacts cs"

definition contact_header :: "msg_uri \<Rightarrow> dset \<Rightarrow> string" where
  "contact_header m d = CONTACT @ join_contacts (contacts m d) @ CRLF"

text \<open>What the array and the iterator keep.\<close>

definition dset_inv :: "dset \<Rightarrow> bool" where
  "dset_inv d \<longleftrightarrow> nr_branches d \<le> MAX_BRANCHES - 1 \<and>
     (\<forall>b\<in>set (branches d). length (uri b) < MAX_URI_SIZE \<and> length (dst_uri b) < MAX_URI_SIZE)"

text \<open>Calling \<^verbatim>\<open>next_branch\<close> until it returns a null pointer, as its callers do.\<close>

function drain_branches :: "dset \<Rightarrow> branch list" where
  "drain_branches d =
     (case next_branch d of (None, _) \<Rightarrow> [] | (Some b, d') \<Rightarrow> b # drain_branches d')"
  by pat_completeness auto
termination
  by (relation "measure (\<lambda>d. nr_branches d - branch_iterator d)")
    (auto simp: next_branch_def nr_branches_def Let_def split: if_splits)

section \<open>Lemmas\<close>

declare print_dset_count.simps [simp del] print_dset_write.simps [simp del]
  drain_branches.simps [simp del]

lemma next_branch_end:
  "branch_iterator d \<ge> length (branches d) \<Longrightarrow> next_branch d = (None, d)"
  by (simp add: next_branch_def nr_branches_def)

lemma next_branch_Cons:
  assumes "drop (branch_iterator d) (branches d) = b # bs"
  shows "next_branch d = (Some b, d\<lparr>branch_iterator := branch_iterator d + 1\<rparr>) \<and>
    drop (branch_iterator d + 1) (branches d) = bs"
proof -
  have "branch_iterator d < length (branches d)"
    using assms by (metis drop_all leI list.distinct(1))
  then show ?thesis
    using assms Cons_nth_drop_Suc [of "branch_iterator d" "branches d"]
    by (simp add: next_branch_def nr_branches_def)
qed

abbreviation at_end :: "dset \<Rightarrow> dset" where
  "at_end d \<equiv> d\<lparr>branch_iterator := max (branch_iterator d) (nr_branches d)\<rparr>"

lemma drop_nil_end: "drop (branch_iterator d) (branches d) = [] \<Longrightarrow> at_end d = d"
  by (simp add: nr_branches_def max_def)

lemma drop_Cons_end:
  assumes "drop (branch_iterator d) (branches d) = b # bs"
  shows "at_end (d\<lparr>branch_iterator := branch_iterator d + 1\<rparr>) = at_end d"
proof -
  have "branch_iterator d < length (branches d)"
    using assms by (metis drop_all leI list.distinct(1))
  then show ?thesis by (simp add: nr_branches_def max_def)
qed

lemma print_dset_count_eq:
  "drop (branch_iterator d) (branches d) = bs \<Longrightarrow>
   print_dset_count d cnt len = (cnt + length bs,
     len + sum_list (map (\<lambda>b. length (print_contact (uri b, bq b))) bs), at_end d)"
proof (induction bs arbitrary: d cnt len)
  case Nil
  then show ?case
    using drop_nil_end [OF Nil]
    by (subst print_dset_count.simps) (simp add: next_branch_end)
next
  case (Cons b bs)
  from next_branch_Cons [OF Cons.prems] have
    n: "next_branch d = (Some b, d\<lparr>branch_iterator := branch_iterator d + 1\<rparr>)"
    and r: "drop (branch_iterator d + 1) (branches d) = bs" by auto
  have "drop (branch_iterator (d\<lparr>branch_iterator := branch_iterator d + 1\<rparr>))
      (branches (d\<lparr>branch_iterator := branch_iterator d + 1\<rparr>)) = bs" using r by simp
  from Cons.IH [OF this] show ?case
    using drop_Cons_end [OF Cons.prems]
    by (subst print_dset_count.simps)
      (simp add: n print_contact_def len_q_q2str del: dset.simps)
qed

lemma print_dset_write_eq:
  "drop (branch_iterator d) (branches d) = bs \<Longrightarrow>
   print_dset_write d i p = (p @ concat (map (\<lambda>(j, b).
     (if 0 < j then CONTACT_DELIM else []) @ print_contact (uri b, bq b)) (enumerate i bs)), at_end d)"
proof (induction bs arbitrary: d i p)
  case Nil
  then show ?case
    using drop_nil_end [OF Nil]
    by (subst print_dset_write.simps) (simp add: next_branch_end)
next
  case (Cons b bs)
  from next_branch_Cons [OF Cons.prems] have
    n: "next_branch d = (Some b, d\<lparr>branch_iterator := branch_iterator d + 1\<rparr>)"
    and r: "drop (branch_iterator d + 1) (branches d) = bs" by auto
  have "drop (branch_iterator (d\<lparr>branch_iterator := branch_iterator d + 1\<rparr>))
      (branches (d\<lparr>branch_iterator := branch_iterator d + 1\<rparr>)) = bs" using r by simp
  from Cons.IH [OF this] show ?case
    using drop_Cons_end [OF Cons.prems]
    by (subst print_dset_write.simps)
      (simp add: n print_contact_def Let_def del: dset.simps)
qed

lemma drain_branches_eq:
  "drop (branch_iterator d) (branches d) = bs \<Longrightarrow> drain_branches d = bs"
proof (induction bs arbitrary: d)
  case Nil
  then show ?case by (subst drain_branches.simps) (simp add: next_branch_end)
next
  case (Cons b bs)
  from next_branch_Cons [OF Cons.prems] Cons.IH show ?case
    by (subst drain_branches.simps) simp
qed

lemma join_contacts_Cons:
  "join_contacts (c # cs) = print_contact c @
     concat (map (\<lambda>c. CONTACT_DELIM @ print_contact c) cs)"
  by (induction cs arbitrary: c) simp_all

lemma concat_enumerate_Suc:
  "concat (map (\<lambda>(j, b). (if 0 < j then D else []) @ f b) (enumerate (Suc i) bs)) =
   concat (map (\<lambda>b. D @ f b) bs)"
  by (induction bs arbitrary: i) simp_all

lemma length_join_contacts:
  "cs \<noteq> [] \<Longrightarrow> length (join_contacts cs) =
     sum_list (map (length \<circ> print_contact) cs) + (length cs - 1) * length CONTACT_DELIM"
  by (induction cs rule: join_contacts.induct) simp_all

lemma print_contact_length:
  "length (print_contact (u, q)) =
     length u + (if q \<noteq> Q_UNSPECIFIED then 1 + length Q_PARAM + len_q q else 0)"
  by (simp add: print_contact_def len_q_q2str)

lemma print_dset_parts:
  "print_dset_count (init_branch_iterator d) cnt len = (cnt + nr_branches d,
     len + sum_list (map (\<lambda>b. length (print_contact (uri b, bq b))) (branches d)),
     d\<lparr>branch_iterator := nr_branches d\<rparr>)"
  "print_dset_write (init_branch_iterator d) (Suc i) p = (p @ concat (map (\<lambda>b.
     CONTACT_DELIM @ print_contact (uri b, bq b)) (branches d)), d\<lparr>branch_iterator := nr_branches d\<rparr>)"
  "print_dset_write (init_branch_iterator d) 0 p =
     (p @ join_contacts (map (\<lambda>b. (uri b, bq b)) (branches d)), d\<lparr>branch_iterator := nr_branches d\<rparr>)"
proof -
  have r: "drop (branch_iterator (init_branch_iterator d)) (branches (init_branch_iterator d)) = branches d"
    by (simp add: init_branch_iterator_def)
  show "print_dset_count (init_branch_iterator d) cnt len = (cnt + nr_branches d,
     len + sum_list (map (\<lambda>b. length (print_contact (uri b, bq b))) (branches d)),
     d\<lparr>branch_iterator := nr_branches d\<rparr>)"
    by (subst print_dset_count_eq [OF r]) (simp add: init_branch_iterator_def nr_branches_def)
  show "print_dset_write (init_branch_iterator d) (Suc i) p = (p @ concat (map (\<lambda>b.
     CONTACT_DELIM @ print_contact (uri b, bq b)) (branches d)), d\<lparr>branch_iterator := nr_branches d\<rparr>)"
    by (subst print_dset_write_eq [OF r], subst concat_enumerate_Suc)
      (simp add: init_branch_iterator_def nr_branches_def)
  show "print_dset_write (init_branch_iterator d) 0 p =
     (p @ join_contacts (map (\<lambda>b. (uri b, bq b)) (branches d)), d\<lparr>branch_iterator := nr_branches d\<rparr>)"
    by (subst print_dset_write_eq [OF r], cases "branches d")
      (simp_all add: init_branch_iterator_def nr_branches_def join_contacts_Cons
        concat_enumerate_Suc o_def del: join_contacts.simps(2-3))
qed

lemma contact_header_length:
  "contacts m d \<noteq> [] \<Longrightarrow> length (contact_header m d) =
     sum_list (map (length \<circ> print_contact) (contacts m d)) + length CONTACT + length CRLF +
     (length (contacts m d) - 1) * length CONTACT_DELIM"
  by (simp add: contact_header_def length_join_contacts)

section \<open>Properties\<close>

text \<open>C33: \<^verbatim>\<open>print_dset\<close> writes the Contact header field of the whole set, the rewritten
  Request-URI first, each contact with a q value in angle brackets followed by it, and reports its
  length; the length computed in the first pass is what the second pass writes, with one blank
  more, so the 512 character buffer is never exceeded.  It returns a null pointer exactly when the
  set is empty or the header does not fit, and leaves the iterator at the end.\<close>

theorem print_dset_spec:
  "print_dset m d =
     (if contacts m d = [] \<or> length (contact_header m d) + 1 > 512 then None
      else Some (contact_header m d @ '' '', length (contact_header m d)),
      d\<lparr>branch_iterator := nr_branches d\<rparr>)"
proof (cases "new_uri m")
  case None
  then show ?thesis
    using contact_header_length [of m d]
    by (cases "branches d = []")
      (simp_all add: print_dset_def print_dset_parts contacts_def nr_branches_def contact_header_def
        MAX_REDIRECTION_LEN_def o_def)
next
  case (Some u)
  have w: "print_dset_write (init_branch_iterator d') (Suc 0) p = (p @ concat (map (\<lambda>b.
     CONTACT_DELIM @ print_contact (uri b, bq b)) (branches d')),
     d'\<lparr>branch_iterator := nr_branches d'\<rparr>)" for d' p
    by (rule print_dset_parts)
  show ?thesis
    using Some contact_header_length [of m d]
    by (simp add: print_dset_def print_dset_parts(1) w contacts_def nr_branches_def
        contact_header_def MAX_REDIRECTION_LEN_def join_contacts_Cons print_contact_length o_def
        del: join_contacts.simps(2-3))
      (simp add: print_contact_def)
qed

text \<open>C34: \<^verbatim>\<open>append_branch\<close> with a URI argument never writes outside the array: it refuses a
  full set (setting \<^verbatim>\<open>ser_error\<close>) or an oversized URI, leaving the branches alone, and otherwise
  adds the branch at the end; the bounds of the array are kept, and an iteration from the start
  returns the old branches followed by the new one.\<close>

theorem append_branch_spec:
  assumes "dset_inv d"
  shows "\<exists>r d'. append_branch m (Some u) dst q sock d = Some (r, d') \<and> dset_inv d' \<and>
    (if nr_branches d < 11 \<and> length u \<le> 1023 \<and> length (case dst of None \<Rightarrow> [] | Some s \<Rightarrow> s) \<le> 1023
     then r = 1 \<and> drain_branches (init_branch_iterator d') = drain_branches (init_branch_iterator d) @
       [\<lparr>uri = u, dst_uri = (case dst of None \<Rightarrow> [] | Some s \<Rightarrow> s), bq = q, force_send_socket = sock\<rparr>]
     else r = -1 \<and> branches d' = branches d \<and>
       ser_error d' = (if nr_branches d = 11 then -12 else ser_error d))"
proof -
  have drain: "drain_branches (init_branch_iterator d) = branches d" for d
    by (rule drain_branches_eq) (simp add: init_branch_iterator_def)
  show ?thesis
    using assms
    by (auto simp: drain append_branch_def dset_inv_def nr_branches_def MAX_BRANCHES_def
        MAX_URI_SIZE_def E_TOO_MANY_BRANCHES_def Let_def split: option.splits)
qed

theorem append_branch_spec_witness:
  "let d = \<lparr>branches = [], branch_iterator = 0, ruri_q = -1, ser_error = 0\<rparr>;
       m = \<lparr>new_uri = None, first_line_uri = ''sip:a'', parsed_uri_ok = True\<rparr> in
   dset_inv d \<and> (\<exists>d'. append_branch m (Some ''sip:b'') None 500 0 d = Some (1, d') \<and>
     dset_inv d' \<and> map uri (drain_branches (init_branch_iterator d')) = [''sip:b''])"
proof -
  let ?d = "\<lparr>branches = [], branch_iterator = 0, ruri_q = -1, ser_error = 0\<rparr>"
  let ?m = "\<lparr>new_uri = None, first_line_uri = ''sip:a'', parsed_uri_ok = True\<rparr>"
  have i: "dset_inv ?d" by (simp add: dset_inv_def nr_branches_def)
  have "drain_branches (init_branch_iterator ?d) = []"
    by (rule drain_branches_eq) (simp add: init_branch_iterator_def)
  then show ?thesis
    using i append_branch_spec [OF i, of ?m "''sip:b''" None 500 0] by (auto simp: nr_branches_def)
qed

text \<open>With a null URI argument \<^verbatim>\<open>append_branch\<close> checks the length of the argument and not of
  the Request-URI it then copies: the copy runs past the branch's buffer exactly when the set is
  not full and the message's URI has \<^verbatim>\<open>MAX_URI_SIZE\<close> characters or more.\<close>

theorem append_branch_overrun:
  "append_branch m None None q sock d = None \<longleftrightarrow>
     nr_branches d \<noteq> 11 \<and> length (get_request_uri m) \<ge> 1024"
  by (auto simp: append_branch_def get_request_uri_def MAX_BRANCHES_def MAX_URI_SIZE_def Let_def
      split: option.splits)

end
