(* ===== verification/Clist.thy ===== *)
theory Clist
  imports SerPrelude
begin

text \<open>
  The circular doubly linked lists of \<^verbatim>\<open>src/sip_router/clist.h\<close>.  The heap holds the \<^verbatim>\<open>next\<close> and
  \<^verbatim>\<open>prev\<close> fields; each macro is the sequence of assignments of its body.  The predicate
  \<open>clist_ok h head xs\<close> says that the list with the head \<open>head\<close> holds the nodes \<open>xs\<close>; the macros are
  proved to be append, insert, remove and concatenation on \<open>xs\<close>.  The locale \<open>list_heap\<close> is the
  contract the timers rely on.
\<close>

section \<open>Definitions\<close>

record link_heap =
  nxt :: "addr \<Rightarrow> addr"
  prv :: "addr \<Rightarrow> addr"

definition clist_init :: "addr \<Rightarrow> link_heap \<Rightarrow> link_heap" where
  "clist_init c h =
     (let h = h\<lparr>nxt := (nxt h)(c := c)\<rparr> in h\<lparr>prv := (prv h)(c := c)\<rparr>)"

definition clist_insert_sublist :: "addr \<Rightarrow> addr \<Rightarrow> addr \<Rightarrow> link_heap \<Rightarrow> link_heap" where
  "clist_insert_sublist head s e h =
     (let h = h\<lparr>prv := (prv h)(s := head)\<rparr>;
          h = h\<lparr>nxt := (nxt h)(e := nxt h head)\<rparr>;
          h = h\<lparr>prv := (prv h)(nxt h e := e)\<rparr>
      in h\<lparr>nxt := (nxt h)(head := s)\<rparr>)"

definition clist_append_sublist :: "addr \<Rightarrow> addr \<Rightarrow> addr \<Rightarrow> link_heap \<Rightarrow> link_heap" where
  "clist_append_sublist head s e h =
     (let h = h\<lparr>prv := (prv h)(s := prv h head)\<rparr>;
          h = h\<lparr>nxt := (nxt h)(e := head)\<rparr>;
          h = h\<lparr>nxt := (nxt h)(prv h s := s)\<rparr>
      in h\<lparr>prv := (prv h)(head := e)\<rparr>)"

definition clist_rm_sublist :: "addr \<Rightarrow> addr \<Rightarrow> link_heap \<Rightarrow> link_heap" where
  "clist_rm_sublist s e h =
     (let h = h\<lparr>nxt := (nxt h)(prv h s := nxt h e)\<rparr>
      in h\<lparr>prv := (prv h)(nxt h e := prv h s)\<rparr>)"

definition clist_insert :: "addr \<Rightarrow> addr \<Rightarrow> link_heap \<Rightarrow> link_heap" where
  "clist_insert head c h = clist_insert_sublist head c c h"

definition clist_append :: "addr \<Rightarrow> addr \<Rightarrow> link_heap \<Rightarrow> link_heap" where
  "clist_append head c h = clist_append_sublist head c c h"

definition clist_rm :: "addr \<Rightarrow> link_heap \<Rightarrow> link_heap" where
  "clist_rm c h = clist_rm_sublist c c h"

text \<open>
  The nodes \<^verbatim>\<open>clist_foreach\<close> visits, at most \<open>n\<close> of them (a corrupt list is traversed for
  ever).
\<close>

fun clist_foreach_from :: "nat \<Rightarrow> addr \<Rightarrow> addr \<Rightarrow> link_heap \<Rightarrow> addr list option" where
  "clist_foreach_from 0 head v h = (if v = head then Some [] else None)"
| "clist_foreach_from (Suc n) head v h =
     (if v = head then Some []
      else map_option (\<lambda>vs. v # vs) (clist_foreach_from n head (nxt h v) h))"

definition clist_foreach :: "nat \<Rightarrow> addr \<Rightarrow> link_heap \<Rightarrow> addr list option" where
  "clist_foreach n head h = clist_foreach_from n head (nxt h head) h"

section \<open>Abstraction\<close>

fun path :: "(addr \<Rightarrow> addr) \<Rightarrow> addr \<Rightarrow> addr list \<Rightarrow> addr \<Rightarrow> bool" where
  "path f a [] b \<longleftrightarrow> f a = b"
| "path f a (x # xs) b \<longleftrightarrow> f a = x \<and> path f x xs b"

definition clist_ok :: "link_heap \<Rightarrow> addr \<Rightarrow> addr list \<Rightarrow> bool" where
  "clist_ok h head xs \<longleftrightarrow> distinct (head # xs) \<and> path (nxt h) head xs head \<and> path (prv h) head (rev xs) head"

section \<open>Lemmas\<close>

lemma path_append: "path f a (xs @ y # ys) b \<longleftrightarrow> path f a xs y \<and> path f y ys b"
  by (induction xs arbitrary: a) auto

lemma path_frame [simp]: "c \<noteq> a \<Longrightarrow> c \<notin> set xs \<Longrightarrow> path (f(c := v)) a xs b = path f a xs b"
  by (induction xs arbitrary: a) auto

lemma path_last: "path f a xs b \<Longrightarrow> f (last (a # xs)) = b"
  by (induction xs arbitrary: a) auto

text \<open>Redirecting the last node of a path.\<close>

lemma path_relink:
  "path f a xs b \<Longrightarrow> distinct (a # xs) \<Longrightarrow> path (f(last (a # xs) := c)) a xs c"
proof (induction xs arbitrary: a)
  case (Cons x xs)
  then have "last (x # xs) \<noteq> a" by (metis distinct.simps(2) last_in_set list.distinct(1))
  moreover have "path (f(last (x # xs) := c)) x xs c"
    using Cons.prems by (intro Cons.IH) simp_all
  moreover have "last (a # x # xs) = last (x # xs)" by simp
  ultimately show ?case using Cons.prems by (metis fun_upd_other path.simps(2))
qed simp

lemma clist_ok_last: "clist_ok h head xs \<Longrightarrow> prv h head = last (head # xs)"
  by (cases xs rule: rev_cases) (auto simp: clist_ok_def)

lemma clist_ok_first: "clist_ok h head xs \<Longrightarrow> nxt h head = (case xs of [] \<Rightarrow> head | x # _ \<Rightarrow> x)"
  by (auto simp: clist_ok_def split: list.splits)

lemma clist_init_ok: "clist_ok (clist_init c h) c []"
  by (simp add: clist_init_def clist_ok_def)

lemma clist_init_frame:
  "clist_ok h head xs \<Longrightarrow> c \<notin> set (head # xs) \<Longrightarrow> clist_ok (clist_init c h) head xs"
  by (simp add: clist_init_def clist_ok_def)

text \<open>Splicing a path after the last node of a circular one, and after its head.\<close>

lemma path_splice_end:
  assumes "path f head xs head" "path f s ys b" "distinct (head # xs @ s # ys)"
  shows "path (f(last (s # ys) := head, last (head # xs) := s)) head (xs @ s # ys) head"
proof -
  let ?p = "last (head # xs)" and ?e = "last (s # ys)"
  have pe: "?p \<in> set (head # xs)" "?e \<in> set (s # ys)" using last_in_set by blast+
  have pe': "?p \<notin> set (s # ys)" "?e \<notin> set (head # xs)" using assms(3) pe by auto
  have "path (f(?p := s, ?e := head)) head xs s"
    using path_relink [OF assms(1)] assms(3) pe' by (subst path_frame) auto
  moreover have "path (f(?e := head, ?p := s)) s ys head"
    using path_relink [OF assms(2)] assms(3) pe' by (subst path_frame) auto
  moreover have "f(?p := s, ?e := head) = f(?e := head, ?p := s)"
    using pe pe' by (intro fun_upd_twist) metis
  ultimately show ?thesis by (simp only: path_append)
qed

lemma path_splice_start:
  assumes "path f head zs head" "path f e ws b" "distinct (head # e # ws @ zs)"
  shows "path (f(last (e # ws) := f head, head := e)) head (e # ws @ zs) head"
proof -
  let ?s = "last (e # ws)"
  have s: "?s \<in> set (e # ws)" by (rule last_in_set) simp
  have 1: "path (f(?s := f head, head := e)) e ws (f head)"
    using path_relink [OF assms(2), of "f head"] assms(3) by (subst path_frame) auto
  show ?thesis
  proof (cases zs)
    case Nil
    then show ?thesis using 1 assms(1) by simp
  next
    case (Cons x zs')
    have "path (f(?s := f head, head := e)) x zs' head"
      using assms s Cons by (subst path_frame, fastforce, fastforce)+ auto
    then show ?thesis using 1 assms(1) Cons by (simp add: path_append)
  qed
qed

text \<open>A chain of nodes linked in both directions, as it is cut out of a list.\<close>

definition chain :: "link_heap \<Rightarrow> addr list \<Rightarrow> bool" where
  "chain h zs \<longleftrightarrow> zs \<noteq> [] \<and> distinct zs \<and>
     (\<exists>b. path (nxt h) (hd zs) (tl zs) b) \<and> (\<exists>c. path (prv h) (last zs) (tl (rev zs)) c)"

lemma chain_single [simp]: "chain h [c]"
  by (simp add: chain_def)

lemma clist_ok_chain: "clist_ok h head ys \<Longrightarrow> ys \<noteq> [] \<Longrightarrow> chain h ys"
proof -
  assume l: "clist_ok h head ys" and n: "ys \<noteq> []"
  obtain y ys' where y: "ys = y # ys'" using n by (cases ys) auto
  obtain z zs where z: "ys = zs @ [z]" using n by (cases ys rule: rev_cases) auto
  have "path (nxt h) y ys' head" using l y by (simp add: clist_ok_def)
  moreover have "path (prv h) z (rev zs) head" using l z by (simp add: clist_ok_def)
  ultimately have "\<exists>b. path (nxt h) (hd ys) (tl ys) b" "\<exists>c. path (prv h) (last ys) (tl (rev ys)) c"
    using y z by (metis list.sel(1,3), metis last_snoc rev_eq_Cons_iff rev_rev_ident list.sel(3))
  then show ?thesis using l n by (simp add: chain_def clist_ok_def)
qed

lemma clist_append_sublist_ok:
  assumes l: "clist_ok h head xs" and c: "chain h ys" and d: "set ys \<inter> set (head # xs) = {}"
  shows "clist_ok (clist_append_sublist head (hd ys) (last ys) h) head (xs @ ys)"
proof -
  obtain s ys' where ys: "ys = s # ys'" using c by (cases ys) (auto simp: chain_def)
  obtain e ws where ws: "rev ys = e # ws" using ys by (cases "rev ys") auto
  have e: "last ys = e" "last (e # ws) = s" using ws ys by (metis last_rev list.sel(1) rev_rev_ident last.simps hd_rev list.distinct(1))+
  obtain b c' where b: "path (nxt h) s ys' b" and c': "path (prv h) e ws c'"
    using c e ws ys unfolding chain_def by auto
  have "set (e # ws) = set ys" "distinct (e # ws)" using ws c by (metis set_rev, metis chain_def distinct_rev)
  then have dd: "distinct (head # xs @ s # ys')" "distinct (head # e # ws @ rev xs)"
    using l c d ys by (auto simp: clist_ok_def chain_def)
  have h': "clist_append_sublist head s e h =
      h\<lparr>nxt := (nxt h)(last (s # ys') := head, last (head # xs) := s),
        prv := (prv h)(last (e # ws) := prv h head, head := e)\<rparr>"
    using dd clist_ok_last [OF l] e ys by (simp add: clist_append_sublist_def Let_def)
  have n: "path ((nxt h)(last (s # ys') := head, last (head # xs) := s)) head (xs @ s # ys') head"
    using l b dd by (intro path_splice_end) (auto simp: clist_ok_def)
  have p: "path ((prv h)(last (e # ws) := prv h head, head := e)) head (e # ws @ rev xs) head"
    using l c' dd by (intro path_splice_start) (auto simp: clist_ok_def)
  have r: "rev (xs @ ys) = e # ws @ rev xs" using ws by simp
  show ?thesis
    unfolding clist_ok_def r using n p dd e ys by (simp add: h')
qed

lemma clist_append_sublist_frame:
  assumes "clist_ok h hd2 zs" "clist_ok h head xs"
    "set (hd2 # zs) \<inter> set (head # xs) = {}" "s \<notin> set (hd2 # zs)" "e \<notin> set (hd2 # zs)"
  shows "clist_ok (clist_append_sublist head s e h) hd2 zs"
proof -
  have "prv h head \<in> set (head # xs)" using clist_ok_last [OF assms(2)] by (metis last_in_set list.distinct(1))
  then have "prv h head \<notin> set (hd2 # zs)" using assms(3) by auto
  then show ?thesis
    using assms by (auto simp: clist_append_sublist_def clist_ok_def Let_def)
qed

text \<open>Insertion is appending with the two directions exchanged.\<close>

definition swap :: "link_heap \<Rightarrow> link_heap" where
  "swap h = \<lparr>nxt = prv h, prv = nxt h\<rparr>"

lemma swap_simps [simp]: "nxt (swap h) = prv h" "prv (swap h) = nxt h" "swap (swap h) = h"
  by (simp_all add: swap_def)

lemma clist_ok_swap: "clist_ok (swap h) head xs \<longleftrightarrow> clist_ok h head (rev xs)"
  by (auto simp: clist_ok_def)

lemma clist_insert_sublist_swap:
  assumes "e \<noteq> head"
  shows "clist_insert_sublist head s e h = swap (clist_append_sublist head e s (swap h))"
  using assms by (simp add: clist_insert_sublist_def clist_append_sublist_def swap_def Let_def)

lemma clist_insert_ok:
  assumes l: "clist_ok h head xs" and c: "c \<notin> set (head # xs)"
  shows "clist_ok (clist_insert head c h) head (c # xs)"
proof -
  have "clist_ok (clist_append_sublist head (hd [c]) (last [c]) (swap h)) head (rev xs @ [c])"
    by (rule clist_append_sublist_ok) (use l c in \<open>simp_all add: clist_ok_swap\<close>)
  then show ?thesis
    using c by (simp add: clist_insert_def clist_insert_sublist_swap clist_ok_swap)
qed

lemma clist_append_ok:
  assumes "clist_ok h head xs" "c \<notin> set (head # xs)"
  shows "clist_ok (clist_append head c h) head (xs @ [c])"
  using clist_append_sublist_ok [OF assms(1) chain_single [of h c]] assms(2)
  by (simp add: clist_append_def)

text \<open>Removing a chain from the middle of a list.\<close>

lemma path_cut:
  assumes "path f a (xs @ ys @ zs) b" "distinct (a # xs @ ys @ zs)" "ys \<noteq> []"
  shows "path (f(last (a # xs) := f (last ys))) a (xs @ zs) b"
proof -
  obtain ws y where y: "ys = ws @ [y]" using assms(3) by (cases ys rule: rev_cases) auto
  obtain s where p: "path f a xs s" using assms(1) y by (cases ws) (auto simp: path_append)
  have q: "path f y zs b" using assms(1) y path_append [of f a "xs @ ws" y zs b] by simp
  have r: "path (f(last (a # xs) := f y)) a xs (f y)"
    using p assms(2) by (intro path_relink [of f a xs s]) auto
  have ly: "last ys = y" using y by simp
  show ?thesis
  proof (cases zs)
    case Nil
    then show ?thesis using r q ly by simp
  next
    case (Cons z zs')
    have "last (a # xs) \<in> set (a # xs)" by (rule last_in_set) simp
    then have "last (a # xs) \<notin> set (z # zs')" using assms(2) Cons by auto
    then have "path (f(last (a # xs) := f y)) z zs' b" using q Cons by (subst path_frame) auto
    then show ?thesis using r q ly Cons by (simp add: path_append)
  qed
qed

lemma clist_rm_sublist_ok:
  assumes l: "clist_ok h head (xs @ ys @ zs)" and y: "ys \<noteq> []"
  shows "clist_ok (clist_rm_sublist (hd ys) (last ys) h) head (xs @ zs)"
proof -
  let ?ph = "last (head # xs)" and ?nh = "last (head # rev zs)"
  obtain s ys' where s: "ys = s # ys'" using y by (cases ys) auto
  obtain e ws where e: "ys = ws @ [e]" using y by (cases ys rule: rev_cases) auto
  have n: "path (nxt h) head (xs @ ys @ zs) head" and p: "path (prv h) head (rev zs @ rev ys @ rev xs) head"
    and d: "distinct (head # xs @ ys @ zs)" using l by (auto simp: clist_ok_def)
  have d': "distinct (head # rev zs @ rev ys @ rev xs)" using d by auto
  have "nxt h e = hd (zs @ [head])" using n e path_append [of "nxt h" head "xs @ ws" e zs head] by (cases zs) auto
  then have ne: "nxt h e = ?nh" by (cases zs) (auto simp: last_rev)
  have ps: "prv h s = ?ph" using p s path_append [of "prv h" head "rev zs @ rev ys'" s "rev xs" head]
    by (cases xs rule: rev_cases) auto
  have nn: "path ((nxt h)(?ph := nxt h e)) head (xs @ zs) head"
    using path_cut [OF n d y] e by simp
  have pp: "path ((prv h)(?nh := prv h s)) head (rev zs @ rev xs) head"
    using path_cut [OF p d'] y s by simp
  have "?ph \<noteq> e"
    using d e by (metis last_in_set distinct.simps(2) distinct_append disjoint_iff in_set_conv_decomp
        list.distinct(1) set_ConsD Un_iff set_append append_Cons)
  then have h': "clist_rm_sublist s e h =
      h\<lparr>nxt := (nxt h)(?ph := nxt h e), prv := (prv h)(?nh := prv h s)\<rparr>"
    using ne ps by (simp add: clist_rm_sublist_def Let_def)
  have "hd ys = s" using s by simp
  moreover have "last ys = e" unfolding e by simp
  moreover have "distinct (head # xs @ zs)" using d by auto
  ultimately show ?thesis
    using nn pp by (simp only: clist_ok_def rev_append simp_thms h')
      (simp del: last.simps fun_upd_apply)
qed

lemma clist_rm_ok:
  "clist_ok h head (xs @ c # zs) \<Longrightarrow> clist_ok (clist_rm c h) head (xs @ zs)"
  using clist_rm_sublist_ok [of h head xs "[c]" zs] by (simp add: clist_rm_def)

lemma clist_rm_frame:
  assumes l: "clist_ok h head (xs @ c # zs)" and o: "clist_ok h hd2 ys"
    and d: "set (hd2 # ys) \<inter> set (head # xs @ c # zs) = {}"
  shows "clist_ok (clist_rm c h) hd2 ys"
proof -
  have "prv h c \<in> set (head # xs)" using l
    by (cases xs rule: rev_cases) (auto simp: clist_ok_def path_append)
  moreover have "nxt h c \<in> set (head # zs)" using l
    by (cases zs) (auto simp: clist_ok_def path_append)
  ultimately have "prv h c \<notin> set (hd2 # ys)" "nxt h c \<notin> set (hd2 # ys)" "c \<notin> set (hd2 # ys)"
    using d by auto
  then show ?thesis
    using o by (auto simp: clist_rm_def clist_rm_sublist_def clist_ok_def Let_def)
qed

lemma clist_append_frame:
  assumes "clist_ok h hd2 zs" "clist_ok h head xs" "set (hd2 # zs) \<inter> set (head # xs) = {}"
    "c \<notin> set (hd2 # zs)"
  shows "clist_ok (clist_append head c h) hd2 zs"
  unfolding clist_append_def by (rule clist_append_sublist_frame) (use assms in auto)

lemma clist_foreach_ok:
  assumes "clist_ok h head xs" "length xs \<le> n"
  shows "clist_foreach n head h = Some xs"
proof -
  have "path (nxt h) a xs head \<Longrightarrow> head \<notin> set xs \<Longrightarrow> length xs \<le> n \<Longrightarrow>
      clist_foreach_from n head (nxt h a) h = Some xs" for a n xs
  proof (induction xs arbitrary: a n)
    case Nil
    then show ?case by (cases n) auto
  next
    case (Cons x xs)
    then obtain m where "n = Suc m" by (cases n) auto
    then show ?case using Cons.prems Cons.IH [of x m] by auto
  qed
  then show ?thesis using assms by (auto simp: clist_foreach_def clist_ok_def)
qed

section \<open>The contract of a heap of lists\<close>

text \<open>
  What the clients of the list macros rely on: the list operations act on the abstract list of one
  head and leave disjoint lists alone.
\<close>

locale list_heap =
  fixes ok :: "'h \<Rightarrow> addr \<Rightarrow> addr list \<Rightarrow> bool"
    and init :: "addr \<Rightarrow> 'h \<Rightarrow> 'h"
    and app :: "addr \<Rightarrow> addr \<Rightarrow> 'h \<Rightarrow> 'h"
    and rm :: "addr \<Rightarrow> 'h \<Rightarrow> 'h"
  assumes ok_distinct: "ok h hd1 xs \<Longrightarrow> distinct (hd1 # xs)"
    and init_ok: "ok (init c h) c []"
    and app_ok: "ok h hd1 xs \<Longrightarrow> c \<notin> set (hd1 # xs) \<Longrightarrow> ok (app hd1 c h) hd1 (xs @ [c])"
    and app_frame: "ok h hd2 zs \<Longrightarrow> ok h hd1 xs \<Longrightarrow> set (hd2 # zs) \<inter> set (hd1 # xs) = {} \<Longrightarrow>
      c \<notin> set (hd2 # zs) \<Longrightarrow> ok (app hd1 c h) hd2 zs"
    and rm_ok: "ok h hd1 (xs @ c # zs) \<Longrightarrow> ok (rm c h) hd1 (xs @ zs)"
    and rm_frame: "ok h hd1 (xs @ c # zs) \<Longrightarrow> ok h hd2 ys \<Longrightarrow>
      set (hd2 # ys) \<inter> set (hd1 # xs @ c # zs) = {} \<Longrightarrow> ok (rm c h) hd2 ys"
begin

text \<open>Taking the nodes of one list in order and appending each to another.\<close>

fun move_all :: "addr \<Rightarrow> addr list \<Rightarrow> 'h \<Rightarrow> 'h" where
  "move_all dst [] h = h"
| "move_all dst (c # cs) h = move_all dst cs (app dst c (rm c h))"

lemma move_all_ok:
  assumes "ok h src cs" "ok h dst ds" "set (src # cs) \<inter> set (dst # ds) = {}"
  shows "ok (move_all dst cs h) src [] \<and> ok (move_all dst cs h) dst (ds @ cs)"
  using assms
proof (induction cs arbitrary: h ds)
  case Nil
  then show ?case by simp
next
  case (Cons c cs)
  let ?h1 = "rm c h"
  have d: "distinct (src # c # cs)" using ok_distinct [OF Cons.prems(1)] .
  have 1: "ok ?h1 src cs" using rm_ok [of h src "[]" c cs] Cons.prems(1) by simp
  have 2: "ok ?h1 dst ds"
    using rm_frame [of h src "[]" c cs dst ds] Cons.prems by auto
  have 3: "ok (app dst c ?h1) dst (ds @ [c])" using app_ok [OF 2] Cons.prems(3) by auto
  have 4: "ok (app dst c ?h1) src cs" using app_frame [OF 1 2] Cons.prems(3) d by auto
  have "set (src # cs) \<inter> set (dst # ds @ [c]) = {}" using Cons.prems(3) d by auto
  from Cons.IH [OF 4 3 this] show ?case by simp
qed

end

interpretation clist: list_heap clist_ok clist_init clist_append clist_rm
proof unfold_locales
  show "distinct (head # xs)" if "clist_ok h head xs" for h head xs
    using that by (simp add: clist_ok_def)
qed (fact clist_init_ok clist_append_ok clist_append_frame clist_rm_ok clist_rm_frame)+

section \<open>Properties\<close>

text \<open>C32: The list macros act on well formed circular lists as the operations on sequences they
  are meant to be: append adds at the end, insert at the start, remove takes out exactly that node,
  and appending a whole sublist that is then reinitialised concatenates the two lists; the
  traversal visits the nodes in order.\<close>

theorem clist_ops_refine:
  assumes l: "clist_ok h head (xs @ c # zs)" and o: "clist_ok h hd2 (y # ys)"
    and dj: "set (hd2 # y # ys) \<inter> set (head # xs @ c # zs) = {}"
    and new: "a \<notin> set (head # xs @ c # zs)"
  shows "clist_ok (clist_append head a h) head (xs @ c # zs @ [a]) \<and>
    clist_ok (clist_insert head a h) head (a # xs @ c # zs) \<and>
    clist_ok (clist_rm c h) head (xs @ zs) \<and>
    clist_ok (clist_init hd2 (clist_append_sublist head (nxt h hd2) (prv h hd2) h)) head
      (xs @ c # zs @ y # ys) \<and>
    clist_ok (clist_init hd2 (clist_append_sublist head (nxt h hd2) (prv h hd2) h)) hd2 [] \<and>
    clist_foreach (length (xs @ c # zs)) head h = Some (xs @ c # zs)"
proof -
  have ends: "nxt h hd2 = hd (y # ys)" "prv h hd2 = last (y # ys)"
    using clist_ok_first [OF o] clist_ok_last [OF o] by simp_all
  have "clist_ok (clist_append_sublist head (nxt h hd2) (prv h hd2) h) head ((xs @ c # zs) @ y # ys)"
    unfolding ends by (rule clist_append_sublist_ok [OF l clist_ok_chain [OF o]]) (use dj in auto)
  moreover have "hd2 \<notin> set (head # (xs @ c # zs) @ y # ys)"
    using dj o by (auto simp: clist_ok_def)
  ultimately show ?thesis
    using clist_append_ok [OF l new] clist_insert_ok [OF l new] clist_rm_ok [OF l]
      clist_foreach_ok [OF l order_refl] clist_init_ok
    by (auto dest: clist_init_frame)
qed

theorem clist_ops_refine_witness:
  "let h = clist_append 52 12 (clist_init 52 (clist_append 51 11 (clist_append 51 10
        (clist_init 51 \<lparr>nxt = (\<lambda>_. 0), prv = (\<lambda>_. 0)\<rparr>)))) in
   clist_ok h 51 [10, 11] \<and> clist_ok h 52 [12] \<and>
   clist_ok (clist_append 51 13 h) 51 [10, 11, 13] \<and> clist_ok (clist_rm 10 h) 51 [11] \<and>
   clist_foreach 2 51 h = Some [10, 11]"
proof -
  let ?h = "clist_append 52 12 (clist_init 52 (clist_append 51 11 (clist_append 51 10
        (clist_init 51 \<lparr>nxt = (\<lambda>_. 0), prv = (\<lambda>_. 0)\<rparr>))))"
  have a: "clist_ok ?h 51 [10, 11]" by code_simp
  have b: "clist_ok ?h 52 [12]" by code_simp
  show ?thesis
    using a b clist_ops_refine [of ?h 51 "[]" 10 "[11]" 52 12 "[]" 13] by (simp add: numeral_2_eq_2)
qed

end
