(* ===== verification/TimerWheel.thy ===== *)
theory TimerWheel
  imports SerPrelude
begin

text \<open>
  The hierarchical timing wheel, \<^verbatim>\<open>src/sip_router/timer_funcs.h\<close>: three arrays of lists indexed by
  parts of the 32 bit expiry tick, and the list of expired timers.  Timers are pointers; \<open>ex\<close> reads
  the \<^verbatim>\<open>expire\<close> field.  Ticks wrap at 32 bits as in the code.  The lists are the sequences their
  circular lists hold (theory \<open>Clist\<close>).
\<close>

section \<open>Definitions\<close>

definition H0_BITS :: nat where "H0_BITS = 14"
definition H1_BITS :: nat where "H1_BITS = 9"
definition H2_BITS :: nat where "H2_BITS = 32 - H1_BITS - H0_BITS"
definition H0_ENTRIES :: nat where "H0_ENTRIES = 2 ^ H0_BITS"
definition H1_ENTRIES :: nat where "H1_ENTRIES = 2 ^ H1_BITS"
definition H2_ENTRIES :: nat where "H2_ENTRIES = 2 ^ H2_BITS"
definition H0_MASK :: u32 where "H0_MASK = mask H0_BITS"
definition H1_H0_MASK :: u32 where "H1_H0_MASK = mask (H0_BITS + H1_BITS)"

record wheel =
  h0 :: "nat \<Rightarrow> addr list"
  h1 :: "nat \<Rightarrow> addr list"
  h2 :: "nat \<Rightarrow> addr list"
  expired :: "addr list"

text \<open>The head of one list of the structure.\<close>

datatype head = H0 nat | H1 nat | H2 nat | Expired

fun get_list :: "head \<Rightarrow> wheel \<Rightarrow> addr list" where
  "get_list (H0 i) w = h0 w i"
| "get_list (H1 i) w = h1 w i"
| "get_list (H2 i) w = h2 w i"
| "get_list Expired w = expired w"

fun set_list :: "head \<Rightarrow> addr list \<Rightarrow> wheel \<Rightarrow> wheel" where
  "set_list (H0 i) xs w = w\<lparr>h0 := (h0 w)(i := xs)\<rparr>"
| "set_list (H1 i) xs w = w\<lparr>h1 := (h1 w)(i := xs)\<rparr>"
| "set_list (H2 i) xs w = w\<lparr>h2 := (h2 w)(i := xs)\<rparr>"
| "set_list Expired xs w = w\<lparr>expired := xs\<rparr>"

definition timer_init_list :: "head \<Rightarrow> wheel \<Rightarrow> wheel" where
  "timer_init_list h w = set_list h [] w"

definition timer_add_list :: "head \<Rightarrow> addr \<Rightarrow> wheel \<Rightarrow> wheel" where
  "timer_add_list h x w = set_list h (get_list h w @ [x]) w"

definition timer_dist_tl :: "(addr \<Rightarrow> u32) \<Rightarrow> addr \<Rightarrow> u32 \<Rightarrow> wheel \<Rightarrow> wheel" where
  "timer_dist_tl ex x delta w =
     (if unat delta < H0_ENTRIES then
        if delta = 0 then timer_add_list Expired x w
        else timer_add_list (H0 (unat (ex x AND H0_MASK))) x w
      else if unat delta < H0_ENTRIES * H1_ENTRIES then
        timer_add_list (H1 (unat (drop_bit H0_BITS (ex x AND H1_H0_MASK)))) x w
      else timer_add_list (H2 (unat (drop_bit (H1_BITS + H0_BITS) (ex x)))) x w)"

definition timer_mv_expire :: "head \<Rightarrow> wheel \<Rightarrow> wheel" where
  "timer_mv_expire h w =
     (if get_list h w \<noteq> [] then
        timer_init_list h (w\<lparr>expired := expired w @ get_list h w\<rparr>)
      else w)"

text \<open>
  The safe traversal has read the successor of a node before the node is appended elsewhere, so it
  visits the nodes the list held at the start.
\<close>

definition timer_redist :: "(addr \<Rightarrow> u32) \<Rightarrow> u32 \<Rightarrow> head \<Rightarrow> wheel \<Rightarrow> wheel" where
  "timer_redist ex t h w =
     timer_init_list h (foldl (\<lambda>w x. timer_dist_tl ex x (ex x - t) w) w (get_list h w))"

definition timer_run :: "(addr \<Rightarrow> u32) \<Rightarrow> u32 \<Rightarrow> wheel \<Rightarrow> wheel" where
  "timer_run ex t w =
     (let w = (if t AND H0_MASK = 0 then
                 (let w = (if t AND H1_H0_MASK = 0 then
                             timer_redist ex t (H2 (unat (drop_bit (H0_BITS + H1_BITS) t))) w
                           else w)
                  in timer_redist ex t (H1 (unat (drop_bit H0_BITS (t AND H1_H0_MASK)))) w)
               else w)
      in timer_mv_expire (H0 (unat (t AND H0_MASK))) w)"

text \<open>Removing a timer from whichever list it is on.\<close>

definition timer_rm_list :: "addr \<Rightarrow> wheel \<Rightarrow> wheel" where
  "timer_rm_list x w = \<lparr>h0 = (\<lambda>i. removeAll x (h0 w i)), h1 = (\<lambda>i. removeAll x (h1 w i)),
     h2 = (\<lambda>i. removeAll x (h2 w i)), expired = removeAll x (expired w)\<rparr>"

definition empty_wheel :: wheel where
  "empty_wheel = \<lparr>h0 = (\<lambda>_. []), h1 = (\<lambda>_. []), h2 = (\<lambda>_. []), expired = []\<rparr>"

section \<open>Invariant\<close>

text \<open>
  A timer that expires at \<open>e\<close> lies at level \<open>A, B\<close> of a wheel that has been run up to \<open>t\<close> when its
  slot is the one of \<open>e\<close> and the tick at which that slot is next visited (\<open>e\<close> with the part below
  \<open>A\<close> cleared) is ahead of \<open>t\<close> and at most one revolution away.
\<close>

definition lvl :: "nat \<Rightarrow> nat \<Rightarrow> u32 \<Rightarrow> u32 \<Rightarrow> nat \<Rightarrow> bool" where
  "lvl A B t e i \<longleftrightarrow> i = unat e mod B div A \<and> unat e mod A < unat (e - t) \<and>
     unat (e - t) \<le> B + unat e mod A"

definition winv :: "(addr \<Rightarrow> u32) \<Rightarrow> u32 \<Rightarrow> wheel \<Rightarrow> bool" where
  "winv ex t w \<longleftrightarrow>
     (\<forall>i. \<forall>x\<in>set (h0 w i). lvl 1 (2 ^ 14) t (ex x) i) \<and>
     (\<forall>i. \<forall>x\<in>set (h1 w i). lvl (2 ^ 14) (2 ^ 23) t (ex x) i) \<and>
     (\<forall>i. \<forall>x\<in>set (h2 w i). lvl (2 ^ 23) (2 ^ 32) t (ex x) i)"

text \<open>The timers waiting in the wheel.\<close>

definition slots :: "nat \<Rightarrow> (nat \<Rightarrow> addr list) \<Rightarrow> addr multiset" where
  "slots n f = (\<Sum>i<n. mset (f i))"

definition pend :: "wheel \<Rightarrow> addr multiset" where
  "pend w = slots (2 ^ 14) (h0 w) + slots (2 ^ 9) (h1 w) + slots (2 ^ 9) (h2 w)"

section \<open>Lemmas\<close>

subsection \<open>Tick arithmetic\<close>

lemma nat_mod_add_cancel:
  fixes a b c n :: nat
  assumes "(a + b) mod n = (a + c) mod n"
  shows "b mod n = c mod n"
proof -
  have "int n dvd (int (a + b) - int (a + c))"
    using assms by (metis mod_eq_dvd_iff zmod_int)
  then have "int n dvd (int b - int c)" by simp
  then show ?thesis by (metis mod_eq_dvd_iff of_nat_eq_iff zmod_int)
qed

lemma slot_due_arith:
  fixes T d E A B :: nat
  assumes A: "0 < A" "A dvd B" "0 < B" and s: "(T + d) mod B = E mod B" and d: "d < B + E mod A"
  shows "T mod A = 0 \<and> T mod B div A = E mod B div A \<longleftrightarrow> d = E mod A"
proof -
  have AB: "A \<le> B" using A by (auto dest: dvd_imp_le)
  have mE: "E mod B mod A = E mod A" and mT: "T mod B mod A = T mod A"
    using A(2) by (simp_all add: mod_mod_cancel)
  have rA: "E mod A < A" using A by simp
  then have rB: "E mod A mod B = E mod A" using AB by simp
  have eE: "E mod B = A * (E mod B div A) + E mod A" using mE by (metis mult_div_mod_eq)
  have eT: "T mod B = A * (T mod B div A) + T mod A" using mT by (metis mult_div_mod_eq)
  show ?thesis
  proof
    assume h: "T mod A = 0 \<and> T mod B div A = E mod B div A"
    then have "E mod B = T mod B + E mod A" using eE eT by simp
    then have "(T mod B + d) mod B = (T mod B + E mod A) mod B"
      using s by (metis mod_add_left_eq mod_mod_trivial)
    then have "d mod B = E mod A" using nat_mod_add_cancel rB by metis
    moreover have "d mod B = (if d < B then d else (d - B) mod B)" by (simp add: le_mod_geq)
    moreover have "d - B < B" "d - B < E mod A \<or> d < B" using d rA AB by auto
    ultimately show "d = E mod A" by (auto split: if_splits)
  next
    assume h: "d = E mod A"
    have "(T + d) mod A = E mod A" using s A(2) by (metis mod_mod_cancel)
    then have "(E mod A + T) mod A = (E mod A + 0) mod A" using h by (simp add: add.commute)
    then have "T mod A = 0 mod A" by (rule nat_mod_add_cancel)
    then have t0: "T mod A = 0" by simp
    then have "T mod B = A * (T mod B div A)" using eT by simp
    moreover have "T mod B + A \<le> B"
    proof -
      obtain k where k: "B = A * k" using A(2) by (auto elim: dvdE)
      have "T mod B < B" using A(3) by simp
      then have "T mod B div A < k" using calculation k by (metis mult_less_cancel1)
      then have "A * (T mod B div A) + A \<le> A * k" by (metis Suc_leI mult_Suc_right mult_le_mono2 add.commute)
      then show ?thesis using calculation k by simp
    qed
    ultimately have "T mod B + d < B" using h rA by linarith
    then have "T mod B + d = E mod B" using s by (metis mod_add_left_eq mod_less)
    then have "A * (T mod B div A) + E mod A = A * (E mod B div A) + E mod A"
      using h eE eT t0 by simp
    then show "T mod A = 0 \<and> T mod B div A = E mod B div A" using t0 A(1) by simp
  qed
qed

lemma unat_diff_mod:
  fixes e t :: u32
  assumes "B dvd 2 ^ 32"
  shows "(unat t + unat (e - t)) mod B = unat e mod B"
proof -
  have "unat (t + (e - t)) = (unat t + unat (e - t)) mod 2 ^ 32"
    by (subst unat_word_ariths(1)) simp
  then have "unat e = (unat t + unat (e - t)) mod 2 ^ 32" by simp
  then show ?thesis by (simp only: mod_mod_cancel [OF assms])
qed

lemma unat_diff_step:
  fixes e t :: u32
  assumes "unat (e - t) \<noteq> 0"
  shows "unat (e - (t + 1)) = unat (e - t) - 1"
proof -
  have "e - t \<noteq> 0" using assms by auto
  then have "unat (e - t - 1) = unat (e - t) - 1" by (rule unat_minus_one)
  then show ?thesis by (simp add: diff_diff_eq)
qed

lemma unat_diff_0 [simp]: "unat (e - t) = 0 \<longleftrightarrow> e = (t :: u32)"
  by (simp add: unat_eq_0)

subsection \<open>The moment a tick begins\<close>

text \<open>As \<open>lvl\<close>, at the tick \<open>t\<close> that is about to be run: the visit may be due now.\<close>

definition lvl_pre :: "nat \<Rightarrow> nat \<Rightarrow> u32 \<Rightarrow> u32 \<Rightarrow> nat \<Rightarrow> bool" where
  "lvl_pre A B t e i \<longleftrightarrow> i = unat e mod B div A \<and> unat e mod A \<le> unat (e - t) \<and>
     unat (e - t) < B + unat e mod A"

definition is_level :: "nat \<Rightarrow> nat \<Rightarrow> bool" where
  "is_level A B \<longleftrightarrow> 0 < A \<and> A dvd B \<and> 0 < B \<and> B dvd 2 ^ 32"

lemma levels: "is_level 1 (2 ^ 14)" "is_level (2 ^ 14) (2 ^ 23)" "is_level (2 ^ 23) (2 ^ 32)"
  by (simp_all add: is_level_def dvd_def)

lemma lvl_step: "lvl A B t e i \<Longrightarrow> lvl_pre A B (t + 1) e i"
  unfolding lvl_def lvl_pre_def using unat_diff_step [of e t] by (cases "e = t") auto

lemma lvl_pre_due:
  assumes "is_level A B" "lvl_pre A B t e i"
  shows "unat t mod A = 0 \<and> unat t mod B div A = i \<longleftrightarrow> unat (e - t) = unat e mod A"
  using slot_due_arith [of A B "unat t" "unat (e - t)" "unat e"] unat_diff_mod [of B t e] assms
  by (simp add: is_level_def lvl_pre_def)

lemma lvl_pre_not_due:
  assumes "is_level A B" "lvl_pre A B t e i" "\<not> (unat t mod A = 0 \<and> unat t mod B div A = i)"
  shows "lvl A B t e i"
  using lvl_pre_due [OF assms(1,2)] assms(2,3) unfolding lvl_def lvl_pre_def by auto

definition winv_pre :: "(addr \<Rightarrow> u32) \<Rightarrow> u32 \<Rightarrow> wheel \<Rightarrow> bool" where
  "winv_pre ex t w \<longleftrightarrow>
     (\<forall>i. \<forall>x\<in>set (h0 w i). lvl_pre 1 (2 ^ 14) t (ex x) i) \<and>
     (\<forall>i. \<forall>x\<in>set (h1 w i). lvl_pre (2 ^ 14) (2 ^ 23) t (ex x) i) \<and>
     (\<forall>i. \<forall>x\<in>set (h2 w i). lvl_pre (2 ^ 23) (2 ^ 32) t (ex x) i)"

lemma winv_step: "winv ex t w \<Longrightarrow> winv_pre ex (t + 1) w"
  unfolding winv_def winv_pre_def using lvl_step by blast

text \<open>The slots the tick \<open>t\<close> visits.\<close>

abbreviation slot0 :: "u32 \<Rightarrow> nat" where "slot0 t \<equiv> unat t mod 2 ^ 14"
abbreviation slot1 :: "u32 \<Rightarrow> nat" where "slot1 t \<equiv> unat t mod 2 ^ 23 div 2 ^ 14"
abbreviation slot2 :: "u32 \<Rightarrow> nat" where "slot2 t \<equiv> unat t div 2 ^ 23"

lemma slot2_mod: "unat (t :: u32) mod 2 ^ 32 div 2 ^ 23 = slot2 t"
proof -
  have "unat t < 2 ^ 32" using unsigned_less [of t] by simp
  then show ?thesis by simp
qed

lemma winv_pre_post:
  assumes "winv_pre ex t w" "h0 w (slot0 t) = []"
    "unat t mod 2 ^ 14 = 0 \<Longrightarrow> h1 w (slot1 t) = []"
    "unat t mod 2 ^ 23 = 0 \<Longrightarrow> h2 w (slot2 t) = []"
  shows "winv ex t w"
proof -
  have "lvl 1 (2 ^ 14) t (ex x) i" if "x \<in> set (h0 w i)" for x i
    using assms that by (intro lvl_pre_not_due levels) (auto simp: winv_pre_def)
  moreover have "lvl (2 ^ 14) (2 ^ 23) t (ex x) i" if "x \<in> set (h1 w i)" for x i
    using assms that by (intro lvl_pre_not_due levels) (auto simp: winv_pre_def)
  moreover have "lvl (2 ^ 23) (2 ^ 32) t (ex x) i" if "x \<in> set (h2 w i)" for x i
  proof (intro lvl_pre_not_due levels notI)
    show "lvl_pre (2 ^ 23) (2 ^ 32) t (ex x) i" using assms(1) that by (simp add: winv_pre_def)
    assume "unat t mod 2 ^ 23 = 0 \<and> unat t mod 2 ^ 32 div 2 ^ 23 = i"
    then show False using assms(4) that unfolding slot2_mod by auto
  qed
  ultimately show ?thesis unfolding winv_def by blast
qed

subsection \<open>Reading the masks\<close>

lemma bits_simps:
  "H0_ENTRIES = 2 ^ 14" "H1_ENTRIES = 2 ^ 9" "H2_ENTRIES = 2 ^ 9" "H0_ENTRIES * H1_ENTRIES = 2 ^ 23"
  by (simp_all add: H0_ENTRIES_def H1_ENTRIES_def H2_ENTRIES_def H0_BITS_def H1_BITS_def H2_BITS_def)

lemma idx_simps [word_nat]:
  "unat (t AND H0_MASK) = slot0 t"
  "unat (drop_bit H0_BITS (t AND H1_H0_MASK)) = slot1 t"
  "unat (drop_bit (H0_BITS + H1_BITS) t) = slot2 t"
  "unat (drop_bit (H1_BITS + H0_BITS) t) = slot2 t"
proof -
  show "unat (t AND H0_MASK) = slot0 t"
    unfolding H0_MASK_def H0_BITS_def by (rule unat_and_mask)
  show "unat (drop_bit H0_BITS (t AND H1_H0_MASK)) = slot1 t"
    unfolding H1_H0_MASK_def H0_BITS_def H1_BITS_def unat_drop_bit unat_and_mask by simp
  show "unat (drop_bit (H0_BITS + H1_BITS) t) = slot2 t" "unat (drop_bit (H1_BITS + H0_BITS) t) = slot2 t"
    unfolding H0_BITS_def H1_BITS_def unat_drop_bit by simp_all
qed

lemma mask_zero_simps [word_nat]:
  "t AND H0_MASK = 0 \<longleftrightarrow> unat t mod 2 ^ 14 = 0"
  "t AND H1_H0_MASK = 0 \<longleftrightarrow> unat t mod 2 ^ 23 = 0"
proof -
  have "unat (t AND H1_H0_MASK) = unat t mod 2 ^ 23"
    using unat_and_mask [of t 23] by (simp only: H1_H0_MASK_def H0_BITS_def H1_BITS_def) simp
  then show "t AND H1_H0_MASK = 0 \<longleftrightarrow> unat t mod 2 ^ 23 = 0" by (metis unat_eq_0)
  show "t AND H0_MASK = 0 \<longleftrightarrow> unat t mod 2 ^ 14 = 0" by (metis idx_simps(1) unat_eq_0)
qed

lemma timer_dist_tl_eq:
  "timer_dist_tl ex x delta w =
     (if delta = 0 then timer_add_list Expired x w
      else if unat delta < 2 ^ 14 then timer_add_list (H0 (slot0 (ex x))) x w
      else if unat delta < 2 ^ 23 then timer_add_list (H1 (slot1 (ex x))) x w
      else timer_add_list (H2 (slot2 (ex x))) x w)"
  unfolding timer_dist_tl_def bits_simps(4) idx_simps unfolding bits_simps(1) by simp

subsection \<open>Counting the waiting timers\<close>

lemma slots_upd: "i < n \<Longrightarrow> slots n (f(i := xs)) + mset (f i) = slots n f + mset xs"
proof -
  assume i: "i < n"
  have "(\<Sum>j\<in>{..<n} - {i}. mset ((f(i := xs)) j)) = (\<Sum>j\<in>{..<n} - {i}. mset (f j))"
    by (rule sum.cong) auto
  then show ?thesis
    using i sum.remove [of "{..<n}" i "\<lambda>j. mset (f j)"]
      sum.remove [of "{..<n}" i "\<lambda>j. mset ((f(i := xs)) j)"]
    by (simp add: slots_def)
qed

lemma slots_snoc: "i < n \<Longrightarrow> slots n (f(i := f i @ [x])) = slots n f + {#x#}"
  using slots_upd [of i n f "f i @ [x]"] by (simp add: add.assoc [symmetric] add.commute)

lemma slots_clear: "i < n \<Longrightarrow> slots n (f(i := [])) + mset (f i) = slots n f"
  using slots_upd [of i n f "[]"] by simp

lemma slot_bounds: "slot0 t < 2 ^ 14" "slot1 t < 2 ^ 9" "slot2 t < 2 ^ 9"
proof -
  show "slot0 t < 2 ^ 14" by simp
  have "unat t mod 2 ^ 23 < 2 ^ 14 * 2 ^ 9" by simp
  then show "slot1 t < 2 ^ 9" by (metis less_mult_imp_div_less mult.commute)
  have "unat t < 2 ^ 23 * 2 ^ 9" using unsigned_less [of t] by simp
  then show "slot2 t < 2 ^ 9" by (metis less_mult_imp_div_less mult.commute)
qed

text \<open>The waiting timers that are not due at \<open>t\<close>, and those expired or due.\<close>

definition rest :: "(addr \<Rightarrow> u32) \<Rightarrow> u32 \<Rightarrow> wheel \<Rightarrow> addr multiset" where
  "rest ex t w = filter_mset (\<lambda>x. ex x \<noteq> t) (pend w)"

definition due :: "(addr \<Rightarrow> u32) \<Rightarrow> u32 \<Rightarrow> wheel \<Rightarrow> addr multiset" where
  "due ex t w = mset (expired w) + filter_mset (\<lambda>x. ex x = t) (pend w)"

lemma pend_add_list:
  "pend (timer_add_list Expired x w) = pend w"
  "pend (timer_add_list (H0 (slot0 e)) x w) = pend w + {#x#}"
  "pend (timer_add_list (H1 (slot1 e)) x w) = pend w + {#x#}"
  "pend (timer_add_list (H2 (slot2 e)) x w) = pend w + {#x#}"
  using slots_snoc [OF slot_bounds(1) [of e], of "h0 w" x]
    slots_snoc [OF slot_bounds(2) [of e], of "h1 w" x] slots_snoc [OF slot_bounds(3) [of e], of "h2 w" x]
  unfolding pend_def timer_add_list_def by (simp_all only: set_list.simps get_list.simps wheel.simps) auto

lemma expired_add_list:
  "expired (timer_add_list Expired x w) = expired w @ [x]"
  "expired (timer_add_list (H0 i) x w) = expired w"
  "expired (timer_add_list (H1 i) x w) = expired w"
  "expired (timer_add_list (H2 i) x w) = expired w"
  by (simp_all add: timer_add_list_def)

lemma dist_pend:
  "pend (timer_dist_tl ex x delta w) = pend w + (if delta = 0 then {#} else {#x#})"
  "expired (timer_dist_tl ex x delta w) = expired w @ (if delta = 0 then [x] else [])"
  by (simp_all only: timer_dist_tl_eq pend_add_list expired_add_list if_distrib [of pend]
      if_distrib [of expired] split: if_split) simp_all

lemma dist_rest_due:
  "rest ex t (timer_dist_tl ex x (ex x - t) w) = rest ex t w + filter_mset (\<lambda>x. ex x \<noteq> t) {#x#}"
  "due ex t (timer_dist_tl ex x (ex x - t) w) = due ex t w + filter_mset (\<lambda>x. ex x = t) {#x#}"
  by (simp_all add: rest_def due_def dist_pend)

subsection \<open>Redistribution\<close>

lemma dist_frame:
  "unat delta < 2 ^ 23 \<Longrightarrow> h2 (timer_dist_tl ex x delta w) = h2 w"
  "unat delta < 2 ^ 14 \<Longrightarrow> h1 (timer_dist_tl ex x delta w) = h1 w"
  by (simp_all add: timer_dist_tl_eq timer_add_list_def)

lemma dist_lvl:
  assumes "e \<noteq> t"
  shows "unat (e - t) < 2 ^ 14 \<Longrightarrow> lvl_pre 1 (2 ^ 14) t e (slot0 e)"
    "2 ^ 14 \<le> unat (e - t) \<Longrightarrow> unat (e - t) < 2 ^ 23 \<Longrightarrow> lvl_pre (2 ^ 14) (2 ^ 23) t e (slot1 e)"
    "2 ^ 23 \<le> unat (e - t) \<Longrightarrow> lvl_pre (2 ^ 23) (2 ^ 32) t e (slot2 e)"
proof -
  have m: "unat e mod 2 ^ 14 < 2 ^ 14" "unat e mod 2 ^ 23 < 2 ^ 23" by simp_all
  have l: "unat (e - t) < 2 ^ 32" using unsigned_less [of "e - t"] by simp
  show "unat (e - t) < 2 ^ 14 \<Longrightarrow> lvl_pre 1 (2 ^ 14) t e (slot0 e)"
    by (simp add: lvl_pre_def)
  show "2 ^ 14 \<le> unat (e - t) \<Longrightarrow> unat (e - t) < 2 ^ 23 \<Longrightarrow> lvl_pre (2 ^ 14) (2 ^ 23) t e (slot1 e)"
    unfolding lvl_pre_def using m(1) by linarith
  show "2 ^ 23 \<le> unat (e - t) \<Longrightarrow> lvl_pre (2 ^ 23) (2 ^ 32) t e (slot2 e)"
    unfolding lvl_pre_def slot2_mod using m(2) l by linarith
qed

lemma dist_winv_pre:
  assumes "winv_pre ex t w"
  shows "winv_pre ex t (timer_dist_tl ex x (ex x - t) w)"
proof -
  have a: "winv_pre ex t (timer_add_list Expired x w)"
    using assms by (simp add: winv_pre_def timer_add_list_def)
  have a0: "winv_pre ex t (timer_add_list (H0 i) x w)" if "lvl_pre 1 (2 ^ 14) t (ex x) i" for i
    using assms that by (auto simp: winv_pre_def timer_add_list_def)
  have a1: "winv_pre ex t (timer_add_list (H1 i) x w)" if "lvl_pre (2 ^ 14) (2 ^ 23) t (ex x) i" for i
    using assms that by (auto simp: winv_pre_def timer_add_list_def)
  have a2: "winv_pre ex t (timer_add_list (H2 i) x w)" if "lvl_pre (2 ^ 23) (2 ^ 32) t (ex x) i" for i
    using assms that by (auto simp: winv_pre_def timer_add_list_def)
  show ?thesis
    unfolding timer_dist_tl_eq
    using a a0 [OF dist_lvl(1)] a1 [OF dist_lvl(2)] a2 [OF dist_lvl(3)] by (simp add: not_less)
qed

lemma fold_dist:
  fixes w :: wheel
  defines "g \<equiv> \<lambda>t ex w x. timer_dist_tl ex x (ex x - t) w"
  shows "winv_pre ex t w \<Longrightarrow> winv_pre ex t (foldl (g t ex) w L)"
    and "rest ex t (foldl (g t ex) w L) = rest ex t w + filter_mset (\<lambda>x. ex x \<noteq> t) (mset L)"
    and "due ex t (foldl (g t ex) w L) = due ex t w + filter_mset (\<lambda>x. ex x = t) (mset L)"
    and "(\<And>x. x \<in> set L \<Longrightarrow> unat (ex x - t) < 2 ^ 23) \<Longrightarrow> h2 (foldl (g t ex) w L) = h2 w"
    and "(\<And>x. x \<in> set L \<Longrightarrow> unat (ex x - t) < 2 ^ 14) \<Longrightarrow> h1 (foldl (g t ex) w L) = h1 w"
proof -
  show "winv_pre ex t w \<Longrightarrow> winv_pre ex t (foldl (g t ex) w L)"
    by (induction L arbitrary: w) (simp_all add: g_def dist_winv_pre)
  show "rest ex t (foldl (g t ex) w L) = rest ex t w + filter_mset (\<lambda>x. ex x \<noteq> t) (mset L)"
    by (induction L arbitrary: w) (simp_all add: g_def dist_rest_due)
  show "due ex t (foldl (g t ex) w L) = due ex t w + filter_mset (\<lambda>x. ex x = t) (mset L)"
    by (induction L arbitrary: w) (simp_all add: g_def dist_rest_due)
  show "(\<And>x. x \<in> set L \<Longrightarrow> unat (ex x - t) < 2 ^ 23) \<Longrightarrow> h2 (foldl (g t ex) w L) = h2 w"
    by (induction L arbitrary: w) (simp_all add: g_def dist_frame del: power_numeral)
  show "(\<And>x. x \<in> set L \<Longrightarrow> unat (ex x - t) < 2 ^ 14) \<Longrightarrow> h1 (foldl (g t ex) w L) = h1 w"
    by (induction L arbitrary: w) (simp_all add: g_def dist_frame del: power_numeral)
qed

lemma init_list_winv_pre: "winv_pre ex t w \<Longrightarrow> winv_pre ex t (timer_init_list h w)"
  by (cases h) (auto simp: winv_pre_def timer_init_list_def)

lemma pend_init_list:
  "pend (timer_init_list (H0 (slot0 e)) w) + mset (h0 w (slot0 e)) = pend w"
  "pend (timer_init_list (H1 (slot1 e)) w) + mset (h1 w (slot1 e)) = pend w"
  "pend (timer_init_list (H2 (slot2 e)) w) + mset (h2 w (slot2 e)) = pend w"
proof -
  have 0: "slots (2 ^ 14) ((h0 w)(slot0 e := [])) + mset (h0 w (slot0 e)) = slots (2 ^ 14) (h0 w)"
    by (rule slots_clear [OF slot_bounds(1)])
  have 1: "slots (2 ^ 9) ((h1 w)(slot1 e := [])) + mset (h1 w (slot1 e)) = slots (2 ^ 9) (h1 w)"
    by (rule slots_clear [OF slot_bounds(2)])
  have 2: "slots (2 ^ 9) ((h2 w)(slot2 e := [])) + mset (h2 w (slot2 e)) = slots (2 ^ 9) (h2 w)"
    by (rule slots_clear [OF slot_bounds(3)])
  show "pend (timer_init_list (H0 (slot0 e)) w) + mset (h0 w (slot0 e)) = pend w"
    unfolding pend_def timer_init_list_def set_list.simps wheel.simps 0 [symmetric] by (simp add: ac_simps)
  show "pend (timer_init_list (H1 (slot1 e)) w) + mset (h1 w (slot1 e)) = pend w"
    unfolding pend_def timer_init_list_def set_list.simps wheel.simps 1 [symmetric] by (simp add: ac_simps)
  show "pend (timer_init_list (H2 (slot2 e)) w) + mset (h2 w (slot2 e)) = pend w"
    unfolding pend_def timer_init_list_def set_list.simps wheel.simps 2 [symmetric] by (simp add: ac_simps)
qed

text \<open>Emptying a slot whose timers have all been counted elsewhere.\<close>

lemma rest_due_clear:
  assumes "pend v + M = pend w" "expired v = expired w"
  shows "rest ex t v + filter_mset (\<lambda>x. ex x \<noteq> t) M = rest ex t w"
    "due ex t v + filter_mset (\<lambda>x. ex x = t) M = due ex t w"
  unfolding rest_def due_def assms(1) [symmetric] assms(2) by (simp_all add: ac_simps)

lemma redist_h1:
  assumes i: "winv_pre ex t w" and m: "unat t mod 2 ^ 14 = 0"
  defines "w' \<equiv> timer_redist ex t (H1 (slot1 t)) w"
  shows "winv_pre ex t w' \<and> rest ex t w' = rest ex t w \<and> due ex t w' = due ex t w \<and>
    h1 w' (slot1 t) = [] \<and> h2 w' = h2 w"
proof -
  let ?L = "h1 w (slot1 t)" and ?f = "\<lambda>w x. timer_dist_tl ex x (ex x - t) w"
  let ?v = "foldl ?f w ?L"
  have d: "unat (ex x - t) < 2 ^ 14" if "x \<in> set ?L" for x
  proof -
    have "lvl_pre (2 ^ 14) (2 ^ 23) t (ex x) (slot1 t)" using i that by (simp add: winv_pre_def)
    from lvl_pre_due [OF levels(2) this] have "unat (ex x - t) = unat (ex x) mod 2 ^ 14"
      using m by (simp only: simp_thms)
    then show ?thesis by simp
  qed
  have d': "unat (ex x - t) < 2 ^ 23" if "x \<in> set ?L" for x using d [OF that] by simp
  have w': "w' = timer_init_list (H1 (slot1 t)) ?v" by (simp add: w'_def timer_redist_def)
  have h1v: "h1 ?v = h1 w" and h2v: "h2 ?v = h2 w" using fold_dist(4,5) d d' by blast+
  have p: "pend w' + mset ?L = pend ?v" using pend_init_list(2) [of t ?v] unfolding w' h1v .
  have e: "expired w' = expired ?v" unfolding w' timer_init_list_def by simp
  have "rest ex t w' = rest ex t w" "due ex t w' = due ex t w"
    using rest_due_clear [OF p e, of ex t] fold_dist(2,3) [of ex t w ?L] by simp_all
  moreover have "winv_pre ex t w'" unfolding w' by (intro init_list_winv_pre fold_dist(1) i)
  moreover have "h1 w' (slot1 t) = []" "h2 w' = h2 w"
    unfolding w' timer_init_list_def set_list.simps by (simp_all del: power_numeral add: h2v)
  ultimately show ?thesis by simp
qed

lemma redist_h2:
  assumes i: "winv_pre ex t w" and m: "unat t mod 2 ^ 23 = 0"
  defines "w' \<equiv> timer_redist ex t (H2 (slot2 t)) w"
  shows "winv_pre ex t w' \<and> rest ex t w' = rest ex t w \<and> due ex t w' = due ex t w \<and>
    h2 w' (slot2 t) = []"
proof -
  let ?L = "h2 w (slot2 t)" and ?f = "\<lambda>w x. timer_dist_tl ex x (ex x - t) w"
  let ?v = "foldl ?f w ?L"
  have d: "unat (ex x - t) < 2 ^ 23" if "x \<in> set ?L" for x
  proof -
    have "lvl_pre (2 ^ 23) (2 ^ 32) t (ex x) (slot2 t)" using i that by (simp add: winv_pre_def)
    from lvl_pre_due [OF levels(3) this] have "unat (ex x - t) = unat (ex x) mod 2 ^ 23"
      using m by (simp only: slot2_mod simp_thms)
    then show ?thesis by simp
  qed
  have w': "w' = timer_init_list (H2 (slot2 t)) ?v" by (simp add: w'_def timer_redist_def)
  have h2v: "h2 ?v = h2 w" using fold_dist(4) d by blast
  have p: "pend w' + mset ?L = pend ?v" using pend_init_list(3) [of t ?v] unfolding w' h2v .
  have e: "expired w' = expired ?v" unfolding w' timer_init_list_def by simp
  have "rest ex t w' = rest ex t w" "due ex t w' = due ex t w"
    using rest_due_clear [OF p e, of ex t] fold_dist(2,3) [of ex t w ?L] by simp_all
  moreover have "winv_pre ex t w'" unfolding w' by (intro init_list_winv_pre fold_dist(1) i)
  moreover have "h2 w' (slot2 t) = []" unfolding w' timer_init_list_def by simp
  ultimately show ?thesis by simp
qed

lemma mv_expire_h0:
  assumes i: "winv_pre ex t w"
  defines "w' \<equiv> timer_mv_expire (H0 (slot0 t)) w"
  shows "winv_pre ex t w' \<and> rest ex t w' = rest ex t w \<and> due ex t w' = due ex t w \<and>
    h0 w' (slot0 t) = [] \<and> h1 w' = h1 w \<and> h2 w' = h2 w"
proof -
  let ?L = "h0 w (slot0 t)"
  let ?v = "w\<lparr>expired := expired w @ ?L\<rparr>"
  have w': "w' = timer_init_list (H0 (slot0 t)) ?v"
    unfolding w'_def timer_mv_expire_def
    by (cases "?L = []") (simp_all add: timer_init_list_def fun_upd_idem)
  have d: "ex x = t" if "x \<in> set ?L" for x
  proof -
    have "lvl_pre 1 (2 ^ 14) t (ex x) (slot0 t)" using i that by (simp add: winv_pre_def)
    then have "unat (ex x - t) = unat (ex x) mod 1"
      using lvl_pre_due [OF levels(1), of t "ex x" "slot0 t"] by simp
    then show ?thesis by simp
  qed
  have "pend ?v = pend w" by (simp add: pend_def)
  then have p: "pend w' + mset ?L = pend w" using pend_init_list(1) [of t ?v] w' by simp
  have f: "filter_mset (\<lambda>x. ex x \<noteq> t) (mset ?L) = {#}" "filter_mset (\<lambda>x. ex x = t) (mset ?L) = mset ?L"
    using d by (simp_all only: mset_filter [symmetric]) (simp_all add: filter_False filter_True)
  have "rest ex t w' = rest ex t w" "due ex t w' = due ex t w"
    unfolding rest_def due_def p [symmetric] filter_union_mset f
    by (simp_all add: w' timer_init_list_def)
  moreover have "winv_pre ex t w'"
    unfolding w' using i by (intro init_list_winv_pre) (simp add: winv_pre_def)
  ultimately show ?thesis by (simp add: w' timer_init_list_def)
qed

subsection \<open>Running ticks\<close>

lemma lvl_pend:
  assumes "winv ex t w" "x \<in># pend w"
  shows "ex x \<noteq> t"
proof -
  have "x \<in># slots n f \<Longrightarrow> \<exists>i. x \<in> set (f i)" for n f
    by (auto simp: slots_def set_mset_sum)
  then obtain i where "x \<in> set (h0 w i) \<or> x \<in> set (h1 w i) \<or> x \<in> set (h2 w i)"
    using assms(2) unfolding pend_def by (metis union_iff)
  then have "\<exists>A B. lvl A B t (ex x) i" using assms(1) unfolding winv_def by blast
  then show ?thesis by (auto simp: lvl_def)
qed

lemma timer_run_eq:
  "timer_run ex t w =
     timer_mv_expire (H0 (slot0 t))
       (if unat t mod 2 ^ 14 = 0 then
          timer_redist ex t (H1 (slot1 t))
            (if unat t mod 2 ^ 23 = 0 then timer_redist ex t (H2 (slot2 t)) w else w)
        else w)"
  unfolding timer_run_def Let_def mask_zero_simps idx_simps ..

lemma timer_run_pre:
  assumes i: "winv_pre ex t w"
  shows "winv ex t (timer_run ex t w) \<and> rest ex t (timer_run ex t w) = rest ex t w \<and>
    due ex t (timer_run ex t w) = due ex t w"
proof -
  let ?u = "if unat t mod 2 ^ 23 = 0 then timer_redist ex t (H2 (slot2 t)) w else w"
  let ?v = "if unat t mod 2 ^ 14 = 0 then timer_redist ex t (H1 (slot1 t)) ?u else w"
  have u: "winv_pre ex t ?u" "rest ex t ?u = rest ex t w" "due ex t ?u = due ex t w"
    "unat t mod 2 ^ 23 = 0 \<Longrightarrow> h2 ?u (slot2 t) = []"
    using i redist_h2 [OF i] by auto
  have m: "unat t mod 2 ^ 23 = 0 \<Longrightarrow> unat t mod 2 ^ 14 = 0"
    using mod_mod_cancel [of "2 ^ 14" "2 ^ 23" "unat t"] by (auto simp: dvd_def)
  have v: "winv_pre ex t ?v" "rest ex t ?v = rest ex t w" "due ex t ?v = due ex t w"
    "unat t mod 2 ^ 14 = 0 \<Longrightarrow> h1 ?v (slot1 t) = []" "unat t mod 2 ^ 23 = 0 \<Longrightarrow> h2 ?v (slot2 t) = []"
    using i u redist_h1 [OF u(1)] m by (auto simp del: power_numeral)
  have r: "timer_run ex t w = timer_mv_expire (H0 (slot0 t)) ?v" by (rule timer_run_eq)
  note e = mv_expire_h0 [OF v(1)]
  have "winv ex t (timer_run ex t w)"
    unfolding r by (rule winv_pre_post) (use e v(4,5) in \<open>simp_all del: power_numeral\<close>)
  then show ?thesis using e v r by simp
qed

text \<open>Expired timers are only ever appended.\<close>

lemma redist_appends: "\<exists>ys. expired (timer_redist ex t (H1 i) w) = expired w @ ys"
  "\<exists>ys. expired (timer_redist ex t (H2 i) w) = expired w @ ys"
proof -
  have "\<exists>ys. expired (foldl (\<lambda>w x. timer_dist_tl ex x (ex x - t) w) w L) = expired w @ ys" for L
  proof (induction L arbitrary: w)
    case (Cons x L)
    from Cons [of "timer_dist_tl ex x (ex x - t) w"] show ?case by (auto simp: dist_pend)
  qed simp
  then show "\<exists>ys. expired (timer_redist ex t (H1 i) w) = expired w @ ys"
    "\<exists>ys. expired (timer_redist ex t (H2 i) w) = expired w @ ys"
    by (auto simp: timer_redist_def timer_init_list_def)
qed

lemma timer_run_appends: "\<exists>ys. expired (timer_run ex t w) = expired w @ ys"
proof -
  let ?u = "if unat t mod 2 ^ 23 = 0 then timer_redist ex t (H2 (slot2 t)) w else w"
  let ?v = "if unat t mod 2 ^ 14 = 0 then timer_redist ex t (H1 (slot1 t)) ?u else w"
  have "\<exists>ys. expired ?u = expired w @ ys" using redist_appends(2) by auto
  then obtain us where u: "expired ?u = expired w @ us" by blast
  obtain vs where v: "expired (timer_redist ex t (H1 (slot1 t)) ?u) = expired ?u @ vs"
    using redist_appends(1) by blast
  have "\<exists>ys. expired ?v = expired w @ ys"
  proof (cases "unat t mod 2 ^ 14 = 0")
    case True
    then have "expired ?v = expired w @ us @ vs" using u v by (simp only: if_True append_assoc simp_thms)
    then show ?thesis by blast
  qed auto
  then show ?thesis
    unfolding timer_run_eq by (auto simp: timer_mv_expire_def timer_init_list_def)
qed

lemma timer_run_tick:
  assumes "winv ex t w"
  defines "w' \<equiv> timer_run ex (t + 1) w"
  shows "winv ex (t + 1) w' \<and> pend w' = filter_mset (\<lambda>x. ex x \<noteq> t + 1) (pend w) \<and>
    (\<exists>ys. expired w' = expired w @ ys \<and> mset ys = filter_mset (\<lambda>x. ex x = t + 1) (pend w))"
proof -
  have r: "winv ex (t + 1) w'" "rest ex (t + 1) w' = rest ex (t + 1) w"
    "due ex (t + 1) w' = due ex (t + 1) w"
    using timer_run_pre [OF winv_step [OF assms(1)]] by (simp_all add: w'_def)
  have f1: "filter_mset (\<lambda>x. ex x = t + 1) (pend w') = {#}"
    using lvl_pend [OF r(1)] by (intro filter_mset_none)
  have f2: "filter_mset (\<lambda>x. ex x \<noteq> t + 1) (pend w') = pend w'"
    using lvl_pend [OF r(1)] by (intro filter_mset_all)
  have p: "pend w' = filter_mset (\<lambda>x. ex x \<noteq> t + 1) (pend w)"
    using r(2) unfolding rest_def f2 .
  have e: "mset (expired w') = mset (expired w) + filter_mset (\<lambda>x. ex x = t + 1) (pend w)"
    using r(3) unfolding due_def f1 by simp
  obtain ys where "expired w' = expired w @ ys" using timer_run_appends [of ex "t + 1" w] unfolding w'_def by blast
  then show ?thesis using p e r(1) by simp
qed

section \<open>The contract of the wheel\<close>

text \<open>
  What the timer process relies on: a set of waiting timers with a current time; adding a timer
  whose expiry is ahead, and advancing the time by one, which hands out exactly the timers whose
  expiry is reached.
\<close>

locale timer_queue =
  fixes ok :: "'t \<Rightarrow> u32 \<Rightarrow> bool" and waiting :: "'t \<Rightarrow> addr multiset"
    and fired :: "'t \<Rightarrow> addr list" and ex :: "addr \<Rightarrow> u32" and tick :: "u32 \<Rightarrow> 't \<Rightarrow> 't"
  assumes tick_ok: "ok q t \<Longrightarrow> ok (tick (t + 1) q) (t + 1)"
    and tick_waiting: "ok q t \<Longrightarrow> waiting (tick (t + 1) q) = filter_mset (\<lambda>x. ex x \<noteq> t + 1) (waiting q)"
    and tick_fired: "ok q t \<Longrightarrow> \<exists>ys. fired (tick (t + 1) q) = fired q @ ys \<and>
      mset ys = filter_mset (\<lambda>x. ex x = t + 1) (waiting q)"
    and waiting_ahead: "ok q t \<Longrightarrow> x \<in># waiting q \<Longrightarrow> ex x \<noteq> t"
begin

fun ticks_n :: "nat \<Rightarrow> u32 \<Rightarrow> 't \<Rightarrow> 't" where
  "ticks_n 0 t q = q"
| "ticks_n (Suc n) t q = ticks_n n (t + 1) (tick (t + 1) q)"

lemma diff_Suc_iff:
  fixes e t :: u32
  assumes "e \<noteq> t"
  shows "unat (e - t) \<le> Suc n \<longleftrightarrow> e = t + 1 \<or> unat (e - (t + 1)) \<le> n"
proof (cases "e = t + 1")
  case False
  then show ?thesis using unat_diff_step [of e t] assms by auto
qed (use assms in simp)

lemma less_diff_Suc_iff:
  fixes e t :: u32
  assumes "e \<noteq> t"
  shows "Suc n < unat (e - t) \<longleftrightarrow> e \<noteq> t + 1 \<and> n < unat (e - (t + 1))"
  using diff_Suc_iff [OF assms, of n] by (simp only: linorder_not_le [symmetric] de_Morgan_disj)

lemma ticks_n_spec:
  assumes "ok q t" "n < 2 ^ 32"
  shows "ok (ticks_n n t q) (t + of_nat n) \<and>
    waiting (ticks_n n t q) = filter_mset (\<lambda>x. n < unat (ex x - t)) (waiting q) \<and>
    (\<exists>ys. fired (ticks_n n t q) = fired q @ ys \<and>
       mset ys = filter_mset (\<lambda>x. unat (ex x - t) \<le> n) (waiting q) \<and>
       sorted (map (\<lambda>x. unat (ex x - t)) ys))"
  using assms
proof (induction n arbitrary: q t)
  case 0
  have "filter_mset (\<lambda>x. 0 < unat (ex x - t)) (waiting q) = waiting q"
    by (rule filter_mset_all) (use waiting_ahead [OF 0(1)] in \<open>simp add: unat_gt_0\<close>)
  moreover have "filter_mset (\<lambda>x. unat (ex x - t) \<le> 0) (waiting q) = {#}"
    by (rule filter_mset_none) (use waiting_ahead [OF 0(1)] in simp)
  ultimately show ?case using 0 by simp
next
  case (Suc n)
  let ?q = "tick (t + 1) q"
  obtain zs where z: "fired ?q = fired q @ zs" "mset zs = filter_mset (\<lambda>x. ex x = t + 1) (waiting q)"
    using tick_fired [OF Suc.prems(1)] by blast
  have IH: "ok (ticks_n n (t + 1) ?q) (t + 1 + of_nat n)"
    "waiting (ticks_n n (t + 1) ?q) = filter_mset (\<lambda>x. n < unat (ex x - (t + 1))) (waiting ?q)"
    using Suc.IH [OF tick_ok [OF Suc.prems(1)]] Suc.prems(2) by auto
  obtain ys where y: "fired (ticks_n n (t + 1) ?q) = fired ?q @ ys"
    "mset ys = filter_mset (\<lambda>x. unat (ex x - (t + 1)) \<le> n) (waiting ?q)"
    "sorted (map (\<lambda>x. unat (ex x - (t + 1))) ys)"
    using Suc.IH [OF tick_ok [OF Suc.prems(1)]] Suc.prems(2) by auto
  have ahead: "x \<in># waiting q \<Longrightarrow> ex x \<noteq> t" for x by (rule waiting_ahead [OF Suc.prems(1)])
  have ys: "x \<in># waiting q \<and> ex x \<noteq> t + 1" if "x \<in> set ys" for x
  proof -
    have "x \<in># mset ys" using that by simp
    then show ?thesis unfolding y(2) tick_waiting [OF Suc.prems(1)] by simp
  qed
  have zs: "ex x = t + 1" if "x \<in> set zs" for x
  proof -
    have "x \<in># mset zs" using that by simp
    then show ?thesis unfolding z(2) by simp
  qed
  have y1: "unat (ex x - t) = Suc (unat (ex x - (t + 1)))" if "x \<in> set ys" for x
  proof -
    have "unat (ex x - t) \<noteq> 0" using ys [OF that] ahead by simp
    then show ?thesis using unat_diff_step [of "ex x" t] by (simp del: unat_diff_0)
  qed
  have my: "map (\<lambda>x. unat (ex x - t)) ys = map Suc (map (\<lambda>x. unat (ex x - (t + 1))) ys)"
    using y1 by simp
  have "sorted (map (\<lambda>x. unat (ex x - t)) ys)"
    unfolding my sorted_map [of _ "map _ _"] using y(3)
    by (rule sorted_wrt_mono_rel [rotated]) simp
  moreover have z1: "map (\<lambda>x. unat (ex x - t)) zs = replicate (length zs) 1"
    by (rule replicate_eqI) (use zs in auto)
  ultimately have srt: "sorted (map (\<lambda>x. unat (ex x - t)) (zs @ ys))"
    unfolding map_append sorted_append z1 using y1 by (simp add: sorted_replicate)
  have "mset (zs @ ys) = filter_mset (\<lambda>x. unat (ex x - t) \<le> Suc n) (waiting q)"
  proof (rule multiset_eqI)
    fix x
    show "count (mset (zs @ ys)) x = count (filter_mset (\<lambda>x. unat (ex x - t) \<le> Suc n) (waiting q)) x"
      using ahead [of x] diff_Suc_iff [of "ex x" t n]
      by (cases "x \<in># waiting q") (simp_all add: z(2) y(2) tick_waiting [OF Suc.prems(1)] not_in_iff)
  qed
  moreover have "waiting (ticks_n (Suc n) t q) = filter_mset (\<lambda>x. Suc n < unat (ex x - t)) (waiting q)"
  proof (rule multiset_eqI)
    fix x
    show "count (waiting (ticks_n (Suc n) t q)) x = count (filter_mset (\<lambda>x. Suc n < unat (ex x - t)) (waiting q)) x"
      using ahead [of x] less_diff_Suc_iff [of "ex x" t n]
      by (cases "x \<in># waiting q") (simp_all add: IH(2) tick_waiting [OF Suc.prems(1)] not_in_iff)
  qed
  moreover have "fired (ticks_n (Suc n) t q) = fired q @ zs @ ys" using y(1) z(1) by simp
  moreover have "ok (ticks_n (Suc n) t q) (t + of_nat (Suc n))" using IH(1) by (simp add: ac_simps)
  ultimately show ?case using srt by blast
qed

end

interpretation wq: timer_queue "\<lambda>w t. winv ex t w" pend expired ex "timer_run ex" for ex
proof unfold_locales
  fix w t x
  assume i: "winv ex t w"
  note r = timer_run_tick [OF i]
  show "winv ex (t + 1) (timer_run ex (t + 1) w)" using r by blast
  show "pend (timer_run ex (t + 1) w) = filter_mset (\<lambda>x. ex x \<noteq> t + 1) (pend w)" using r by blast
  show "\<exists>ys. expired (timer_run ex (t + 1) w) = expired w @ ys \<and>
      mset ys = filter_mset (\<lambda>x. ex x = t + 1) (pend w)" using r by blast
  assume "x \<in># pend w"
  with i show "ex x \<noteq> t" by (rule lvl_pend)
qed

subsection \<open>Adding timers\<close>

text \<open>
  A timer added with delay \<open>delta\<close> at the tick \<open>t + lag\<close>, while the wheel has been run up to \<open>t\<close>.
\<close>

lemma dist_winv:
  assumes i: "winv ex t w" and e: "ex x = t + of_nat lag + delta" and d: "delta \<noteq> 0"
    and lag: "lag \<le> 1" and ov: "lag + unat delta < 2 ^ 32"
  shows "winv ex t (timer_dist_tl ex x delta w)"
proof -
  have u: "unat (ex x - t) = lag + unat delta"
  proof -
    have "ex x - t = of_nat (lag + unat delta)" using e by simp
    then show ?thesis using ov by (simp add: unsigned_of_nat take_bit_nat_eq_self del: of_nat_add)
  qed
  have d0: "0 < unat delta" using d by (simp add: unat_gt_0)
  have m: "unat (ex x) mod 2 ^ 14 < 2 ^ 14" "unat (ex x) mod 2 ^ 23 < 2 ^ 23" by simp_all
  have l0: "lvl 1 (2 ^ 14) t (ex x) (slot0 (ex x))" if "unat delta < 2 ^ 14"
    unfolding lvl_def u using that d0 lag by simp
  have l1: "lvl (2 ^ 14) (2 ^ 23) t (ex x) (slot1 (ex x))" if "\<not> unat delta < 2 ^ 14" "unat delta < 2 ^ 23"
    unfolding lvl_def u using that m(1) lag by linarith
  have l2: "lvl (2 ^ 23) (2 ^ 32) t (ex x) (slot2 (ex x))" if "\<not> unat delta < 2 ^ 23"
    unfolding lvl_def u slot2_mod using that m(2) ov by linarith
  have a0: "winv ex t (timer_add_list (H0 j) x w)" if "lvl 1 (2 ^ 14) t (ex x) j" for j
    using i that by (auto simp: winv_def timer_add_list_def)
  have a1: "winv ex t (timer_add_list (H1 j) x w)" if "lvl (2 ^ 14) (2 ^ 23) t (ex x) j" for j
    using i that by (auto simp: winv_def timer_add_list_def)
  have a2: "winv ex t (timer_add_list (H2 j) x w)" if "lvl (2 ^ 23) (2 ^ 32) t (ex x) j" for j
    using i that by (auto simp: winv_def timer_add_list_def)
  show ?thesis
    unfolding timer_dist_tl_eq using d a0 [OF l0] a1 [OF l1] a2 [OF l2] by (simp del: power_numeral)
qed

lemma rm_winv: "winv ex t w \<Longrightarrow> winv ex t (timer_rm_list x w)"
  by (auto simp: winv_def timer_rm_list_def)

lemma rm_pend: "pend (timer_rm_list x w) = filter_mset (\<lambda>y. x \<noteq> y) (pend w)"
proof -
  have "slots n (\<lambda>i. removeAll x (f i)) = filter_mset (\<lambda>y. x \<noteq> y) (slots n f)" for n f
    by (induction n) (auto simp: slots_def removeAll_filter_not_eq)
  then show ?thesis by (simp add: pend_def timer_rm_list_def)
qed

text \<open>Only the expiry of the timers in the wheel matters.\<close>

lemma winv_cong:
  assumes "\<And>y. y \<in># pend w \<Longrightarrow> ex y = ex' y" "winv ex t w"
  shows "winv ex' t w"
proof -
  have m: "y \<in> set (f i) \<Longrightarrow> i < n \<Longrightarrow> y \<in># slots n f" for y f i n
    by (auto simp: slots_def set_mset_sum)
  have "ex y = ex' y" if "y \<in> set (h0 w i)" for y i
  proof -
    have "i = slot0 (ex y)" using assms(2) that unfolding winv_def lvl_def div_by_1 by blast
    then have "y \<in># slots (2 ^ 14) (h0 w)"
      using that slot_bounds(1) by (intro m [of y "h0 w" i]) simp_all
    then show ?thesis using assms(1) by (simp only: pend_def union_iff simp_thms)
  qed
  moreover have "ex y = ex' y" if "y \<in> set (h1 w i)" for y i
  proof -
    have "i = slot1 (ex y)" using assms(2) that unfolding winv_def lvl_def by blast
    then have "y \<in># slots (2 ^ 9) (h1 w)"
      using that slot_bounds(2) by (intro m [of y "h1 w" i]) simp_all
    then show ?thesis using assms(1) by (simp only: pend_def union_iff simp_thms)
  qed
  moreover have "ex y = ex' y" if "y \<in> set (h2 w i)" for y i
  proof -
    have "i = slot2 (ex y)" using assms(2) that unfolding winv_def lvl_def slot2_mod by blast
    then have "y \<in># slots (2 ^ 9) (h2 w)"
      using that slot_bounds(3) by (intro m [of y "h2 w" i]) simp_all
    then show ?thesis using assms(1) by (simp only: pend_def union_iff simp_thms)
  qed
  ultimately show ?thesis using assms(2) by (simp add: winv_def)
qed

lemma empty_wheel_winv: "winv ex t empty_wheel" "pend empty_wheel = {#}"
  by (simp_all add: winv_def pend_def slots_def empty_wheel_def)

end
