(* ===== verification/Timer.thy ===== *)
theory Timer
  imports TimerWheel
begin

text \<open>
  The timer processes, \<^verbatim>\<open>src/sip_router/timer.c\<close>, \<^verbatim>\<open>timer.h\<close> and \<^verbatim>\<open>timer_ticks.h\<close>: the tick counter
  and its resynchronisation with real time, adding and deleting timers, the main timer that runs the
  wheel for every missed tick and calls the handlers of the expired timers, and the slow timer
  process that runs the handlers not marked fast.

  One function call under the lock it takes is one operation on the shared state.  The handlers are
  a parameter \<open>f\<close> that may itself change the state; \<open>calls\<close> records the calls made.  Signals that
  arrive while the main timer runs are an input.  The configuration is the default one: a slow timer
  process, shared memory, no \<^verbatim>\<open>TIMER_DEBUG\<close>.
\<close>

section \<open>Definitions\<close>

definition TIMER_TICKS_HZ :: u32 where "TIMER_TICKS_HZ = 16"
definition TIMER_HANDLER_INTERVAL :: u32 where "TIMER_HANDLER_INTERVAL = 1"
definition TIMER_RESYNC_TICKS :: u32 where "TIMER_RESYNC_TICKS = TIMER_TICKS_HZ * 5"
definition TIMER_MAX_DRIFT :: u32 where "TIMER_MAX_DRIFT = TIMER_TICKS_HZ div 10"
definition S_TO_TICKS :: "u32 \<Rightarrow> u32" where "S_TO_TICKS s = s * TIMER_TICKS_HZ"
definition TICKS_TO_S :: "u32 \<Rightarrow> u32" where "TICKS_TO_S t = t div TIMER_TICKS_HZ"
definition TICKS_TO_MS :: "u32 \<Rightarrow> u32" where "TICKS_TO_MS t = (t * 1000) div TIMER_TICKS_HZ"
definition MS_TO_TICKS :: "u32 \<Rightarrow> u32" where "MS_TO_TICKS m = (m * TIMER_TICKS_HZ + 999) div 1000"
definition TICKS_LT :: "u32 \<Rightarrow> u32 \<Rightarrow> bool" where "TICKS_LT t1 t2 \<longleftrightarrow> sint (t1 - t2) < 0"

definition F_TIMER_FAST :: "16 word" where "F_TIMER_FAST = 1"
definition F_TIMER_ON_SLOW_LIST :: "16 word" where "F_TIMER_ON_SLOW_LIST = 0x100"
definition F_TIMER_ACTIVE :: "16 word" where "F_TIMER_ACTIVE = 0x200"
definition SLOW_LISTS_NO :: nat where "SLOW_LISTS_NO = 1024"
definition E_OUT_OF_MEM :: int where "E_OUT_OF_MEM = -2"

text \<open>\<open>linked\<close> is whether \<^verbatim>\<open>next\<close> and \<^verbatim>\<open>prev\<close> are set.\<close>

record timer_ln =
  expire :: u32
  initial_timeout :: u32
  flags :: "16 word"
  slow_idx :: "16 word"
  linked :: bool

record tstate =
  tl_of :: "addr \<Rightarrow> timer_ln"
  lst :: wheel
  ticks :: u32
  prev_ticks :: u32
  last_ticks :: u32
  last_adj_check :: u32
  last_time :: "int \<times> int"
  run_timer :: bool
  running_timer :: addr
  slow_timer_lists :: "nat \<Rightarrow> addr list"
  t_idx :: "16 word"
  s_idx :: "16 word"
  running_timer2 :: addr
  timer_id :: int
  slow_signalled :: bool
  calls :: "(u32 \<times> addr) list"

type_synonym timer_handler_f = "u32 \<Rightarrow> addr \<Rightarrow> tstate \<Rightarrow> u32 \<times> tstate"

abbreviation ex_of :: "tstate \<Rightarrow> addr \<Rightarrow> u32" where
  "ex_of s \<equiv> \<lambda>x. expire (tl_of s x)"

abbreviation upd_tl :: "addr \<Rightarrow> (timer_ln \<Rightarrow> timer_ln) \<Rightarrow> tstate \<Rightarrow> tstate" where
  "upd_tl x g s \<equiv> s\<lparr>tl_of := (tl_of s)(x := g (tl_of s x))\<rparr>"

definition IS_FAST_TIMER :: "timer_ln \<Rightarrow> bool" where
  "IS_FAST_TIMER t \<longleftrightarrow> flags t AND F_TIMER_FAST \<noteq> 0"

definition IS_ON_SLOW_LIST :: "timer_ln \<Rightarrow> bool" where
  "IS_ON_SLOW_LIST t \<longleftrightarrow> flags t AND F_TIMER_ON_SLOW_LIST \<noteq> 0"

definition IS_ACTIVE :: "timer_ln \<Rightarrow> bool" where
  "IS_ACTIVE t \<longleftrightarrow> flags t AND F_TIMER_ACTIVE \<noteq> 0"

definition timer_reinit :: "timer_ln \<Rightarrow> timer_ln" where
  "timer_reinit t = t\<lparr>flags := flags t AND NOT (F_TIMER_ON_SLOW_LIST OR F_TIMER_ACTIVE)\<rparr>"

definition timer_init :: "16 word \<Rightarrow> timer_ln" where
  "timer_init flgs = timer_reinit
     \<lparr>expire = 0, initial_timeout = 0, flags = flgs, slow_idx = 0, linked = False\<rparr>"

definition sig_timer :: "tstate \<Rightarrow> tstate" where
  "sig_timer s =
     (let s = s\<lparr>ticks := ticks s + 1\<rparr> in
      if ticks s mod TIMER_HANDLER_INTERVAL = 0 then s\<lparr>run_timer := True\<rparr> else s)"

text \<open>
  \<open>alloc k\<close> is whether the k-th allocation (or lock initialisation) succeeds, \<open>rnd\<close> the random start
  value, \<open>now\<close> the result of \<^verbatim>\<open>gettimeofday\<close>.  The initial values of a failed start are irrelevant:
  the process exits.
\<close>

definition init_timer :: "(nat \<Rightarrow> bool) \<Rightarrow> u32 \<Rightarrow> (int \<times> int) option \<Rightarrow> int + tstate" where
  "init_timer alloc rnd now =
     (if \<not> alloc 0 then Inl E_OUT_OF_MEM
      else if \<not> alloc 1 then Inl (-1)
      else if \<not> alloc 2 \<or> \<not> alloc 3 then Inl E_OUT_OF_MEM
      else if \<not> alloc 4 then Inl E_OUT_OF_MEM
      else (case now of None \<Rightarrow> Inl (-1)
        | Some tv \<Rightarrow>
            if \<not> alloc 5 then Inl E_OUT_OF_MEM
            else if \<not> alloc 6 then Inl (-1)
            else if \<not> alloc 7 \<or> \<not> alloc 8 \<or> \<not> alloc 9 \<or> \<not> alloc 10 then Inl E_OUT_OF_MEM
            else Inr \<lparr>tl_of = (\<lambda>_. timer_init 0), lst = empty_wheel, ticks = rnd, prev_ticks = rnd,
              last_ticks = rnd, last_adj_check = rnd, last_time = tv, run_timer = False,
              running_timer = 0, slow_timer_lists = (\<lambda>_. []), t_idx = 0, s_idx = 0,
              running_timer2 = 0, timer_id = 0, slow_signalled = False, calls = []\<rparr>))"

definition tv_usecs :: "int \<times> int \<Rightarrow> int" where
  "tv_usecs tv = fst tv * 1000000 + snd tv"

definition adjust_ticks :: "(int \<times> int) option \<Rightarrow> tstate \<Rightarrow> tstate" where
  "adjust_ticks now s =
     (if ticks s - last_adj_check s \<ge> TIMER_RESYNC_TICKS then
        (let s = s\<lparr>last_adj_check := ticks s\<rparr> in
         case now of None \<Rightarrow> s
         | Some crt_time \<Rightarrow>
           (let diff_time = tv_usecs crt_time - tv_usecs (last_time s) in
            if diff_time < 0 then s\<lparr>last_time := crt_time, last_ticks := ticks s\<rparr>
            else
              (let diff_ticks_raw = ticks s - last_ticks s;
                   diff_time_ticks = word_of_int (diff_time * uint TIMER_TICKS_HZ div 1000000) :: u32;
                   delta = sint (diff_time_ticks - diff_ticks_raw)
               in if delta < -1 then s\<lparr>last_time := crt_time, last_ticks := ticks s\<rparr>
               else if delta > sint TIMER_MAX_DRIFT then s\<lparr>ticks := ticks s + word_of_int delta\<rparr>
               else s)))
      else s)"

definition ser_time :: "tstate \<Rightarrow> int" where
  "ser_time s = fst (last_time s) + uint (TICKS_TO_S (ticks s - last_ticks s))"

definition ser_gettimeofday :: "tstate \<Rightarrow> int \<times> int" where
  "ser_gettimeofday s =
     (fst (last_time s) + uint (TICKS_TO_S (ticks s - last_ticks s)),
      snd (last_time s) + uint ((TICKS_TO_MS (ticks s - last_ticks s) mod 1000) * 1000))"

definition get_ticks_raw :: "tstate \<Rightarrow> u32" where "get_ticks_raw s = ticks s"
definition get_ticks :: "tstate \<Rightarrow> u32" where "get_ticks s = TICKS_TO_S (ticks s)"

definition timer_add_unsafe :: "u32 \<Rightarrow> addr \<Rightarrow> tstate \<Rightarrow> tstate" where
  "timer_add_unsafe t x s =
     (let delta = initial_timeout (tl_of s x);
          s = upd_tl x (\<lambda>l. l\<lparr>flags := flags l AND NOT F_TIMER_ON_SLOW_LIST, slow_idx := 0,
                              expire := t + delta, linked := True\<rparr>) s
      in s\<lparr>lst := timer_dist_tl (ex_of s) x delta (lst s)\<rparr>)"

definition timer_add_safe :: "addr \<Rightarrow> u32 \<Rightarrow> tstate \<Rightarrow> int \<times> tstate" where
  "timer_add_safe x delta s =
     (if IS_ACTIVE (tl_of s x) then (-1, s)
      else (let s = upd_tl x (\<lambda>l. l\<lparr>initial_timeout := delta\<rparr>) s in
            if linked (tl_of s x) then (-1, s)
            else (let s = upd_tl x (\<lambda>l. l\<lparr>flags := flags l OR F_TIMER_ACTIVE\<rparr>) s in
                  (0, timer_add_unsafe (ticks s) x s))))"

text \<open>Detaching a node from the list it is on, a list of the wheel or of the slow timer.\<close>

definition detach :: "addr \<Rightarrow> tstate \<Rightarrow> tstate" where
  "detach x s = s\<lparr>lst := timer_rm_list x (lst s),
     slow_timer_lists := (\<lambda>i. removeAll x (slow_timer_lists s i))\<rparr>"

text \<open>
  One pass of \<^verbatim>\<open>timer_del_safe\<close>: a return value, or another try after the processor was yielded to
  let the running handler end.  \<open>in_timer\<close> and \<open>in_slow\<close> say which process calls it.
\<close>

datatype del_result = Ret int | Again

definition timer_del_safe :: "bool \<Rightarrow> bool \<Rightarrow> addr \<Rightarrow> tstate \<Rightarrow> del_result \<times> tstate" where
  "timer_del_safe in_timer in_slow x s =
     (if \<not> IS_ACTIVE (tl_of s x) then (Ret (-1), s)
      else if IS_ON_SLOW_LIST (tl_of s x) \<and> slow_idx (tl_of s x) \<noteq> t_idx s then
        if running_timer2 s = x then (if in_slow then (Ret (-2), s) else (Again, s))
        else if linked (tl_of s x)
        then (Ret 0, upd_tl x (\<lambda>l. l\<lparr>linked := False\<rparr>) (detach x s))
        else (Ret (-1), s)
      else
        if running_timer s = x then (if in_timer then (Ret (-2), s) else (Again, s))
        else if linked (tl_of s x)
        then (Ret 0, upd_tl x (\<lambda>l. l\<lparr>linked := False\<rparr>) (detach x s))
        else (Ret (-1), s))"

definition timer_allow_del :: "bool \<Rightarrow> bool \<Rightarrow> tstate \<Rightarrow> tstate" where
  "timer_allow_del in_timer in_slow s =
     (if in_timer then s\<lparr>running_timer := 0\<rparr>
      else if in_slow then s\<lparr>running_timer2 := 0\<rparr>
      else s)"

text \<open>The call of a handler, and one round of the loop of \<^verbatim>\<open>timer_list_expire\<close>.\<close>

definition call_handler :: "timer_handler_f \<Rightarrow> u32 \<Rightarrow> addr \<Rightarrow> tstate \<Rightarrow> u32 \<times> tstate" where
  "call_handler f t x s = f t x (s\<lparr>calls := calls s @ [(t, x)]\<rparr>)"

definition expire_one :: "timer_handler_f \<Rightarrow> u32 \<Rightarrow> nat \<Rightarrow> 16 word \<Rightarrow> addr \<Rightarrow> tstate \<Rightarrow> tstate" where
  "expire_one f t i slow_mark x s =
     (let s = s\<lparr>lst := (lst s)\<lparr>expired := tl (expired (lst s))\<rparr>\<rparr> in
      if IS_FAST_TIMER (tl_of s x) then
        (let s = upd_tl x (\<lambda>l. l\<lparr>linked := False\<rparr>) (s\<lparr>running_timer := x\<rparr>);
             (ret, s) = call_handler f t x s
         in if ret = 0 then s\<lparr>running_timer := 0\<rparr>
            else (let s = (if ret \<noteq> -1 then upd_tl x (\<lambda>l. l\<lparr>initial_timeout := ret\<rparr>) s else s)
                  in (timer_add_unsafe t x s)\<lparr>running_timer := 0\<rparr>))
      else
        (let s = upd_tl x (\<lambda>l. l\<lparr>flags := flags l OR F_TIMER_ON_SLOW_LIST, slow_idx := slow_mark\<rparr>) s
         in s\<lparr>slow_timer_lists := (slow_timer_lists s)(i := slow_timer_lists s i @ [x])\<rparr>))"

partial_function (option) timer_list_expire ::
  "timer_handler_f \<Rightarrow> u32 \<Rightarrow> nat \<Rightarrow> 16 word \<Rightarrow> tstate \<Rightarrow> tstate option" where
  "timer_list_expire f t i slow_mark s =
     (case expired (lst s) of
        [] \<Rightarrow> Some s
      | x # _ \<Rightarrow> timer_list_expire f t i slow_mark (expire_one f t i slow_mark x s))"

text \<open>
  The loop over the missed ticks: called with \<open>prev + 1\<close>, it runs every tick up to and including
  \<open>saved\<close>.
\<close>

function timer_run_missed :: "(addr \<Rightarrow> u32) \<Rightarrow> u32 \<Rightarrow> u32 \<Rightarrow> wheel \<Rightarrow> wheel" where
  "timer_run_missed ex prev saved w =
     (if prev = saved then timer_run ex prev w
      else timer_run_missed ex (prev + 1) saved (timer_run ex prev w))"
  by pat_completeness auto
termination
proof (relation "measure (\<lambda>(ex, prev, saved, w). unat (saved - prev))")
  fix ex :: "addr \<Rightarrow> u32" and prev saved :: u32 and w :: wheel
  assume "prev \<noteq> saved"
  then have "unat (saved - prev) \<noteq> 0" by simp
  then have "unat (saved - (prev + 1)) < unat (saved - prev)"
    using unat_diff_step [of saved prev] by (simp del: unat_diff_0)
  then show "((ex, prev + 1, saved, timer_run ex prev w), ex, prev, saved, w)
      \<in> measure (\<lambda>(ex, prev, saved, w). unat (saved - prev))" by simp
qed simp

text \<open>One round of the loop of \<^verbatim>\<open>timer_handler\<close>, and whether it left the loop.\<close>

definition handler_pass :: "tstate \<Rightarrow> bool \<times> tstate" where
  "handler_pass s =
     (let saved_ticks = ticks s in
      if prev_ticks s \<ge> saved_ticks then (True, s\<lparr>prev_ticks := saved_ticks - 1\<rparr>)
      else (False, s\<lparr>lst := timer_run_missed (ex_of s) (prev_ticks s + 1) saved_ticks (lst s),
                     prev_ticks := saved_ticks\<rparr>))"

text \<open>\<open>ns\<close> gives for each round the number of timer signals that arrive during it.\<close>

fun handler_loop :: "nat list \<Rightarrow> tstate \<Rightarrow> tstate" where
  "handler_loop ns s =
     (let saved_ticks = ticks s; (left, s) = handler_pass s in
      if left then s
      else (case ns of [] \<Rightarrow> s
        | n # ns \<Rightarrow> (let s = (sig_timer ^^ n) s in
                     if saved_ticks \<noteq> ticks s then handler_loop ns s else s)))"

definition timer_handler :: "timer_handler_f \<Rightarrow> (int \<times> int) option \<Rightarrow> nat list \<Rightarrow> tstate \<Rightarrow> tstate option" where
  "timer_handler f now ns s =
     (let i = unat (t_idx s) mod SLOW_LISTS_NO;
          s = adjust_ticks now (s\<lparr>run_timer := False\<rparr>);
          s = handler_loop ns s
      in map_option (\<lambda>s.
           if slow_timer_lists s i \<noteq> [] then
             (let s = (if unat (t_idx s - s_idx s) < SLOW_LISTS_NO - 1 then s\<lparr>t_idx := t_idx s + 1\<rparr> else s)
              in s\<lparr>slow_signalled := True\<rparr>)
           else s)
         (timer_list_expire f (ticks s) i (t_idx s) s))"

definition timer_main_pass :: "timer_handler_f \<Rightarrow> (int \<times> int) option \<Rightarrow> nat list \<Rightarrow> tstate \<Rightarrow> tstate option" where
  "timer_main_pass f now ns s = (if run_timer s then timer_handler f now ns s else Some s)"

text \<open>The handler of the old style timers and their registration; \<open>x\<close> is the new timer link.\<close>

definition compat_old_handler :: "(u32 \<Rightarrow> tstate \<Rightarrow> tstate) \<Rightarrow> timer_handler_f" where
  "compat_old_handler timer_f ti x s = (-1, timer_f (TICKS_TO_S (ticks s)) s)"

definition register_timer :: "bool \<Rightarrow> addr \<Rightarrow> u32 \<Rightarrow> tstate \<Rightarrow> int \<times> tstate" where
  "register_timer mem_ok x interval s =
     (if \<not> mem_ok then (E_OUT_OF_MEM, s)
      else (let id = timer_id s;
                s = upd_tl x (\<lambda>_. timer_init 0) (s\<lparr>timer_id := timer_id s + 1\<rparr>);
                (r, s) = timer_add_safe x (S_TO_TICKS interval) s
            in if r \<noteq> 0 then (-1, s) else (id, s)))"

text \<open>The slow timer process after a wake-up, until it waits for the next signal.\<close>

definition slow_one :: "timer_handler_f \<Rightarrow> nat \<Rightarrow> addr \<Rightarrow> tstate \<Rightarrow> tstate" where
  "slow_one f i x s =
     (let s = s\<lparr>slow_timer_lists := (slow_timer_lists s)(i := tl (slow_timer_lists s i))\<rparr>;
          s = upd_tl x (\<lambda>l. l\<lparr>linked := False\<rparr>) s;
          s = s\<lparr>running_timer2 := x\<rparr>;
          (ret, s) = call_handler f (ticks s) x s
      in if ret = 0 then s\<lparr>running_timer2 := 0\<rparr>
         else (let s = upd_tl x (\<lambda>l. l\<lparr>flags := flags l AND NOT F_TIMER_ON_SLOW_LIST\<rparr>) s;
                   s = (if ret \<noteq> -1 then upd_tl x (\<lambda>l. l\<lparr>initial_timeout := ret\<rparr>) s else s)
               in (timer_add_unsafe (ticks s) x s)\<lparr>running_timer2 := 0\<rparr>))"

partial_function (option) slow_timer_run :: "timer_handler_f \<Rightarrow> tstate \<Rightarrow> tstate option" where
  "slow_timer_run f s =
     (if s_idx s = t_idx s then Some s
      else (let i = unat (s_idx s) mod SLOW_LISTS_NO in
            case slow_timer_lists s i of
              [] \<Rightarrow> slow_timer_run f (s\<lparr>s_idx := s_idx s + 1\<rparr>)
            | x # _ \<Rightarrow> slow_timer_run f (slow_one f i x s)))"

section \<open>Invariant\<close>

text \<open>
  Every timer is on at most one list, a timer on a list is marked linked, and the wheel is correct
  for the tick it was last run for.
\<close>

definition on_lists :: "tstate \<Rightarrow> addr multiset" where
  "on_lists s = pend (lst s) + mset (expired (lst s)) + slots SLOW_LISTS_NO (slow_timer_lists s)"

definition tinv :: "tstate \<Rightarrow> bool" where
  "tinv s \<longleftrightarrow> winv (ex_of s) (prev_ticks s) (lst s) \<and> (\<forall>x. count (on_lists s) x \<le> 1) \<and>
     (\<forall>x. x \<in># on_lists s \<longrightarrow> linked (tl_of s x))"

text \<open>A handler that only returns a value.\<close>

definition returns_only :: "(u32 \<Rightarrow> addr \<Rightarrow> u32) \<Rightarrow> timer_handler_f" where
  "returns_only r t x s = (r t x, s)"

text \<open>The delay with which a timer whose handler returned \<open>ret\<close> is added again.\<close>

definition next_timeout :: "u32 \<Rightarrow> timer_ln \<Rightarrow> u32" where
  "next_timeout ret l = (if ret = -1 then initial_timeout l else ret)"

section \<open>Lemmas\<close>

declare timer_run_missed.simps [simp del] handler_loop.simps [simp del]

subsection \<open>Missed ticks\<close>

lemma unat_diff_split:
  fixes a b e :: u32
  assumes "unat (b - a) \<le> unat (e - a)"
  shows "unat (e - b) = unat (e - a) - unat (b - a)"
proof -
  have "unat ((e - a) - (b - a)) = unat (e - a) - unat (b - a)"
    using assms by (intro unat_sub) (simp add: word_le_nat_alt)
  then show ?thesis by simp
qed

lemma timer_run_missed_ticks:
  "unat (saved - t) = Suc n \<Longrightarrow>
   timer_run_missed ex (t + 1) saved w = timer_queue.ticks_n (timer_run ex) (Suc n) t w"
proof (induction n arbitrary: t w)
  case 0
  then have "unat (saved - (t + 1)) = 0" using unat_diff_step [of saved t] by simp
  then have "saved = t + 1" by simp
  then show ?case
    by (subst timer_run_missed.simps) (simp add: timer_queue.ticks_n.simps [OF wq.timer_queue_axioms])
next
  case (Suc n)
  then have u: "unat (saved - (t + 1)) = Suc n" using unat_diff_step [of saved t] by simp
  then have "t + 1 \<noteq> saved" by auto
  then show ?case
    using Suc.IH [OF u, of "timer_run ex (t + 1) w"]
    by (subst timer_run_missed.simps) (simp add: timer_queue.ticks_n.simps [OF wq.timer_queue_axioms])
qed

lemma timer_run_missed_spec:
  assumes i: "winv ex prev w" and ne: "prev \<noteq> saved"
  defines "w' \<equiv> timer_run_missed ex (prev + 1) saved w"
  shows "winv ex saved w'"
    "pend w' = filter_mset (\<lambda>x. unat (saved - prev) < unat (ex x - prev)) (pend w)"
    "\<exists>ys. expired w' = expired w @ ys \<and> sorted (map (\<lambda>x. unat (ex x - prev)) ys) \<and>
       mset ys = filter_mset (\<lambda>x. unat (ex x - prev) \<le> unat (saved - prev)) (pend w)"
proof -
  have "unat (saved - prev) \<noteq> 0" using ne by simp
  then obtain n where n: "unat (saved - prev) = Suc n" using not0_implies_Suc by blast
  have l: "Suc n < 2 ^ 32" using n unat32_less [of "saved - prev"] by linarith
  have "of_nat (Suc n) = saved - prev" using n [symmetric] by simp
  then have e: "prev + of_nat (Suc n) = saved" by simp
  have w': "w' = timer_queue.ticks_n (timer_run ex) (Suc n) prev w"
    unfolding w'_def by (rule timer_run_missed_ticks [OF n])
  note r = wq.ticks_n_spec [OF i l, folded w']
  show "winv ex saved w'" using r unfolding e by blast
  show "pend w' = filter_mset (\<lambda>x. unat (saved - prev) < unat (ex x - prev)) (pend w)"
    using r unfolding n by blast
  show "\<exists>ys. expired w' = expired w @ ys \<and> sorted (map (\<lambda>x. unat (ex x - prev)) ys) \<and>
       mset ys = filter_mset (\<lambda>x. unat (ex x - prev) \<le> unat (saved - prev)) (pend w)"
    using r unfolding n by blast
qed

text \<open>The loop of the main timer, with timer signals arriving while it runs.\<close>

lemma sig_timer_pow:
  "ticks ((sig_timer ^^ n) s) = ticks s + of_nat n" "prev_ticks ((sig_timer ^^ n) s) = prev_ticks s"
  "lst ((sig_timer ^^ n) s) = lst s" "tl_of ((sig_timer ^^ n) s) = tl_of s"
  "slow_timer_lists ((sig_timer ^^ n) s) = slow_timer_lists s" "calls ((sig_timer ^^ n) s) = calls s"
  "t_idx ((sig_timer ^^ n) s) = t_idx s" "s_idx ((sig_timer ^^ n) s) = s_idx s"
  by (induction n) (simp_all add: sig_timer_def Let_def)

lemma unat_add_of_nat:
  "unat (t :: u32) + n < 2 ^ 32 \<Longrightarrow> unat (t + of_nat n) = unat t + n"
  by (simp add: unat_word_ariths(1) unsigned_of_nat take_bit_nat_eq_self)

definition same_but_wheel :: "tstate \<Rightarrow> tstate \<Rightarrow> bool" where
  "same_but_wheel s s' \<longleftrightarrow> tl_of s' = tl_of s \<and> slow_timer_lists s' = slow_timer_lists s \<and>
     calls s' = calls s \<and> t_idx s' = t_idx s \<and> s_idx s' = s_idx s"

text \<open>\<open>ran s s'\<close>: the wheel was run from the tick of \<open>s\<close> to the tick of \<open>s'\<close>.\<close>

definition ran :: "tstate \<Rightarrow> tstate \<Rightarrow> bool" where
  "ran s s' \<longleftrightarrow> winv (ex_of s) (prev_ticks s') (lst s') \<and>
     pend (lst s') = filter_mset (\<lambda>x. unat (prev_ticks s' - prev_ticks s) < unat (ex_of s x - prev_ticks s))
       (pend (lst s)) \<and>
     (\<exists>ys. expired (lst s') = expired (lst s) @ ys \<and>
       sorted (map (\<lambda>x. unat (ex_of s x - prev_ticks s)) ys) \<and>
       mset ys = filter_mset (\<lambda>x. unat (ex_of s x - prev_ticks s) \<le> unat (prev_ticks s' - prev_ticks s))
         (pend (lst s)))"

lemma handler_pass_ran:
  assumes "winv (ex_of s) (prev_ticks s) (lst s)" "prev_ticks s < ticks s"
  shows "\<exists>s'. handler_pass s = (False, s') \<and> ran s s' \<and> same_but_wheel s s' \<and>
    prev_ticks s' = ticks s \<and> ticks s' = ticks s"
proof -
  have ne: "prev_ticks s \<noteq> ticks s" using assms(2) by auto
  show ?thesis
    using timer_run_missed_spec [OF assms(1) ne] assms(2)
    by (simp add: handler_pass_def ran_def same_but_wheel_def Let_def not_le)
qed

lemma ran_trans:
  assumes r1: "ran s u" and r2: "ran u v" and t: "tl_of u = tl_of s"
    and le: "unat (prev_ticks u - prev_ticks s) \<le> unat (prev_ticks v - prev_ticks s)"
  shows "ran s v"
proof -
  let ?p = "prev_ticks s" and ?m = "prev_ticks u" and ?e = "ex_of s"
  let ?d = "\<lambda>x. unat (?e x - ?p)" and ?n = "unat (?m - ?p)" and ?k = "unat (prev_ticks v - ?p)"
  have split: "unat (?e x - ?m) = ?d x - ?n" if "?n < ?d x" for x
    using that by (intro unat_diff_split) simp
  have k: "unat (prev_ticks v - ?m) = ?k - ?n" by (rule unat_diff_split [OF le])
  obtain ys where y: "expired (lst u) = expired (lst s) @ ys" "sorted (map ?d ys)"
    "mset ys = filter_mset (\<lambda>x. ?d x \<le> ?n) (pend (lst s))" using r1 unfolding ran_def by blast
  obtain zs where z: "expired (lst v) = expired (lst u) @ zs" "sorted (map (\<lambda>x. unat (?e x - ?m)) zs)"
    "mset zs = filter_mset (\<lambda>x. unat (?e x - ?m) \<le> ?k - ?n) (pend (lst u))"
    using r2 unfolding ran_def t k by blast
  have pu: "pend (lst u) = filter_mset (\<lambda>x. ?n < ?d x) (pend (lst s))"
    using r1 unfolding ran_def by blast
  have pv: "pend (lst v) = filter_mset (\<lambda>x. ?k - ?n < unat (?e x - ?m)) (pend (lst u))"
    using r2 unfolding ran_def t k by blast
  have pv': "pend (lst v) = filter_mset (\<lambda>x. ?k < ?d x) (pend (lst s))"
    unfolding pv pu filter_filter_mset by (rule filter_mset_cong) (use split le in auto)
  have zs: "?n < ?d x" if "x \<in> set zs" for x
  proof -
    have "x \<in># mset zs" using that by simp
    then show ?thesis unfolding z(3) pu by simp
  qed
  have ys: "?d x \<le> ?n" if "x \<in> set ys" for x
  proof -
    have "x \<in># mset ys" using that by simp
    then show ?thesis unfolding y(3) by simp
  qed
  have "map ?d zs = map (\<lambda>k. k + ?n) (map (\<lambda>x. unat (?e x - ?m)) zs)"
    using split zs by fastforce
  then have "sorted (map ?d zs)" using sorted_shift [OF z(2), of ?n] by (simp only:)
  then have srt: "sorted (map ?d (ys @ zs))"
    using y(2) ys zs by (fastforce simp: sorted_append)
  have "mset (ys @ zs) = filter_mset (\<lambda>x. ?d x \<le> ?k) (pend (lst s))"
  proof (rule multiset_eqI)
    fix x
    show "count (mset (ys @ zs)) x = count (filter_mset (\<lambda>x. ?d x \<le> ?k) (pend (lst s))) x"
      unfolding mset_append y(3) z(3) pu filter_filter_mset count_union count_filter_mset
      using split [of x] le by (cases "?n < ?d x") auto
  qed
  moreover have "winv ?e (prev_ticks v) (lst v)" using r2 t by (simp add: ran_def)
  ultimately show ?thesis
    using pv' srt y(1) z(1) unfolding ran_def by (metis append_assoc)
qed

lemma handler_loop_ran:
  assumes "winv (ex_of s) (prev_ticks s) (lst s)" "prev_ticks s < ticks s"
    "unat (ticks s) + sum_list ns < 2 ^ 32"
  shows "ran s (handler_loop ns s) \<and> same_but_wheel s (handler_loop ns s) \<and>
    prev_ticks (handler_loop ns s) = ticks (handler_loop ns s) \<and>
    unat (ticks s) \<le> unat (ticks (handler_loop ns s)) \<and>
    unat (ticks (handler_loop ns s)) \<le> unat (ticks s) + sum_list ns"
  using assms
proof (induction ns arbitrary: s)
  case Nil
  from handler_pass_ran [OF Nil(1,2)] show ?case by (auto simp: handler_loop.simps [of "[]"] Let_def)
next
  case (Cons n ns)
  obtain u where u: "handler_pass s = (False, u)" "ran s u" "same_but_wheel s u"
    "prev_ticks u = ticks s" "ticks u = ticks s"
    using handler_pass_ran [OF Cons.prems(1,2)] by blast
  let ?v = "(sig_timer ^^ n) u"
  have step: "handler_loop (n # ns) s = (if ticks s \<noteq> ticks ?v then handler_loop ns ?v else ?v)"
    by (subst handler_loop.simps) (simp add: u(1) Let_def)
  have tv: "unat (ticks ?v) = unat (ticks s) + n"
    using Cons.prems(3) by (simp add: sig_timer_pow u(5) unat_add_of_nat)
  have rv: "ran s ?v" "same_but_wheel s ?v" "prev_ticks ?v = ticks s"
    using u by (simp_all add: ran_def same_but_wheel_def sig_timer_pow)
  show ?case
  proof (cases "ticks s = ticks ?v")
    case True
    then show ?thesis using rv step by simp
  next
    case False
    then have "n \<noteq> 0" using u(5) by (auto simp: sig_timer_pow intro: gr0I)
    then have lt: "prev_ticks ?v < ticks ?v" using tv rv(3) by (simp add: word_less_nat_alt)
    have tl: "tl_of ?v = tl_of s" using rv(2) by (simp add: same_but_wheel_def)
    have i: "winv (ex_of ?v) (prev_ticks ?v) (lst ?v)" using rv(1) tl by (simp add: ran_def)
    have b: "unat (ticks ?v) + sum_list ns < 2 ^ 32" using Cons.prems(3) tv by simp
    note IH = Cons.IH [OF i lt b]
    let ?z = "handler_loop ns ?v"
    have ord: "unat (prev_ticks s) < unat (ticks s)" "unat (ticks s) \<le> unat (ticks ?z)"
      using Cons.prems(2) IH tv by (simp_all add: word_less_nat_alt)
    have "unat (prev_ticks ?v - prev_ticks s) \<le> unat (prev_ticks ?z - prev_ticks s)"
      using ord rv(3) IH by (simp add: unat_sub word_le_nat_alt)
    then have "ran s ?z" using IH tl by (intro ran_trans [OF rv(1)]) auto
    then show ?thesis
      using IH rv(2) step False ord tv by (auto simp: same_but_wheel_def)
  qed
qed

subsection \<open>Adding and expiring timers\<close>

lemma on_lists_pend: "x \<in># pend (lst s) \<Longrightarrow> x \<in># on_lists s"
  "x \<in> set (expired (lst s)) \<Longrightarrow> x \<in># on_lists s"
  by (auto simp: on_lists_def)

lemma winv_upd:
  assumes "winv (ex_of s) t (lst s)" "x \<notin># pend (lst s)"
    "\<And>y. y \<noteq> x \<Longrightarrow> expire (tl_of s' y) = expire (tl_of s y)"
  shows "winv (ex_of s') t (lst s)"
  by (rule winv_cong [OF _ assms(1)]) (use assms(2,3) in metis)

lemma timer_add_unsafe_spec:
  assumes i: "winv (ex_of s) (prev_ticks s) (lst s)" and x: "x \<notin># pend (lst s)"
    and t: "t = prev_ticks s + of_nat lag" "lag \<le> 1"
    and d: "initial_timeout (tl_of s x) \<noteq> 0" "lag + unat (initial_timeout (tl_of s x)) < 2 ^ 32"
  defines "s' \<equiv> timer_add_unsafe t x s"
  shows "winv (ex_of s') (prev_ticks s') (lst s') \<and> pend (lst s') = pend (lst s) + {#x#} \<and>
    expired (lst s') = expired (lst s) \<and> expire (tl_of s' x) = t + initial_timeout (tl_of s x) \<and>
    linked (tl_of s' x) \<and> (\<forall>y. y \<noteq> x \<longrightarrow> tl_of s' y = tl_of s y)"
proof -
  let ?d = "initial_timeout (tl_of s x)"
  let ?u = "upd_tl x (\<lambda>l. l\<lparr>flags := flags l AND NOT F_TIMER_ON_SLOW_LIST, slow_idx := 0,
                              expire := t + ?d, linked := True\<rparr>) s"
  have s': "s' = ?u\<lparr>lst := timer_dist_tl (ex_of ?u) x ?d (lst s)\<rparr>"
    by (simp add: s'_def timer_add_unsafe_def Let_def)
  have "winv (ex_of ?u) (prev_ticks s) (lst s)" by (rule winv_upd [OF i x]) simp
  then have "winv (ex_of ?u) (prev_ticks s) (timer_dist_tl (ex_of ?u) x ?d (lst s))"
    by (rule dist_winv [of _ _ _ x lag]) (use t d in simp_all)
  then show ?thesis using d(1) by (simp add: s' dist_pend)
qed

lemma timer_add_unsafe_frame:
  "slow_timer_lists (timer_add_unsafe t x s) = slow_timer_lists s"
  "prev_ticks (timer_add_unsafe t x s) = prev_ticks s" "ticks (timer_add_unsafe t x s) = ticks s"
  "calls (timer_add_unsafe t x s) = calls s"
  "t_idx (timer_add_unsafe t x s) = t_idx s" "s_idx (timer_add_unsafe t x s) = s_idx s"
  by (simp_all add: timer_add_unsafe_def Let_def)

lemma timer_add_safe_spec:
  assumes i: "tinv s" and x: "\<not> IS_ACTIVE (tl_of s x)" "\<not> linked (tl_of s x)"
    and t: "ticks s = prev_ticks s + of_nat lag" "lag \<le> 1"
    and d: "delta \<noteq> 0" "lag + unat delta < 2 ^ 32"
  shows "\<exists>s'. timer_add_safe x delta s = (0, s') \<and> tinv s' \<and> pend (lst s') = pend (lst s) + {#x#} \<and>
    expire (tl_of s' x) = ticks s + delta \<and> expired (lst s') = expired (lst s)"
proof -
  let ?u = "upd_tl x (\<lambda>l. l\<lparr>initial_timeout := delta, flags := flags l OR F_TIMER_ACTIVE\<rparr>) s"
  let ?s = "timer_add_unsafe (ticks s) x ?u"
  have nx: "x \<notin># on_lists s" using i x(2) unfolding tinv_def by blast
  then have np: "x \<notin># pend (lst s)" using on_lists_pend by blast
  have w: "winv (ex_of ?u) (prev_ticks ?u) (lst ?u)"
    using winv_upd [of s "prev_ticks s" x ?u] i np by (simp add: tinv_def)
  have a: "winv (ex_of ?s) (prev_ticks ?s) (lst ?s) \<and> pend (lst ?s) = pend (lst ?u) + {#x#} \<and>
    expired (lst ?s) = expired (lst ?u) \<and> expire (tl_of ?s x) = ticks s + initial_timeout (tl_of ?u x) \<and>
    linked (tl_of ?s x) \<and> (\<forall>y. y \<noteq> x \<longrightarrow> tl_of ?s y = tl_of ?u y)"
    by (rule timer_add_unsafe_spec [OF w]) (use t d np in simp_all)
  have ol: "on_lists ?s = on_lists s + {#x#}"
    using a by (simp add: on_lists_def timer_add_unsafe_frame)
  have "tinv ?s"
    unfolding tinv_def ol using a i nx by (auto simp: tinv_def not_in_iff)
  moreover have "timer_add_safe x delta s = (0, ?s)"
    using x by (simp add: timer_add_safe_def Let_def)
  ultimately show ?thesis using a by auto
qed

text \<open>What one round of \<^verbatim>\<open>timer_list_expire\<close> does with the timer \<open>x\<close>, for handlers that only return.\<close>

definition again :: "(u32 \<Rightarrow> addr \<Rightarrow> u32) \<Rightarrow> u32 \<Rightarrow> tstate \<Rightarrow> addr \<Rightarrow> bool" where
  "again r t s x \<longleftrightarrow> IS_FAST_TIMER (tl_of s x) \<and> r t x \<noteq> 0"

definition expired_by :: "(u32 \<Rightarrow> addr \<Rightarrow> u32) \<Rightarrow> u32 \<Rightarrow> nat \<Rightarrow> addr list \<Rightarrow> tstate \<Rightarrow> tstate \<Rightarrow> bool" where
  "expired_by r t i xs s s' \<longleftrightarrow>
     prev_ticks s' = prev_ticks s \<and> ticks s' = ticks s \<and> t_idx s' = t_idx s \<and> s_idx s' = s_idx s \<and>
     calls s' = calls s @ map (Pair t) (filter (\<lambda>x. IS_FAST_TIMER (tl_of s x)) xs) \<and>
     slow_timer_lists s' = (slow_timer_lists s)
       (i := slow_timer_lists s i @ filter (\<lambda>x. \<not> IS_FAST_TIMER (tl_of s x)) xs) \<and>
     pend (lst s') = pend (lst s) + mset (filter (again r t s) xs) \<and>
     (\<forall>x\<in>set xs. again r t s x \<longrightarrow> expire (tl_of s' x) = t + next_timeout (r t x) (tl_of s x)) \<and>
     (\<forall>y. y \<notin> set xs \<longrightarrow> tl_of s' y = tl_of s y)"

lemma slots_app: "i < n \<Longrightarrow> slots n (f(i := f i @ xs)) = slots n f + mset xs"
  using slots_upd [of i n f "f i @ xs"] by (simp add: ac_simps)

lemma winv_expired: "winv ex t (w\<lparr>expired := xs\<rparr>) = winv ex t w" "pend (w\<lparr>expired := xs\<rparr>) = pend w"
  by (simp_all add: winv_def pend_def)

lemma expire_one_spec:
  fixes m :: "16 word"
  assumes inv: "tinv s" and e: "expired (lst s) = x # E" and t: "prev_ticks s = t" and i: "i < SLOW_LISTS_NO"
    and nz: "again r t s x \<Longrightarrow> next_timeout (r t x) (tl_of s x) \<noteq> 0"
  defines "s' \<equiv> expire_one (returns_only r) t i m x s"
  shows "tinv s' \<and> expired (lst s') = E \<and> expired_by r t i [x] s s'"
proof -
  let ?a = "s\<lparr>lst := (lst s)\<lparr>expired := E\<rparr>\<rparr>"
  have w: "winv (ex_of s) t (lst s)" and c: "\<And>y. count (on_lists s) y \<le> 1"
    and l: "\<And>y. y \<in># on_lists s \<Longrightarrow> linked (tl_of s y)"
    using inv t by (auto simp: tinv_def)
  have ol: "on_lists s = pend (lst s) + mset E + slots SLOW_LISTS_NO (slow_timer_lists s) + {#x#}"
    by (simp add: on_lists_def e)
  have "count (pend (lst s) + mset E + slots SLOW_LISTS_NO (slow_timer_lists s)) x = 0"
    using c [of x] unfolding ol by simp
  then have nx: "x \<notin># pend (lst s) + mset E + slots SLOW_LISTS_NO (slow_timer_lists s)"
    by (simp only: not_in_iff)
  have c': "count (pend (lst s) + mset E + slots SLOW_LISTS_NO (slow_timer_lists s)) y \<le> 1" for y
    using c [of y] unfolding ol count_union by linarith
  consider (slow) "\<not> IS_FAST_TIMER (tl_of s x)" | (once) "IS_FAST_TIMER (tl_of s x)" "r t x = 0"
    | (again) "again r t s x" by (auto simp: again_def)
  then show ?thesis
  proof cases
    case slow
    then have s': "s' = upd_tl x (\<lambda>l. l\<lparr>flags := flags l OR F_TIMER_ON_SLOW_LIST, slow_idx := m\<rparr>)
        (?a\<lparr>slow_timer_lists := (slow_timer_lists s)(i := slow_timer_lists s i @ [x])\<rparr>)"
      by (simp add: s'_def expire_one_def e Let_def)
    have "on_lists s' = on_lists s" by (simp add: s' on_lists_def winv_expired slots_app i e)
    moreover have "winv (ex_of s') t (lst s')"
      using winv_upd [OF w, of x s'] nx by (simp add: s' winv_expired)
    ultimately have "tinv s'" using c l t by (auto simp: tinv_def s')
    then show ?thesis using slow by (simp add: s' expired_by_def winv_expired again_def)
  next
    case once
    then have s': "s' = upd_tl x (\<lambda>l. l\<lparr>linked := False\<rparr>) (?a\<lparr>running_timer := 0, calls := calls s @ [(t, x)]\<rparr>)"
      by (simp add: s'_def expire_one_def call_handler_def returns_only_def e Let_def)
    have o: "on_lists s' = pend (lst s) + mset E + slots SLOW_LISTS_NO (slow_timer_lists s)"
      by (simp add: s' on_lists_def winv_expired)
    have "winv (ex_of s') t (lst s')" using winv_upd [OF w, of x s'] nx by (simp add: s' winv_expired)
    moreover have "linked (tl_of s' y)" if "y \<in># on_lists s'" for y
      using that nx l [of y] unfolding o ol by (auto simp: s')
    ultimately have "tinv s'" using c' t unfolding tinv_def o by (auto simp: s' o)
    then show ?thesis using once by (simp add: s' expired_by_def winv_expired again_def)
  next
    case again
    let ?n = "next_timeout (r t x) (tl_of s x)"
    let ?u = "upd_tl x (\<lambda>l. l\<lparr>linked := False, initial_timeout := ?n\<rparr>)
        (?a\<lparr>running_timer := x, calls := calls s @ [(t, x)]\<rparr>)"
    have s': "s' = (timer_add_unsafe t x ?u)\<lparr>running_timer := 0\<rparr>"
      using again e
      by (cases s) (simp add: s'_def expire_one_def call_handler_def returns_only_def Let_def again_def
          next_timeout_def)
    have wu: "winv (ex_of ?u) (prev_ticks ?u) (lst ?u)"
      using winv_upd [OF w, of x ?u] nx t by (simp add: winv_expired)
    let ?v = "timer_add_unsafe t x ?u"
    have v: "winv (ex_of ?v) (prev_ticks ?v) (lst ?v) \<and> pend (lst ?v) = pend (lst ?u) + {#x#} \<and>
      expired (lst ?v) = expired (lst ?u) \<and> expire (tl_of ?v x) = t + initial_timeout (tl_of ?u x) \<and>
      linked (tl_of ?v x) \<and> (\<forall>y. y \<noteq> x \<longrightarrow> tl_of ?v y = tl_of ?u y)"
      by (rule timer_add_unsafe_spec [OF wu, where lag = 0])
        (use nz [OF again] nx t unat32_less [of ?n] in \<open>simp_all add: winv_expired\<close>)
    have o: "on_lists s' = on_lists s"
      using v by (simp add: s' on_lists_def winv_expired timer_add_unsafe_frame e)
    have "linked (tl_of s' y)" if "y \<in># on_lists s" for y
      using that l [of y] v by (cases "y = x") (simp_all add: s')
    then have "tinv s'" using c v unfolding tinv_def o by (simp add: s')
    then show ?thesis
      using again v by (simp add: s' expired_by_def winv_expired timer_add_unsafe_frame again_def)
  qed
qed

lemma expired_by_Cons:
  assumes a: "expired_by r t i [x] s u" and b: "expired_by r t i E u v" and x: "x \<notin> set E"
  shows "expired_by r t i (x # E) s v"
proof -
  have tl: "tl_of u y = tl_of s y" if "y \<noteq> x" for y using a that by (simp add: expired_by_def)
  have y1: "tl_of u y = tl_of s y" if "y \<in> set E" for y
    using x that by (intro tl) auto
  then have y: "tl_of u y = tl_of s y" "again r t u y = again r t s y" if "y \<in> set E" for y
    using that by (simp_all add: again_def)
  have f: "filter (\<lambda>x. IS_FAST_TIMER (tl_of u x)) E = filter (\<lambda>x. IS_FAST_TIMER (tl_of s x)) E"
    "filter (\<lambda>x. \<not> IS_FAST_TIMER (tl_of u x)) E = filter (\<lambda>x. \<not> IS_FAST_TIMER (tl_of s x)) E"
    "filter (again r t u) E = filter (again r t s) E"
    by (rule filter_cong; simp add: y)+
  have "tl_of v x = tl_of u x" using b x by (simp add: expired_by_def)
  then have "\<forall>z\<in>set (x # E). again r t s z \<longrightarrow> expire (tl_of v z) = t + next_timeout (r t z) (tl_of s z)"
    using a b y by (auto simp: expired_by_def)
  moreover have "\<forall>z. z \<notin> set (x # E) \<longrightarrow> tl_of v z = tl_of s z" using b tl by (simp add: expired_by_def)
  ultimately show ?thesis
    using a b unfolding expired_by_def f by auto
qed

lemma timer_list_expire_spec:
  assumes "tinv s" "prev_ticks s = t" "i < SLOW_LISTS_NO" "expired (lst s) = E"
    "\<And>x. x \<in> set E \<Longrightarrow> again r t s x \<Longrightarrow> next_timeout (r t x) (tl_of s x) \<noteq> 0"
  shows "\<exists>s'. timer_list_expire (returns_only r) t i m s = Some s' \<and> tinv s' \<and>
    expired (lst s') = [] \<and> expired_by r t i E s s'"
  using assms
proof (induction E arbitrary: s)
  case Nil
  then show ?case by (subst timer_list_expire.simps) (simp add: expired_by_def)
next
  case (Cons x E)
  let ?u = "expire_one (returns_only r) t i m x s"
  have u: "tinv ?u" "expired (lst ?u) = E" "expired_by r t i [x] s ?u"
    using expire_one_spec [OF Cons.prems(1,4,2,3)] Cons.prems(5) by auto
  have "count (mset (expired (lst s))) y \<le> 1" for y
    using Cons.prems(1) unfolding tinv_def on_lists_def
    by (metis (no_types, lifting) count_union le_add2 le_trans add.commute add.assoc)
  then have x: "x \<notin> set E"
    using Cons.prems(4) by (metis count_mset_0_iff count_add_mset mset.simps(2) Suc_le_mono le_zero_eq One_nat_def)
  have "next_timeout (r t y) (tl_of ?u y) \<noteq> 0" if "y \<in> set E" "again r t ?u y" for y
  proof -
    have "tl_of ?u y = tl_of s y" using u(3) x that by (auto simp: expired_by_def)
    then show ?thesis using Cons.prems(5) [of y] that by (simp add: again_def)
  qed
  moreover have "prev_ticks ?u = t" using u(3) Cons.prems(2) by (simp add: expired_by_def)
  ultimately obtain v where v: "timer_list_expire (returns_only r) t i m ?u = Some v" "tinv v"
    "expired (lst v) = []" "expired_by r t i E ?u v"
    using Cons.IH [OF u(1) _ Cons.prems(3) u(2)] by blast
  moreover have "timer_list_expire (returns_only r) t i m s = timer_list_expire (returns_only r) t i m ?u"
    by (subst timer_list_expire.simps) (simp add: Cons.prems(4))
  ultimately show ?case using expired_by_Cons [OF u(3) v(4) x] by auto
qed

lemma adjust_ticks_frame:
  "tl_of (adjust_ticks now s) = tl_of s" "lst (adjust_ticks now s) = lst s"
  "prev_ticks (adjust_ticks now s) = prev_ticks s" "calls (adjust_ticks now s) = calls s"
  "slow_timer_lists (adjust_ticks now s) = slow_timer_lists s"
  "t_idx (adjust_ticks now s) = t_idx s" "s_idx (adjust_ticks now s) = s_idx s"
  by (simp_all add: adjust_ticks_def Let_def split: option.splits)

lemma ran_tinv:
  assumes "tinv s" "ran s s'" "same_but_wheel s s'"
  shows "tinv s'"
proof -
  obtain ys where y: "expired (lst s') = expired (lst s) @ ys"
    "mset ys = filter_mset (\<lambda>x. unat (ex_of s x - prev_ticks s) \<le> unat (prev_ticks s' - prev_ticks s))
         (pend (lst s))"
    using assms(2) unfolding ran_def by blast
  have "pend (lst s') + mset ys = pend (lst s)"
    using assms(2) y(2) unfolding ran_def
    by (metis (no_types, lifting) filter_mset_cong multiset_partition not_le union_commute)
  then have "on_lists s' = on_lists s"
    using y(1) assms(3) by (simp add: on_lists_def same_but_wheel_def ac_simps)
  then show ?thesis using assms by (simp add: tinv_def ran_def same_but_wheel_def)
qed

text \<open>The main timer, for handlers that only return.\<close>

lemma timer_handler_returns:
  assumes inv: "tinv s" and s0: "s0 = adjust_ticks now (s\<lparr>run_timer := False\<rparr>)"
    and t: "prev_ticks s < ticks s0" "unat (ticks s0) + sum_list ns < 2 ^ 32"
    and nz: "\<And>t x. r t x \<noteq> 0 \<Longrightarrow> next_timeout (r t x) (tl_of s x) \<noteq> 0"
  defines "u \<equiv> handler_loop ns s0" and "i \<equiv> unat (t_idx s) mod SLOW_LISTS_NO"
  shows "\<exists>v s'. timer_handler (returns_only r) now ns s = Some s' \<and> tinv s' \<and> expired (lst s') = [] \<and>
    ran s u \<and> same_but_wheel s u \<and> prev_ticks u = ticks u \<and> unat (ticks s0) \<le> unat (ticks u) \<and>
    unat (ticks u) \<le> unat (ticks s0) + sum_list ns \<and>
    expired_by r (ticks u) i (expired (lst u)) u v \<and>
    lst s' = lst v \<and> tl_of s' = tl_of v \<and> calls s' = calls v \<and> ticks s' = ticks v \<and>
    prev_ticks s' = prev_ticks v \<and> slow_timer_lists s' = slow_timer_lists v \<and> s_idx s' = s_idx v"
proof -
  have f: "tl_of s0 = tl_of s" "lst s0 = lst s" "prev_ticks s0 = prev_ticks s" "calls s0 = calls s"
    "slow_timer_lists s0 = slow_timer_lists s" "t_idx s0 = t_idx s" "s_idx s0 = s_idx s"
    by (simp_all add: s0 adjust_ticks_frame)
  have u: "ran s0 u" "same_but_wheel s0 u" "prev_ticks u = ticks u" "unat (ticks s0) \<le> unat (ticks u)"
    "unat (ticks u) \<le> unat (ticks s0) + sum_list ns"
    using handler_loop_ran [of s0 ns] inv t f unfolding u_def by (auto simp: tinv_def)
  have i: "i < SLOW_LISTS_NO" by (simp add: i_def SLOW_LISTS_NO_def)
  have "tinv s0" using inv f by (simp add: tinv_def on_lists_def)
  then have iu: "tinv u" by (rule ran_tinv [OF _ u(1,2)])
  have tu: "tl_of u = tl_of s" "t_idx u = t_idx s" using u(2) f by (simp_all add: same_but_wheel_def)
  obtain v where v: "timer_list_expire (returns_only r) (ticks u) i (t_idx u) u = Some v" "tinv v"
    "expired (lst v) = []" "expired_by r (ticks u) i (expired (lst u)) u v"
    using timer_list_expire_spec [OF iu u(3) i refl, of r "t_idx u"] nz tu by (auto simp: again_def)
  let ?g = "\<lambda>s. if slow_timer_lists s i \<noteq> [] then
      (if unat (t_idx s - s_idx s) < SLOW_LISTS_NO - 1 then s\<lparr>t_idx := t_idx s + 1\<rparr> else s)
        \<lparr>slow_signalled := True\<rparr> else s"
  have h: "timer_handler (returns_only r) now ns s = Some (?g v)"
    using v(1) by (simp add: timer_handler_def Let_def s0 [symmetric] u_def [symmetric] i_def [symmetric])
  have "ran s u" "same_but_wheel s u" using u f by (simp_all add: ran_def same_but_wheel_def)
  then show ?thesis
    using h u v by (intro exI [of _ v] exI [of _ "?g v"]) (simp add: tinv_def on_lists_def)
qed

lemma tinv_init:
  assumes "init_timer alloc rnd now = Inr s"
  shows "tinv s"
  using assms empty_wheel_winv
  by (auto simp: init_timer_def tinv_def on_lists_def slots_def empty_wheel_def split: if_splits option.splits)

lemma detach_tinv:
  assumes "tinv s"
  shows "tinv (upd_tl x (\<lambda>l. l\<lparr>linked := False\<rparr>) (detach x s))"
    "on_lists (detach x s) = filter_mset (\<lambda>y. x \<noteq> y) (on_lists s)"
proof -
  have sl: "slots n (\<lambda>i. removeAll x (f i)) = filter_mset (\<lambda>y. x \<noteq> y) (slots n f)" for n f
    by (induction n) (auto simp: slots_def removeAll_filter_not_eq)
  show o: "on_lists (detach x s) = filter_mset (\<lambda>y. x \<noteq> y) (on_lists s)"
    by (simp add: on_lists_def detach_def rm_pend sl) (simp add: timer_rm_list_def removeAll_filter_not_eq)
  let ?s = "upd_tl x (\<lambda>l. l\<lparr>linked := False\<rparr>) (detach x s)"
  have o': "on_lists ?s = filter_mset (\<lambda>y. x \<noteq> y) (on_lists s)" using o by (simp add: on_lists_def)
  have "winv (ex_of ?s) (prev_ticks s) (lst (detach x s))"
    by (rule winv_upd [of _ _ x])
      (use assms rm_winv [of "ex_of s"] in \<open>simp_all add: tinv_def detach_def rm_pend\<close>)
  then have "winv (ex_of ?s) (prev_ticks ?s) (lst ?s)" by (simp add: detach_def)
  then show "tinv ?s" using assms unfolding tinv_def o' by (auto simp: detach_def)
qed

subsection \<open>Runs that do not touch the upper levels\<close>

lemma timer_run_low:
  assumes "unat t mod 2 ^ 14 \<noteq> 0"
  shows "timer_run ex t w = timer_mv_expire (H0 (slot0 t)) w"
  using assms by (simp only: timer_run_eq if_False)

lemma mv_expire_pend:
  "pend (timer_mv_expire (H0 (slot0 t)) w) + mset (h0 w (slot0 t)) = pend w"
  "h0 (timer_mv_expire (H0 (slot0 t)) w) = (h0 w)(slot0 t := [])"
  "expired (timer_mv_expire (H0 (slot0 t)) w) = expired w @ h0 w (slot0 t)"
proof -
  let ?v = "w\<lparr>expired := expired w @ h0 w (slot0 t)\<rparr>"
  have e: "timer_mv_expire (H0 (slot0 t)) w = timer_init_list (H0 (slot0 t)) ?v"
    by (cases "h0 w (slot0 t) = []") (simp_all add: timer_mv_expire_def timer_init_list_def fun_upd_idem)
  have "pend ?v = pend w" by (simp add: pend_def)
  then show "pend (timer_mv_expire (H0 (slot0 t)) w) + mset (h0 w (slot0 t)) = pend w"
    using pend_init_list(1) [of t ?v] unfolding e by simp
  show "h0 (timer_mv_expire (H0 (slot0 t)) w) = (h0 w)(slot0 t := [])"
    "expired (timer_mv_expire (H0 (slot0 t)) w) = expired w @ h0 w (slot0 t)"
    unfolding e by (simp_all add: timer_init_list_def)
qed

lemma h0_grows:
  "set (h0 w i) \<subseteq> set (h0 (timer_dist_tl ex x d w) i)"
  "set (h0 w i) \<subseteq> set (h0 (timer_redist ex t (H1 j) w) i)"
  "set (h0 w i) \<subseteq> set (h0 (timer_redist ex t (H2 j) w) i)"
proof -
  show d: "set (h0 w i) \<subseteq> set (h0 (timer_dist_tl ex x d w) i)" for x d w
    by (auto simp: timer_dist_tl_eq timer_add_list_def)
  have f: "set (h0 w i) \<subseteq> set (h0 (foldl (\<lambda>w x. timer_dist_tl ex x (ex x - t) w) w L) i)" for L w
  proof (induction L arbitrary: w)
    case (Cons x L)
    show ?case using d [of w x "ex x - t"] Cons [of "timer_dist_tl ex x (ex x - t) w"] by auto
  qed simp
  show "set (h0 w i) \<subseteq> set (h0 (timer_redist ex t (H1 j) w) i)"
    "set (h0 w i) \<subseteq> set (h0 (timer_redist ex t (H2 j) w) i)"
    using f [of w "h1 w j"] f [of w "h2 w j"] by (simp_all add: timer_redist_def timer_init_list_def)
qed

lemma timer_run_fires_slot:
  assumes "x \<in> set (h0 w (slot0 t))"
  shows "x \<in> set (expired (timer_run ex t w))"
proof -
  let ?u = "if unat t mod 2 ^ 23 = 0 then timer_redist ex t (H2 (slot2 t)) w else w"
  let ?v = "if unat t mod 2 ^ 14 = 0 then timer_redist ex t (H1 (slot1 t)) ?u else w"
  have "x \<in> set (h0 ?u (slot0 t))"
    using assms subsetD [OF h0_grows(3) [of w "slot0 t" ex t "slot2 t"]] by (simp del: power_numeral)
  then have "x \<in> set (h0 ?v (slot0 t))"
    using assms subsetD [OF h0_grows(2) [of ?u "slot0 t" ex t "slot1 t"]] by (simp only: split: if_split) blast
  then show ?thesis unfolding timer_run_eq mv_expire_pend by simp
qed

subsection \<open>The slow timer\<close>

definition readd_ok :: "(u32 \<Rightarrow> addr \<Rightarrow> u32) \<Rightarrow> nat \<Rightarrow> tstate \<Rightarrow> bool" where
  "readd_ok r lag s \<longleftrightarrow> (\<forall>x. r (ticks s) x \<noteq> 0 \<longrightarrow>
     next_timeout (r (ticks s) x) (tl_of s x) \<noteq> 0 \<and>
     lag + unat (next_timeout (r (ticks s) x) (tl_of s x)) < 2 ^ 32)"

text \<open>What the slow timer leaves alone while it works off one list.\<close>

definition slow_frame :: "tstate \<Rightarrow> tstate \<Rightarrow> bool" where
  "slow_frame s s' \<longleftrightarrow> ticks s' = ticks s \<and> prev_ticks s' = prev_ticks s \<and> t_idx s' = t_idx s"

lemma slow_one_spec:
  assumes inv: "tinv s" and i: "i < SLOW_LISTS_NO" and L: "slow_timer_lists s i = x # L"
    and t: "ticks s = prev_ticks s + of_nat lag" "lag \<le> 1" and ok: "readd_ok r lag s"
  defines "s' \<equiv> slow_one (returns_only r) i x s"
  shows "tinv s' \<and> slow_timer_lists s' = (slow_timer_lists s)(i := L) \<and> slow_frame s s' \<and>
    s_idx s' = s_idx s \<and> calls s' = calls s @ [(ticks s, x)] \<and> readd_ok r lag s'"
proof -
  let ?r = "r (ticks s) x" and ?n = "next_timeout (r (ticks s) x) (tl_of s x)"
  let ?f = "(slow_timer_lists s)(i := L)"
  let ?rest = "pend (lst s) + mset (expired (lst s)) + slots SLOW_LISTS_NO ?f"
  have w: "winv (ex_of s) (prev_ticks s) (lst s)" and c: "\<And>y. count (on_lists s) y \<le> 1"
    and l: "\<And>y. y \<in># on_lists s \<Longrightarrow> linked (tl_of s y)" using inv by (auto simp: tinv_def)
  have "slots SLOW_LISTS_NO ?f + mset (x # L) = slots SLOW_LISTS_NO (slow_timer_lists s) + mset L"
    using slots_upd [OF i, of "slow_timer_lists s" L] L by simp
  then have "slots SLOW_LISTS_NO (slow_timer_lists s) = slots SLOW_LISTS_NO ?f + {#x#}"
    by (metis add.commute add_right_cancel mset.simps(2) union_mset_add_mset_right add_mset_add_single union_commute)
  then have ol: "on_lists s = ?rest + {#x#}" by (simp add: on_lists_def)
  have c0: "count ?rest x = 0" using c [of x] unfolding ol by simp
  then have nx: "x \<notin># ?rest" by (simp only: not_in_iff)
  have c': "count ?rest y \<le> 1" for y using c [of y] unfolding ol count_union by linarith
  show ?thesis
  proof (cases "?r = 0")
    case True
    then have s': "s' = s\<lparr>slow_timer_lists := ?f, tl_of := (tl_of s)(x := (tl_of s x)\<lparr>linked := False\<rparr>),
        calls := calls s @ [(ticks s, x)], running_timer2 := 0\<rparr>"
      using L by (cases s) (simp add: s'_def slow_one_def call_handler_def returns_only_def Let_def)
    have o: "on_lists s' = ?rest" by (simp add: s' on_lists_def)
    have "winv (ex_of s') (prev_ticks s) (lst s)" by (rule winv_upd [OF w, of x]) (use nx in \<open>simp_all add: s'\<close>)
    moreover have "linked (tl_of s' y)" if "y \<in># ?rest" for y
      using that nx l [of y] unfolding ol by (auto simp: s')
    ultimately have "tinv s'" using c' unfolding tinv_def o by (simp add: s')
    moreover have "next_timeout (r (ticks s) y) (tl_of s' y) = next_timeout (r (ticks s) y) (tl_of s y)" for y
      by (simp add: s' next_timeout_def)
    then have "readd_ok r lag s'" using ok unfolding readd_ok_def by (simp add: s')
    ultimately show ?thesis by (simp add: s' slow_frame_def)
  next
    case False
    let ?u = "s\<lparr>slow_timer_lists := ?f, tl_of := (tl_of s)(x := (tl_of s x)\<lparr>linked := False,
        flags := flags (tl_of s x) AND NOT F_TIMER_ON_SLOW_LIST, initial_timeout := ?n\<rparr>),
        calls := calls s @ [(ticks s, x)], running_timer2 := x\<rparr>"
    have s': "s' = (timer_add_unsafe (ticks s) x ?u)\<lparr>running_timer2 := 0\<rparr>"
      using L False
      by (cases s) (simp add: s'_def slow_one_def call_handler_def returns_only_def Let_def next_timeout_def)
    have wu: "winv (ex_of ?u) (prev_ticks ?u) (lst ?u)"
      using winv_upd [OF w, of x ?u] nx by simp
    let ?v = "timer_add_unsafe (ticks s) x ?u"
    have v: "winv (ex_of ?v) (prev_ticks ?v) (lst ?v) \<and> pend (lst ?v) = pend (lst ?u) + {#x#} \<and>
      expired (lst ?v) = expired (lst ?u) \<and> expire (tl_of ?v x) = ticks s + initial_timeout (tl_of ?u x) \<and>
      linked (tl_of ?v x) \<and> (\<forall>y. y \<noteq> x \<longrightarrow> tl_of ?v y = tl_of ?u y)"
      by (rule timer_add_unsafe_spec [OF wu, where lag = lag])
        (use nx t ok False in \<open>simp_all add: readd_ok_def\<close>)
    have o: "on_lists s' = on_lists s"
      unfolding ol using v by (simp add: s' on_lists_def timer_add_unsafe_frame)
    have "linked (tl_of s' y)" if "y \<in># on_lists s" for y
      using that l [of y] v by (cases "y = x") (simp_all add: s')
    then have "tinv s'" using c v unfolding tinv_def o by (simp add: s')
    moreover have ix: "initial_timeout (tl_of s' x) = ?n"
      by (simp add: s' timer_add_unsafe_def Let_def)
    have ty: "tl_of s' y = tl_of s y" if "y \<noteq> x" for y using v that by (simp add: s')
    have "next_timeout (r (ticks s) y) (tl_of s' y) = next_timeout (r (ticks s) y) (tl_of s y)" for y
      using ix ty [of y] by (cases "y = x") (simp_all add: next_timeout_def split: if_splits)
    then have "readd_ok r lag s'" using ok by (simp add: readd_ok_def s' timer_add_unsafe_frame)
    ultimately show ?thesis by (simp add: s' slow_frame_def timer_add_unsafe_frame)
  qed
qed

lemma slow_list_spec:
  assumes "tinv s" "i = unat (s_idx s) mod SLOW_LISTS_NO" "s_idx s \<noteq> t_idx s" "slow_timer_lists s i = L"
    "ticks s = prev_ticks s + of_nat lag" "lag \<le> 1" "readd_ok r lag s"
  shows "\<exists>s'. slow_timer_run (returns_only r) s = slow_timer_run (returns_only r) s' \<and> tinv s' \<and>
    slow_timer_lists s' = (slow_timer_lists s)(i := []) \<and> slow_frame s s' \<and>
    s_idx s' = s_idx s + 1 \<and> calls s' = calls s @ map (Pair (ticks s)) L \<and> readd_ok r lag s'"
  using assms
proof (induction L arbitrary: s)
  case Nil
  let ?s = "s\<lparr>s_idx := s_idx s + 1\<rparr>"
  have "slow_timer_run (returns_only r) s = slow_timer_run (returns_only r) ?s"
    using Nil by (subst slow_timer_run.simps) (simp add: Let_def)
  then show ?case
    using Nil by (intro exI [of _ ?s]) (simp add: tinv_def on_lists_def slow_frame_def readd_ok_def fun_upd_idem)
next
  case (Cons x L)
  have i: "i < SLOW_LISTS_NO" using Cons.prems(2) by (simp add: SLOW_LISTS_NO_def)
  let ?u = "slow_one (returns_only r) i x s"
  have u: "tinv ?u" "slow_timer_lists ?u = (slow_timer_lists s)(i := L)" "slow_frame s ?u"
    "s_idx ?u = s_idx s" "calls ?u = calls s @ [(ticks s, x)]" "readd_ok r lag ?u"
    using slow_one_spec [OF Cons.prems(1) i Cons.prems(4-7)] by auto
  have f: "ticks ?u = ticks s" "prev_ticks ?u = prev_ticks s" "t_idx ?u = t_idx s"
    using u(3) by (simp_all add: slow_frame_def)
  have "slow_timer_run (returns_only r) s = slow_timer_run (returns_only r) ?u"
    using Cons.prems by (subst slow_timer_run.simps) (simp add: Let_def)
  moreover have "\<exists>s'. slow_timer_run (returns_only r) ?u = slow_timer_run (returns_only r) s' \<and> tinv s' \<and>
    slow_timer_lists s' = (slow_timer_lists ?u)(i := []) \<and> slow_frame ?u s' \<and>
    s_idx s' = s_idx ?u + 1 \<and> calls s' = calls ?u @ map (Pair (ticks ?u)) L \<and> readd_ok r lag s'"
    by (rule Cons.IH) (use u f Cons.prems in simp_all)
  then obtain v where v: "slow_timer_run (returns_only r) ?u = slow_timer_run (returns_only r) v" "tinv v"
    "slow_timer_lists v = (slow_timer_lists ?u)(i := [])" "slow_frame ?u v" "s_idx v = s_idx ?u + 1"
    "calls v = calls ?u @ map (Pair (ticks ?u)) L" "readd_ok r lag v" by blast
  ultimately show ?case using u f by (intro exI [of _ v]) (simp add: slow_frame_def)
qed

lemma slow_idx_add: "unat (a + of_nat k :: 16 word) mod SLOW_LISTS_NO = (unat a + k) mod SLOW_LISTS_NO"
proof -
  have "unat (a + of_nat k) = (unat a + k) mod 2 ^ 16"
    by (simp add: unat_word_ariths unsigned_of_nat take_bit_eq_mod mod_add_right_eq)
  then show ?thesis by (simp add: SLOW_LISTS_NO_def mod_mod_cancel)
qed

lemma slow_idx_neq:
  assumes "k < n" "n < SLOW_LISTS_NO"
  shows "(a + Suc k) mod SLOW_LISTS_NO \<noteq> a mod SLOW_LISTS_NO"
proof
  assume "(a + Suc k) mod SLOW_LISTS_NO = a mod SLOW_LISTS_NO"
  then have "(a + Suc k) mod SLOW_LISTS_NO = (a + 0) mod SLOW_LISTS_NO" by simp
  then have "Suc k mod SLOW_LISTS_NO = 0 mod SLOW_LISTS_NO" by (rule nat_mod_add_cancel)
  then show False using assms by simp
qed

abbreviation slow_todo :: "tstate \<Rightarrow> nat \<Rightarrow> addr list" where
  "slow_todo s n \<equiv> concat (map (\<lambda>k. slow_timer_lists s ((unat (s_idx s) + k) mod SLOW_LISTS_NO)) [0..<n])"

lemma slow_timer_run_spec:
  assumes "tinv s" "unat (t_idx s - s_idx s) = n" "n < SLOW_LISTS_NO"
    "ticks s = prev_ticks s + of_nat lag" "lag \<le> 1" "readd_ok r lag s"
  shows "\<exists>s'. slow_timer_run (returns_only r) s = Some s' \<and> tinv s' \<and> s_idx s' = t_idx s \<and> slow_frame s s' \<and>
    calls s' = calls s @ map (Pair (ticks s)) (slow_todo s n) \<and>
    (\<forall>i. slow_timer_lists s' i =
       (if \<exists>k<n. i = (unat (s_idx s) + k) mod SLOW_LISTS_NO then [] else slow_timer_lists s i))"
  using assms
proof (induction n arbitrary: s)
  case 0
  then have "t_idx s - s_idx s = 0" by (metis unat_eq_0)
  then show ?case using 0 by (subst slow_timer_run.simps) (simp add: slow_frame_def)
next
  case (Suc n)
  let ?i = "unat (s_idx s) mod SLOW_LISTS_NO"
  have ne: "s_idx s \<noteq> t_idx s" using Suc.prems(2) by auto
  obtain u where u: "slow_timer_run (returns_only r) s = slow_timer_run (returns_only r) u" "tinv u"
    "slow_timer_lists u = (slow_timer_lists s)(?i := [])" "slow_frame s u" "s_idx u = s_idx s + 1"
    "calls u = calls s @ map (Pair (ticks s)) (slow_timer_lists s ?i)" "readd_ok r lag u"
    using slow_list_spec [OF Suc.prems(1) refl ne refl Suc.prems(4-6)] by blast
  have f: "ticks u = ticks s" "prev_ticks u = prev_ticks s" "t_idx u = t_idx s"
    using u(4) by (simp_all add: slow_frame_def)
  have "unat (t_idx s - s_idx s - 1) = unat (t_idx s - s_idx s) - 1"
    by (rule unat_minus_one) (use ne in simp)
  then have n: "unat (t_idx u - s_idx u) = n" using Suc.prems(2) f u(5) by (simp add: diff_diff_eq)
  have ix: "(unat (s_idx u) + k) mod SLOW_LISTS_NO = (unat (s_idx s) + Suc k) mod SLOW_LISTS_NO" for k
    using slow_idx_add [of "s_idx u" k] slow_idx_add [of "s_idx s" "Suc k"] u(5) by (simp add: add.assoc)
  have td: "slow_todo s (Suc n) = slow_timer_lists s ?i @ slow_todo u n"
  proof -
    have m: "map (\<lambda>k. slow_timer_lists u ((unat (s_idx u) + k) mod SLOW_LISTS_NO)) [0..<n] =
        map (\<lambda>k. slow_timer_lists s ((unat (s_idx s) + Suc k) mod SLOW_LISTS_NO)) [0..<n]"
      using Suc.prems(3) slow_idx_neq [of _ n "unat (s_idx s)"] unfolding ix u(3) by simp
    show ?thesis unfolding m by (simp add: upt_conv_Cons map_Suc_upt [symmetric] o_def del: upt_Suc)
  qed
  obtain v where v: "slow_timer_run (returns_only r) u = Some v" "tinv v" "s_idx v = t_idx u" "slow_frame u v"
    "calls v = calls u @ map (Pair (ticks u)) (slow_todo u n)"
    "\<forall>i. slow_timer_lists v i = (if \<exists>k<n. i = (unat (s_idx u) + k) mod SLOW_LISTS_NO then []
       else slow_timer_lists u i)"
    using Suc.IH [OF u(2) n _ _ Suc.prems(5) u(7)] Suc.prems(3,4) f by auto
  have "slow_timer_lists v i = (if \<exists>k<Suc n. i = (unat (s_idx s) + k) mod SLOW_LISTS_NO then []
      else slow_timer_lists s i)" for i
    using v(6) [rule_format, of i] u(3) unfolding ix by (auto simp: less_Suc_eq_0_disj)
  then show ?case
    using u v td f by (intro exI [of _ v]) (simp add: slow_frame_def)
qed

text \<open>A small state: the fast timer 5, added at tick 0 for tick 3, which has come.\<close>

definition start_state :: tstate where
  "start_state = \<lparr>tl_of = (\<lambda>_. timer_init F_TIMER_FAST), lst = empty_wheel, ticks = 0, prev_ticks = 0,
     last_ticks = 0, last_adj_check = 0, last_time = (0, 0), run_timer = False, running_timer = 0,
     slow_timer_lists = (\<lambda>_. []), t_idx = 0, s_idx = 0, running_timer2 = 0, timer_id = 0,
     slow_signalled = False, calls = []\<rparr>"

definition example_state :: tstate where
  "example_state = (snd (timer_add_safe 5 3 start_state))\<lparr>ticks := 3\<rparr>"

lemma timer_init_flags:
  "\<not> IS_ACTIVE (timer_init F_TIMER_FAST)" "IS_FAST_TIMER (timer_init F_TIMER_FAST)"
  "\<not> linked (timer_init F_TIMER_FAST)"
  by (simp_all add: IS_ACTIVE_def IS_FAST_TIMER_def timer_init_def timer_reinit_def F_TIMER_FAST_def
      F_TIMER_ACTIVE_def F_TIMER_ON_SLOW_LIST_def)

lemma start_tinv: "tinv start_state"
  using empty_wheel_winv by (simp add: start_state_def tinv_def on_lists_def slots_def empty_wheel_def)

lemma example_add:
  "\<exists>s'. timer_add_safe 5 3 start_state = (0, s') \<and> tinv s' \<and> pend (lst s') = {#5#} \<and>
    expire (tl_of s' 5) = 3 \<and> expired (lst s') = []"
proof -
  have "\<exists>s'. timer_add_safe 5 3 start_state = (0, s') \<and> tinv s' \<and>
    pend (lst s') = pend (lst start_state) + {#5#} \<and>
    expire (tl_of s' 5) = ticks start_state + 3 \<and> expired (lst s') = expired (lst start_state)"
    by (rule timer_add_safe_spec [OF start_tinv, where lag = 0])
      (simp_all add: start_state_def timer_init_flags)
  then show ?thesis using empty_wheel_winv(2) by (simp add: start_state_def empty_wheel_def)
qed

lemma example_facts:
  "tinv example_state" "pend (lst example_state) = {#5#}" "expire (tl_of example_state 5) = 3"
  "expired (lst example_state) = []"
  using example_add by (auto simp: example_state_def tinv_def on_lists_def)

lemma example_frame:
  "prev_ticks example_state = 0" "ticks example_state = 3" "last_adj_check example_state = 0"
  "calls example_state = []" "IS_FAST_TIMER (tl_of example_state 5)"
  using timer_init_flags(1,3)
  by (simp_all add: example_state_def timer_add_safe_def timer_add_unsafe_def start_state_def Let_def)
    (simp add: IS_FAST_TIMER_def timer_init_def timer_reinit_def F_TIMER_FAST_def
      F_TIMER_ON_SLOW_LIST_def F_TIMER_ACTIVE_def)

lemma adjust_ticks_due:
  assumes "ticks s - last_adj_check s \<ge> TIMER_RESYNC_TICKS" "tv_usecs tv \<ge> tv_usecs (last_time s)"
  shows "adjust_ticks (Some tv) s =
    (let s1 = s\<lparr>last_adj_check := ticks s\<rparr>;
         delta = sint (word_of_int ((tv_usecs tv - tv_usecs (last_time s)) * 16 div 1000000) -
           (ticks s - last_ticks s) :: u32)
     in if delta < -1 then s1\<lparr>last_time := tv, last_ticks := ticks s\<rparr>
        else if delta > 1 then s1\<lparr>ticks := ticks s + word_of_int delta\<rparr> else s1)"
proof -
  have hz: "uint TIMER_TICKS_HZ = 16" "sint TIMER_MAX_DRIFT = 1"
    by (simp_all add: TIMER_TICKS_HZ_def TIMER_MAX_DRIFT_def)
  show ?thesis
    unfolding adjust_ticks_def Let_def hz using assms
    by (simp del: left_diff_distrib_numeral right_diff_distrib_numeral)
qed

lemma start_frame:
  "ticks start_state = 0" "last_ticks start_state = 0" "last_adj_check start_state = 0"
  "last_time start_state = (0, 0)" "prev_ticks start_state = 0" "t_idx start_state = 0"
  "s_idx start_state = 0" "calls start_state = []" "slow_timer_lists start_state = (\<lambda>_. [])"
  by (simp_all add: start_state_def)

section \<open>Properties\<close>

text \<open>C2: Running the wheel for all ticks missed since it was last run, up to \<open>saved\<close>, moves
  exactly the waiting timers whose expiry lies in that interval to the list of expired timers, in
  the order of their expiry, whatever the tick counter does (it may wrap); all other timers stay in
  the wheel, which is again correct for the new tick: no timer is lost, late or early.\<close>

theorem wheel_expires_exactly:
  assumes "winv ex prev w" "prev \<noteq> saved"
  shows "winv ex saved (timer_run_missed ex (prev + 1) saved w) \<and>
    pend (timer_run_missed ex (prev + 1) saved w) =
      filter_mset (\<lambda>x. unat (saved - prev) < unat (ex x - prev)) (pend w) \<and>
    (\<exists>ys. expired (timer_run_missed ex (prev + 1) saved w) = expired w @ ys \<and>
       sorted (map (\<lambda>x. unat (ex x - prev)) ys) \<and>
       mset ys = filter_mset (\<lambda>x. unat (ex x - prev) \<le> unat (saved - prev)) (pend w))"
  using timer_run_missed_spec [OF assms] by blast

theorem wheel_expires_exactly_witness:
  "winv (\<lambda>_. 4) (-1) (timer_dist_tl (\<lambda>_. 4) 7 5 empty_wheel) \<and>
   expired (timer_run_missed (\<lambda>_. 4) 0 4 (timer_dist_tl (\<lambda>_. 4) 7 5 empty_wheel)) = [7] \<and>
   expired (timer_run_missed (\<lambda>_. 4) 0 3 (timer_dist_tl (\<lambda>_. 4) 7 5 empty_wheel)) = []"
proof -
  let ?w = "timer_dist_tl (\<lambda>_. 4) 7 5 empty_wheel"
  have i: "winv (\<lambda>_. 4) (-1) ?w"
    by (rule dist_winv [OF empty_wheel_winv(1), where lag = 0]) simp_all
  have p: "pend ?w = {#7#}" "expired ?w = []"
    using empty_wheel_winv(2) by (simp_all add: dist_pend) (simp add: empty_wheel_def)
  show ?thesis
    using i p wheel_expires_exactly [OF i, of 4] wheel_expires_exactly [OF i, of 3] by simp
qed

text \<open>C3: The main timer.  Whenever the tick counter is ahead of the last run (and does not wrap),
  one run of \<^verbatim>\<open>timer_handler\<close>, with any number of timer signals arriving while it runs, terminates
  for handlers that only return a value (and no zero delay), leaves no expired timer behind and no
  tick missed, calls the handlers of exactly the fast timers that are due, once each and in the
  order of expiry, hands the slow ones in the same order to the slow timer's list, and puts back
  exactly the timers whose handler asked for it, with the new expiry; the invariant is kept.\<close>

theorem timer_handler_spec:
  assumes "tinv s" "s0 = adjust_ticks now (s\<lparr>run_timer := False\<rparr>)" "prev_ticks s < ticks s0"
    "unat (ticks s0) + sum_list ns < 2 ^ 32"
    "\<And>t x. r t x \<noteq> 0 \<Longrightarrow> next_timeout (r t x) (tl_of s x) \<noteq> 0"
  shows "\<exists>s' E ys. timer_handler (returns_only r) now ns s = Some s' \<and> tinv s' \<and>
    expired (lst s') = [] \<and> prev_ticks s' = ticks s' \<and> unat (ticks s0) \<le> unat (ticks s') \<and>
    unat (ticks s') \<le> unat (ticks s0) + sum_list ns \<and>
    E = expired (lst s) @ ys \<and> sorted (map (\<lambda>x. unat (ex_of s x - prev_ticks s)) ys) \<and>
    mset ys = filter_mset (\<lambda>x. unat (ex_of s x - prev_ticks s) \<le> unat (ticks s' - prev_ticks s)) (pend (lst s)) \<and>
    calls s' = calls s @ map (Pair (ticks s')) (filter (\<lambda>x. IS_FAST_TIMER (tl_of s x)) E) \<and>
    slow_timer_lists s' = (slow_timer_lists s)(unat (t_idx s) mod SLOW_LISTS_NO :=
      slow_timer_lists s (unat (t_idx s) mod SLOW_LISTS_NO) @ filter (\<lambda>x. \<not> IS_FAST_TIMER (tl_of s x)) E) \<and>
    pend (lst s') = filter_mset (\<lambda>x. unat (ticks s' - prev_ticks s) < unat (ex_of s x - prev_ticks s))
      (pend (lst s)) + mset (filter (again r (ticks s') s) E) \<and>
    (\<forall>x\<in>set E. again r (ticks s') s x \<longrightarrow>
       expire (tl_of s' x) = ticks s' + next_timeout (r (ticks s') x) (tl_of s x))"
proof -
  let ?u = "handler_loop ns s0" and ?i = "unat (t_idx s) mod SLOW_LISTS_NO"
  obtain v s' where *: "timer_handler (returns_only r) now ns s = Some s'" "tinv s'" "expired (lst s') = []"
    "ran s ?u" "same_but_wheel s ?u" "prev_ticks ?u = ticks ?u"
    "unat (ticks s0) \<le> unat (ticks ?u) \<and> unat (ticks ?u) \<le> unat (ticks s0) + sum_list ns"
    "expired_by r (ticks ?u) ?i (expired (lst ?u)) ?u v" "lst s' = lst v" "tl_of s' = tl_of v"
    "calls s' = calls v" "ticks s' = ticks v" "prev_ticks s' = prev_ticks v"
    "slow_timer_lists s' = slow_timer_lists v"
    using timer_handler_returns [OF assms(1-4), of r] assms(5) by blast
  obtain ys where y: "expired (lst ?u) = expired (lst s) @ ys"
    "sorted (map (\<lambda>x. unat (ex_of s x - prev_ticks s)) ys)"
    "mset ys = filter_mset (\<lambda>x. unat (ex_of s x - prev_ticks s) \<le> unat (ticks ?u - prev_ticks s)) (pend (lst s))"
    using *(4,6) unfolding ran_def by auto
  have t: "ticks v = ticks ?u" "prev_ticks v = ticks ?u" using *(6,8) by (simp_all add: expired_by_def)
  have tl: "tl_of ?u = tl_of s" "calls ?u = calls s" "slow_timer_lists ?u = slow_timer_lists s"
    using *(5) by (simp_all add: same_but_wheel_def)
  have a: "again r (ticks ?u) ?u = again r (ticks ?u) s" using tl by (intro ext) (simp add: again_def)
  have p: "pend (lst ?u) = filter_mset (\<lambda>x. unat (ticks ?u - prev_ticks s) < unat (ex_of s x - prev_ticks s)) (pend (lst s))"
    using *(4,6) by (simp add: ran_def)
  note e = *(8) [unfolded expired_by_def tl a p]
  show ?thesis
    using * y t e by (intro exI [of _ s'] exI [of _ "expired (lst ?u)"] exI [of _ ys]) simp
qed

theorem timer_handler_spec_witness:
  "\<exists>s'. timer_handler (returns_only (\<lambda>_ _. 0)) None [] example_state = Some s' \<and>
     calls s' = [(3, 5)] \<and> pend (lst s') = {#} \<and> tinv s'"
proof -
  let ?s0 = "adjust_ticks None (example_state\<lparr>run_timer := False\<rparr>)"
  have t: "ticks ?s0 = 3"
    by (simp add: adjust_ticks_def example_frame TIMER_RESYNC_TICKS_def TIMER_TICKS_HZ_def)
  have "prev_ticks example_state < ticks ?s0" "unat (ticks ?s0) + sum_list [] < 2 ^ 32"
    unfolding t by (simp_all add: example_frame)
  from timer_handler_spec [OF example_facts(1) refl this, of "\<lambda>_ _. 0"]
  obtain s' ys where s': "timer_handler (returns_only (\<lambda>_ _. 0)) None [] example_state = Some s'" "tinv s'"
    "unat (ticks s') = 3"
    "mset ys = filter_mset (\<lambda>x. unat (ex_of example_state x) \<le> unat (ticks s')) {#5#}"
    "calls s' = map (Pair (ticks s')) (filter (\<lambda>x. IS_FAST_TIMER (tl_of example_state x)) ys)"
    "pend (lst s') = filter_mset (\<lambda>x. unat (ticks s') < unat (ex_of example_state x)) {#5#} + {#}"
    unfolding t by (auto simp: example_facts example_frame again_def)
  have "ticks s' = 3" using s'(3) by (simp add: word_unat_eq_iff)
  moreover have "ys = [5]" using s'(3,4) by (simp add: example_facts)
  ultimately show ?thesis using s' by (auto simp: example_facts example_frame)
qed

text \<open>C27: A timer added while the wheel is at most one tick behind the tick counter is accepted,
  waits in the wheel exactly until \<open>delta\<close> ticks after the addition, and the invariant is kept.\<close>

theorem timer_add_keeps:
  assumes "tinv s" "\<not> IS_ACTIVE (tl_of s x)" "\<not> linked (tl_of s x)"
    "ticks s = prev_ticks s + of_nat lag" "lag \<le> 1" "delta \<noteq> 0" "lag + unat delta < 2 ^ 32"
  shows "\<exists>s'. timer_add_safe x delta s = (0, s') \<and> tinv s' \<and> pend (lst s') = pend (lst s) + {#x#} \<and>
    expire (tl_of s' x) = ticks s + delta \<and> expired (lst s') = expired (lst s)"
  by (rule timer_add_safe_spec [OF assms])

theorem timer_add_keeps_witness:
  "\<exists>s'. timer_add_safe 5 3 start_state = (0, s') \<and> tinv s' \<and> pend (lst s') = {#5#} \<and>
     expire (tl_of s' 5) = 3"
proof -
  have "\<exists>s'. timer_add_safe 5 3 start_state = (0, s') \<and> tinv s' \<and>
    pend (lst s') = pend (lst start_state) + {#5#} \<and>
    expire (tl_of s' 5) = ticks start_state + 3 \<and> expired (lst s') = expired (lst start_state)"
    by (rule timer_add_keeps [OF start_tinv, where lag = 0]) (simp_all add: start_state_def timer_init_flags)
  moreover have "pend (lst start_state) = {#}" "ticks start_state = 0"
    using empty_wheel_winv(2) by (simp_all add: start_state_def)
  ultimately show ?thesis by auto
qed

text \<open>\<^verbatim>\<open>timer_add\<close> chooses the slot by the delay from the tick counter, while the wheel still
  stands at the last tick run.  When the wheel is two or more ticks behind, a timer whose delay is
  just below the span of the first level lands in a slot that is visited at the very next tick: it
  expires \<open>2 ^ 14\<close> ticks early.\<close>

theorem timer_add_lag_early:
  assumes "\<not> IS_ACTIVE (tl_of s x)" "\<not> linked (tl_of s x)" "ticks s = prev_ticks s + of_nat lag"
    "2 \<le> lag" "lag \<le> 2 ^ 14" "delta = of_nat (2 ^ 14 + 1 - lag)"
  shows "\<exists>s'. timer_add_safe x delta s = (0, s') \<and>
    unat (expire (tl_of s' x) - (prev_ticks s + 1)) = 2 ^ 14 \<and>
    x \<in> set (expired (timer_run (ex_of s') (prev_ticks s + 1) (lst s')))"
proof -
  let ?s = "snd (timer_add_safe x delta s)" and ?t = "prev_ticks s + 1"
  have d: "unat delta = 2 ^ 14 + 1 - lag"
    unfolding assms(6) unsigned_of_nat by (simp add: take_bit_nat_eq_self)
  then have d0: "delta \<noteq> 0" and lt: "unat delta < 2 ^ 14" using assms(4,5) by auto
  have e: "expire (tl_of ?s x) = ?t + 2 ^ 14"
  proof -
    have "of_nat lag + delta = (of_nat (lag + (2 ^ 14 + 1 - lag)) :: u32)" using assms(6) by simp
    also have "\<dots> = 2 ^ 14 + 1" using assms(5) by simp
    finally show ?thesis
      using assms(1-3) by (simp add: timer_add_safe_def timer_add_unsafe_def Let_def add.assoc)
  qed
  have sl: "slot0 (?t + 2 ^ 14) = slot0 ?t"
    using unat_diff_mod [of "2 ^ 14" ?t "?t + 2 ^ 14"] by (simp add: dvd_def)
  have "x \<in> set (h0 (lst ?s) (slot0 (expire (tl_of ?s x))))"
    using assms(1,2) lt d0
    by (simp add: timer_add_safe_def timer_add_unsafe_def Let_def timer_dist_tl_eq timer_add_list_def)
  then have "x \<in> set (expired (timer_run (ex_of ?s) ?t (lst ?s)))"
    unfolding e sl by (rule timer_run_fires_slot)
  moreover have "timer_add_safe x delta s = (0, ?s)"
    using assms(1,2) by (simp add: timer_add_safe_def Let_def)
  ultimately show ?thesis using e by auto
qed

theorem timer_add_lag_early_witness:
  "\<exists>s'. timer_add_safe 5 16383 (start_state\<lparr>ticks := 2\<rparr>) = (0, s') \<and>
     unat (expire (tl_of s' 5) - 1) = 2 ^ 14 \<and>
     5 \<in> set (expired (timer_run (ex_of s') 1 (lst s')))"
proof -
  let ?s = "start_state\<lparr>ticks := 2\<rparr>"
  have p: "prev_ticks ?s = 0" by (simp add: start_state_def)
  have "\<exists>s'. timer_add_safe 5 16383 ?s = (0, s') \<and>
    unat (expire (tl_of s' 5) - (prev_ticks ?s + 1)) = 2 ^ 14 \<and>
    5 \<in> set (expired (timer_run (ex_of s') (prev_ticks ?s + 1) (lst s')))"
    by (rule timer_add_lag_early [where lag = 2]) (simp_all add: start_state_def timer_init_flags)
  then show ?thesis unfolding p by simp
qed

text \<open>The test for time running backwards compares tick values without regard to wrapping:
  when the tick counter wraps from \<open>0xFFFFFFFF\<close> to 0, the runs at the ticks 0 and 1 are skipped as
  if time stood still, and the run at tick 2 resumes with tick 1.  Tick 0 is never run, so that a
  timer that expires at tick 0 is still waiting afterwards.\<close>

theorem tick_zero_skipped:
  assumes "tinv s" "prev_ticks s = -1" "ticks s = 0" "x \<in># pend (lst s)" "expire (tl_of s x) = 0"
  shows "let s1 = handler_loop [] s; s2 = handler_loop [] (sig_timer s1);
             s3 = handler_loop [] (sig_timer s2) in
    prev_ticks s3 = 2 \<and> lst s1 = lst s \<and> lst s2 = lst s \<and>
    lst s3 = timer_run (ex_of s) 2 (timer_run (ex_of s) 1 (lst s)) \<and> x \<in># pend (lst s3)"
proof -
  let ?s1 = "handler_loop [] s" and ?e = "ex_of s" and ?w = "lst s"
  let ?s2 = "handler_loop [] (sig_timer ?s1)"
  let ?s3 = "handler_loop [] (sig_timer ?s2)"
  have s1: "?s1 = s\<lparr>prev_ticks := -1\<rparr>"
    using assms(2,3) by (simp add: handler_loop.simps handler_pass_def Let_def)
  have s2: "?s2 = s\<lparr>prev_ticks := 0, ticks := 1, run_timer := True\<rparr>"
    unfolding s1 using assms(2,3)
    by (cases s) (simp add: handler_loop.simps handler_pass_def sig_timer_def TIMER_HANDLER_INTERVAL_def Let_def)
  have r: "timer_run_missed ?e 1 2 ?w = timer_run ?e 2 (timer_run ?e 1 ?w)"
    by (subst timer_run_missed.simps, simp, subst timer_run_missed.simps, simp)
  have s3: "lst ?s3 = timer_run ?e 2 (timer_run ?e 1 ?w)" "prev_ticks ?s3 = 2"
    unfolding s2 r [symmetric]
    by (simp_all add: handler_loop.simps handler_pass_def sig_timer_def TIMER_HANDLER_INTERVAL_def Let_def)
  let ?w1 = "timer_mv_expire (H0 (slot0 1)) ?w" and ?w2 = "timer_mv_expire (H0 (slot0 2)) (timer_mv_expire (H0 (slot0 1)) ?w)"
  have l: "timer_run ?e 2 (timer_run ?e 1 ?w) = ?w2"
    by (subst (1 2) timer_run_low) simp_all
  have i: "x \<in> set (h0 ?w j) \<Longrightarrow> j = 0" for j
    using assms(1,5) unfolding tinv_def winv_def lvl_def by fastforce
  have "x \<in># pend ?w1"
    using assms(4) mv_expire_pend(1) [of 1 ?w] i [of "slot0 1"] by (metis set_mset_mset union_iff unsigned_1 zero_neq_one mod_less one_less_numeral_iff one_less_power semiring_norm(76) zero_less_numeral)
  moreover have "x \<notin> set (h0 ?w1 (slot0 2))"
    using i [of "slot0 2"] unfolding mv_expire_pend(2) by auto
  ultimately have "x \<in># pend ?w2"
    using mv_expire_pend(1) [of 2 ?w1] by (metis set_mset_mset union_iff)
  then show ?thesis using s1 s2 s3 l by (simp add: Let_def)
qed

theorem tick_zero_skipped_witness:
  "\<exists>s. prev_ticks s = -1 \<and> ticks s = 0 \<and> expire (tl_of s 5) = 0 \<and> pend (lst s) = {#5#} \<and>
     5 \<in># pend (lst (handler_loop [] (sig_timer (handler_loop [] (sig_timer (handler_loop [] s))))))"
proof -
  let ?a = "start_state\<lparr>prev_ticks := -1, ticks := -1\<rparr>"
  have t: "tinv ?a" using empty_wheel_winv by (simp add: start_state_def tinv_def on_lists_def slots_def empty_wheel_def)
  have "\<exists>s'. timer_add_safe 5 1 ?a = (0, s') \<and> tinv s' \<and> pend (lst s') = pend (lst ?a) + {#5#} \<and>
    expire (tl_of s' 5) = ticks ?a + 1 \<and> expired (lst s') = expired (lst ?a)"
    by (rule timer_add_safe_spec [OF t, where lag = 0]) (simp_all add: start_state_def timer_init_flags)
  then obtain b where b: "timer_add_safe 5 1 ?a = (0, b)" "tinv b" "pend (lst b) = {#5#}" "expire (tl_of b 5) = 0"
    using empty_wheel_winv(2) by (auto simp: start_state_def)
  have p: "prev_ticks b = -1"
    using b(1) timer_init_flags by (auto simp: timer_add_safe_def Let_def start_state_def timer_add_unsafe_frame)
  let ?s = "b\<lparr>ticks := 0\<rparr>"
  have i: "tinv ?s" using b(2) by (simp add: tinv_def on_lists_def)
  have q: "prev_ticks ?s = -1" "ticks ?s = 0" "5 \<in># pend (lst ?s)" "expire (tl_of ?s 5) = 0"
    using b p by simp_all
  have "5 \<in># pend (lst (handler_loop [] (sig_timer (handler_loop [] (sig_timer (handler_loop [] ?s))))))"
    using tick_zero_skipped [OF i q, unfolded Let_def] by blast
  then show ?thesis using b p by (intro exI [of _ ?s]) simp
qed

text \<open>C28: Deleting a timer.  One pass of \<^verbatim>\<open>timer_del\<close> either takes the timer off whatever list it
  is on (result 0: it is then on no list, so its handler is not called), or changes nothing: -1 for
  a timer that is not active or on no list, -2 for a handler deleting its own timer, another try
  while its handler runs in another process.  The invariant is kept.\<close>

theorem timer_del_spec:
  assumes "tinv s" "timer_del_safe in_timer in_slow x s = (res, s')"
  shows "tinv s' \<and>
    (if res = Ret 0 then x \<notin># on_lists s' \<and> on_lists s' = filter_mset (\<lambda>y. x \<noteq> y) (on_lists s) \<and>
       IS_ACTIVE (tl_of s x) \<and> \<not> linked (tl_of s' x)
     else s' = s \<and> (res = Ret (-1) \<and> (\<not> IS_ACTIVE (tl_of s x) \<or> x \<notin># on_lists s) \<or>
       res = Ret (-2) \<and> (in_timer \<and> running_timer s = x \<or> in_slow \<and> running_timer2 s = x) \<or>
       res = Again \<and> (\<not> in_timer \<and> running_timer s = x \<or> \<not> in_slow \<and> running_timer2 s = x)))"
proof -
  have l: "\<not> linked (tl_of s x) \<Longrightarrow> x \<notin># on_lists s" using assms(1) by (auto simp: tinv_def)
  let ?d = "upd_tl x (\<lambda>l. l\<lparr>linked := False\<rparr>) (detach x s)"
  have d: "tinv ?d" "on_lists ?d = filter_mset (\<lambda>y. x \<noteq> y) (on_lists s)"
    using detach_tinv [OF assms(1), of x] by (simp_all add: on_lists_def)
  show ?thesis
    using assms l d unfolding timer_del_safe_def by (auto split: if_splits)
qed

theorem timer_del_spec_witness:
  "\<exists>s'. timer_del_safe False False 5 example_state = (Ret 0, s') \<and> tinv s' \<and> 5 \<notin># on_lists s'"
proof -
  have a: "IS_ACTIVE (tl_of example_state 5)" "\<not> IS_ON_SLOW_LIST (tl_of example_state 5)"
    "linked (tl_of example_state 5)" "running_timer example_state = 0"
    using timer_init_flags(1,3)
    by (simp_all add: example_state_def timer_add_safe_def timer_add_unsafe_def start_state_def Let_def)
      (simp_all add: IS_ACTIVE_def IS_ON_SLOW_LIST_def timer_init_def timer_reinit_def F_TIMER_FAST_def
        F_TIMER_ON_SLOW_LIST_def F_TIMER_ACTIVE_def)
  then obtain s' where "timer_del_safe False False 5 example_state = (Ret 0, s')"
    by (simp add: timer_del_safe_def)
  then show ?thesis using timer_del_spec [OF example_facts(1)] by auto
qed

text \<open>Resynchronising the tick counter: when the real time since the last synchronisation is
  \<open>R\<close> ticks and less than \<open>2 ^ 31\<close>, the counter is never decreased, and afterwards it is at most one
  tick off the real time, or (when the counter runs ahead) the reference point has been moved to
  now.\<close>

theorem adjust_ticks_sync:
  assumes "ticks s - last_adj_check s \<ge> TIMER_RESYNC_TICKS"
    and R: "R = (tv_usecs tv - tv_usecs (last_time s)) * 16 div 1000000" "0 \<le> R" "R < 2 ^ 31"
    and d: "tv_usecs tv \<ge> tv_usecs (last_time s)" and n: "unat (ticks s - last_ticks s) < 2 ^ 31"
  shows "let s' = adjust_ticks (Some tv) s in
    unat (ticks s - last_ticks s) \<le> unat (ticks s' - last_ticks s) \<and>
    (if last_ticks s' = last_ticks s \<and> last_time s' = last_time s
     then \<bar>R - int (unat (ticks s' - last_ticks s'))\<bar> \<le> 1
     else last_time s' = tv \<and> last_ticks s' = ticks s \<and> ticks s' = ticks s)"
proof -
  let ?n = "unat (ticks s - last_ticks s)"
  let ?delta = "sint (word_of_int R - (ticks s - last_ticks s) :: u32)"
  have e: "(word_of_int R - (ticks s - last_ticks s) :: u32) = word_of_int (R - int ?n)" by simp
  have sint: "sint (word_of_int k :: u32) = k" if "- (2 ^ 31) \<le> k" "k < 2 ^ 31" for k
    using that by (simp add: signed_of_int signed_take_bit_int_eq_self)
  have delta: "?delta = R - int ?n"
  proof -
    have "int ?n < int (2 ^ 31)" using n by (simp only: of_nat_less_iff)
    then have "0 \<le> int ?n" "int ?n < 2 ^ 31" by simp_all
    then show ?thesis unfolding e using R(2,3) by (intro sint) linarith+
  qed
  define N where "N = int ?n"
  have a: "adjust_ticks (Some tv) s =
    (let s1 = s\<lparr>last_adj_check := ticks s\<rparr>
     in if R - N < -1 then s1\<lparr>last_time := tv, last_ticks := ticks s\<rparr>
        else if R - N > 1 then s1\<lparr>ticks := ticks s + word_of_int (R - N)\<rparr> else s1)"
    unfolding adjust_ticks_due [OF assms(1) d] R(1) [symmetric] Let_def delta N_def ..
  show ?thesis
  proof (cases "R - N > 1")
    case True
    then have s': "adjust_ticks (Some tv) s =
        s\<lparr>last_adj_check := ticks s, ticks := ticks s + word_of_int (R - N)\<rparr>"
      unfolding a Let_def by simp
    have "ticks s + word_of_int (R - N) - last_ticks s = word_of_int R" by (simp add: N_def)
    moreover have "unat (word_of_int R :: u32) = nat R"
      using R(2,3) by (simp add: unsigned_of_int take_bit_int_eq_self)
    ultimately have u: "unat (ticks s + word_of_int (R - N) - last_ticks s) = nat R" by (simp only:)
    have "int (nat R) > N" using True R(2) by simp
    then have "?n \<le> nat R" unfolding N_def by (simp only: of_nat_less_iff)
    then show ?thesis unfolding s' Let_def using u R(2) by simp
  next
    case False
    then show ?thesis using R(2) unfolding a Let_def N_def by auto
  qed
qed

theorem adjust_ticks_sync_witness:
  "let s' = adjust_ticks (Some (6, 0)) (start_state\<lparr>ticks := 80\<rparr>) in ticks s' = 96 \<and>
     \<bar>96 - int (unat (ticks s' - last_ticks s'))\<bar> \<le> 1"
proof -
  let ?s = "start_state\<lparr>ticks := 80\<rparr>"
  note f = start_frame
  have "let s' = adjust_ticks (Some (6, 0)) ?s in
    unat (ticks ?s - last_ticks ?s) \<le> unat (ticks s' - last_ticks ?s) \<and>
    (if last_ticks s' = last_ticks ?s \<and> last_time s' = last_time ?s
     then \<bar>96 - int (unat (ticks s' - last_ticks s'))\<bar> \<le> 1
     else last_time s' = (6, 0) \<and> last_ticks s' = ticks ?s \<and> ticks s' = ticks ?s)"
    by (rule adjust_ticks_sync)
      (simp_all add: f tv_usecs_def TIMER_RESYNC_TICKS_def TIMER_TICKS_HZ_def)
  moreover have "adjust_ticks (Some (6, 0)) ?s = ?s\<lparr>last_adj_check := 80, ticks := 96\<rparr>"
    by (simp add: adjust_ticks_def f tv_usecs_def TIMER_RESYNC_TICKS_def TIMER_TICKS_HZ_def
        TIMER_MAX_DRIFT_def Let_def)
  ultimately show ?thesis by (simp add: Let_def f)
qed

text \<open>The library's clock: as long as fewer than 4294968 ticks (about three days) have passed
  since the last synchronisation, \<^verbatim>\<open>ser_gettimeofday\<close> denotes the time of the synchronisation plus
  the elapsed ticks, to the millisecond; the microsecond field is below two seconds but not
  normalised below one second.\<close>

theorem ser_gettimeofday_spec:
  assumes "unat (ticks s - last_ticks s) < 4294968"
  shows "tv_usecs (ser_gettimeofday s) =
      tv_usecs (last_time s) + int (unat (ticks s - last_ticks s) * 1000 div 16) * 1000 \<and>
    snd (last_time s) \<le> snd (ser_gettimeofday s) \<and> snd (ser_gettimeofday s) < snd (last_time s) + 1000000"
proof -
  define d where "d = ticks s - last_ticks s"
  let ?n = "unat d"
  have "unat (d * 1000) = ?n * 1000"
    using assms by (simp add: unat_word_ariths d_def [symmetric])
  then have ms: "unat (TICKS_TO_MS d) = ?n * 1000 div 16"
    by (simp add: TICKS_TO_MS_def TIMER_TICKS_HZ_def unat_div)
  have "unat (TICKS_TO_MS d mod 1000) = ?n * 1000 div 16 mod 1000"
    unfolding unat_mod_distrib ms by simp
  then have us: "unat ((TICKS_TO_MS d mod 1000) * 1000) = (?n * 1000 div 16 mod 1000) * 1000"
    by (simp add: unat_word_ariths)
  have sc: "unat (TICKS_TO_S d) = ?n div 16"
    by (simp add: TICKS_TO_S_def TIMER_TICKS_HZ_def unat_div)
  have "?n div 16 = ?n * 1000 div 16 div 1000" by (simp add: div_mult2_eq [symmetric])
  then have "?n div 16 * 1000 + ?n * 1000 div 16 mod 1000 = ?n * 1000 div 16" by simp
  then have t: "int (?n div 16) * 1000 + int (?n * 1000 div 16 mod 1000) = int (?n * 1000 div 16)"
    by (metis of_nat_add of_nat_mult of_nat_numeral)
  have u: "uint w = int (unat w)" for w :: u32 by simp
  have g: "ser_gettimeofday s = (fst (last_time s) + int (?n div 16),
      snd (last_time s) + int (?n * 1000 div 16 mod 1000) * 1000)"
    unfolding ser_gettimeofday_def u d_def [symmetric] us sc by simp
  have "int (?n * 1000 div 16 mod 1000) < 1000" by simp
  then show ?thesis unfolding g tv_usecs_def d_def [symmetric] using t by (simp del: of_nat_mod of_nat_div)
qed

theorem ser_gettimeofday_spec_witness:
  "tv_usecs (ser_gettimeofday (start_state\<lparr>ticks := 24\<rparr>)) = 1500000"
proof -
  let ?s = "start_state\<lparr>ticks := 24\<rparr>"
  have "unat (ticks ?s - last_ticks ?s) < 4294968" by (simp add: start_frame)
  from ser_gettimeofday_spec [OF this] show ?thesis by (simp add: start_frame tv_usecs_def)
qed

text \<open>Beyond that the product in \<^verbatim>\<open>TICKS_TO_MS\<close> exceeds 32 bits: 4294968 ticks after the last
  synchronisation \<^verbatim>\<open>ser_gettimeofday\<close> is 456 milliseconds off.\<close>

theorem ser_gettimeofday_overflow:
  "tv_usecs (ser_gettimeofday (s\<lparr>ticks := last_ticks s + 4294968\<rparr>)) =
     tv_usecs (last_time s) + (4294968 * 1000 div 16) * 1000 - 456000"
proof -
  have "TICKS_TO_MS 4294968 = 44"
    unfolding TICKS_TO_MS_def TIMER_TICKS_HZ_def by simp
  moreover have "TICKS_TO_S 4294968 = 268435"
    unfolding TICKS_TO_S_def TIMER_TICKS_HZ_def by simp
  ultimately show ?thesis by (simp add: ser_gettimeofday_def tv_usecs_def)
qed

text \<open>C26: The slow timer.  After a wake-up it terminates (for handlers that only return) having
  called the handlers of all timers on the lists between its own index and the main timer's, list by
  list and in order, and emptied exactly these lists; timers whose handler asked for it are back in
  the wheel, and the invariant is kept.\<close>

theorem slow_timer_spec:
  assumes "tinv s" "unat (t_idx s - s_idx s) = n" "n < SLOW_LISTS_NO"
    "ticks s = prev_ticks s + of_nat lag" "lag \<le> 1" "readd_ok r lag s"
  shows "\<exists>s'. slow_timer_run (returns_only r) s = Some s' \<and> tinv s' \<and> s_idx s' = t_idx s \<and> t_idx s' = t_idx s \<and>
    calls s' = calls s @ map (Pair (ticks s))
      (concat (map (\<lambda>k. slow_timer_lists s ((unat (s_idx s) + k) mod SLOW_LISTS_NO)) [0..<n])) \<and>
    (\<forall>i. slow_timer_lists s' i =
       (if \<exists>k<n. i = (unat (s_idx s) + k) mod SLOW_LISTS_NO then [] else slow_timer_lists s i))"
  using slow_timer_run_spec [OF assms] by (auto simp: slow_frame_def)

theorem slow_timer_spec_witness:
  "\<exists>s s'. t_idx s = 1 \<and> slow_timer_lists s 0 = [7] \<and> slow_timer_run (returns_only (\<lambda>_ _. 0)) s = Some s' \<and>
     calls s' = [(0, 7)] \<and> slow_timer_lists s' 0 = []"
proof -
  let ?s = "start_state\<lparr>slow_timer_lists := (\<lambda>_. [])(0 := [7]), t_idx := 1,
    tl_of := (tl_of start_state)(7 := (tl_of start_state 7)\<lparr>linked := True\<rparr>)\<rparr>"
  have "slots SLOW_LISTS_NO ((\<lambda>_. [])(0 := [7])) = {#7#}"
    using slots_app [of 0 SLOW_LISTS_NO "\<lambda>_. []" "[7]"] by (simp add: SLOW_LISTS_NO_def slots_def)
  then have i: "tinv ?s"
    using empty_wheel_winv by (simp add: start_state_def tinv_def on_lists_def empty_wheel_def)
  have "unat (t_idx ?s - s_idx ?s) = 1" "(1::nat) < SLOW_LISTS_NO" "ticks ?s = prev_ticks ?s + of_nat 0"
    "(0::nat) \<le> 1" "readd_ok (\<lambda>_ _. 0) 0 ?s"
    by (simp_all add: start_frame SLOW_LISTS_NO_def readd_ok_def)
  from slow_timer_spec [OF i this] obtain s' where
    "slow_timer_run (returns_only (\<lambda>_ _. 0)) ?s = Some s'" "calls s' = [(0, 7)]" "slow_timer_lists s' 0 = []"
    by (auto simp: start_frame SLOW_LISTS_NO_def)
  then show ?thesis by (intro exI [of _ ?s] exI [of _ s']) simp
qed

end
