(* ===== verification/BitScan.thy ===== *)
theory BitScan
  imports SerPrelude
begin

text \<open>
  Finding the first and the last set bit of a word, \<^verbatim>\<open>src/sip_router/bit_scan.h\<close> and
  \<^verbatim>\<open>bit_scan.c\<close>: the reference loops, the branching versions and the versions with a de Bruijn
  sequence, for 32 and 64 bits.  The memory allocator searches its bitmap with them.
\<close>

section \<open>Definitions\<close>

subsection \<open>The reference loops\<close>

text \<open>The loop variable \<open>r\<close> counts up (down) while \<open>v\<close> is shifted.\<close>

fun forward_loop :: "nat \<Rightarrow> nat \<Rightarrow> 'a::len word \<Rightarrow> nat" where
  "forward_loop 0 r v = 0"
| "forward_loop (Suc n) r v = (if v AND 1 \<noteq> 0 then r else forward_loop n (r + 1) (drop_bit 1 v))"

fun reverse_loop :: "nat \<Rightarrow> 'a::len word \<Rightarrow> nat" where
  "reverse_loop 0 v = 0"
| "reverse_loop (Suc r) v =
     (if v AND push_bit (LENGTH('a) - 1) 1 \<noteq> 0 then Suc r else reverse_loop r (push_bit 1 v))"

definition bit_scan_forward_slow32 :: "32 word \<Rightarrow> nat" where
  "bit_scan_forward_slow32 v = forward_loop 32 0 v"
definition bit_scan_reverse_slow32 :: "32 word \<Rightarrow> nat" where
  "bit_scan_reverse_slow32 v = reverse_loop 31 v"
definition bit_scan_forward_slow64 :: "64 word \<Rightarrow> nat" where
  "bit_scan_forward_slow64 v = forward_loop 64 0 v"
definition bit_scan_reverse_slow64 :: "64 word \<Rightarrow> nat" where
  "bit_scan_reverse_slow64 v = reverse_loop 63 v"

subsection \<open>The branching versions\<close>

definition fwd_step :: "'a::len word \<Rightarrow> nat \<Rightarrow> 'a word \<times> nat \<Rightarrow> 'a word \<times> nat" where
  "fwd_step m k = (\<lambda>(v, b). if v AND m = 0 then (drop_bit k v, b + k) else (v, b))"

definition rev_step :: "'a::len word \<Rightarrow> nat \<Rightarrow> 'a word \<times> nat \<Rightarrow> 'a word \<times> nat" where
  "rev_step m k = (\<lambda>(v, b). if v AND m \<noteq> 0 then (drop_bit k v, b + k) else (v, b))"

definition bit_scan_forward_br32 :: "32 word \<Rightarrow> nat" where
  "bit_scan_forward_br32 v =
     (if v AND 0x01 \<noteq> 0 then 0
      else (let (v, b) = fwd_step 0x03 2 (fwd_step 0x0f 4 (fwd_step 0xff 8 (fwd_step 0xffff 16 (v, 0))))
            in b + (if v AND 0x01 = 0 then 1 else 0)))"

definition bit_scan_reverse_br32 :: "32 word \<Rightarrow> nat" where
  "bit_scan_reverse_br32 v =
     (let (v, b) = rev_step 0x0c 2 (rev_step 0xf0 4 (rev_step 0xff00 8 (rev_step 0xffff0000 16 (v, 0))))
      in b + (if v AND 0x02 \<noteq> 0 then 1 else 0))"

definition bit_scan_forward_br64 :: "64 word \<Rightarrow> nat" where
  "bit_scan_forward_br64 v =
     (if v AND 0x01 \<noteq> 0 then 0
      else (let (v, b) = fwd_step 0x03 2 (fwd_step 0x0f 4 (fwd_step 0xff 8 (fwd_step 0xffff 16
                           (fwd_step 0xffffffff 32 (v, 0)))))
            in b + (if v AND 0x01 = 0 then 1 else 0)))"

definition bit_scan_reverse_br64 :: "64 word \<Rightarrow> nat" where
  "bit_scan_reverse_br64 v =
     (let (v, b) = rev_step 0x0c 2 (rev_step 0xf0 4 (rev_step 0xff00 8 (rev_step 0xffff0000 16
                     (rev_step 0xffffffff00000000 32 (v, 0)))))
      in b + (if v AND 0x02 \<noteq> 0 then 1 else 0))"

subsection \<open>The de Bruijn versions\<close>

definition debruijn_hash32 :: "nat list" where
  "debruijn_hash32 = [0, 1, 2, 6, 3, 11, 7, 16, 4, 14, 12, 21, 8,
     23, 17, 26, 31, 5, 10, 15, 13, 20, 22, 25, 30, 9, 19, 24, 29, 18, 28, 27]"

definition debruijn_hash64 :: "nat list" where
  "debruijn_hash64 = [0, 1, 2, 7, 3, 13, 8, 19, 4, 25, 14, 28, 9,
     34, 20, 40, 5, 17, 26, 38, 15, 46, 29, 48, 10, 31, 35, 54, 21, 50, 41, 57,
     63, 6, 12, 18, 24, 27, 33, 39, 16, 37, 45, 47, 30, 53, 49, 56, 62, 11, 23,
     32, 36, 44, 52, 55, 61, 22, 43, 51, 60, 42, 59, 58]"

definition DEBRUIJN_HASH32 :: "32 word \<Rightarrow> nat" where
  "DEBRUIJN_HASH32 x = unat (drop_bit (32 - 5) (x * 0x04653ADF))"

definition DEBRUIJN_HASH64 :: "64 word \<Rightarrow> nat" where
  "DEBRUIJN_HASH64 x = unat (drop_bit (64 - 6) (x * 0x0218A392CD3D5DBF))"

definition bit_scan_forward_debruijn32 :: "32 word \<Rightarrow> nat" where
  "bit_scan_forward_debruijn32 x = debruijn_hash32 ! DEBRUIJN_HASH32 (x AND - x)"

definition bit_scan_forward_debruijn64 :: "64 word \<Rightarrow> nat" where
  "bit_scan_forward_debruijn64 x = debruijn_hash64 ! DEBRUIJN_HASH64 (x AND - x)"

lemma and_pred_less: "v \<noteq> 0 \<Longrightarrow> unat (v AND (v - 1)) < unat (v :: 'a::len word)"
proof -
  assume "v \<noteq> 0"
  have "v AND (v - 1) \<le> v - 1" by (rule word_and_le1)
  then have "unat (v AND (v - 1)) \<le> unat (v - 1)" by (simp add: word_le_nat_alt)
  moreover have "unat (v - 1) = unat v - 1" using \<open>v \<noteq> 0\<close> by (rule unat_minus_one)
  moreover have "unat v > 0" using \<open>v \<noteq> 0\<close> by (simp add: unat_gt_0)
  ultimately show ?thesis by linarith
qed

text \<open>The loop that clears the lowest set bit until none is left, and returns the last one.\<close>

function last_bit :: "'a::len word \<Rightarrow> 'a word" where
  "last_bit v = (let last = v; v' = v AND (v - 1) in if v' \<noteq> 0 then last_bit v' else last)"
  by pat_completeness auto
termination
  by (relation "measure unat") (auto intro!: and_pred_less)

definition bit_scan_reverse_debruijn32 :: "32 word \<Rightarrow> nat" where
  "bit_scan_reverse_debruijn32 v = debruijn_hash32 ! DEBRUIJN_HASH32 (last_bit v)"

definition bit_scan_reverse_debruijn64 :: "64 word \<Rightarrow> nat" where
  "bit_scan_reverse_debruijn64 v = debruijn_hash64 ! DEBRUIJN_HASH64 (last_bit v)"

section \<open>Specification\<close>

definition is_lsb :: "'a::len word \<Rightarrow> nat \<Rightarrow> bool" where
  "is_lsb v k \<longleftrightarrow> bit v k \<and> (\<forall>j<k. \<not> bit v j)"

definition is_msb :: "'a::len word \<Rightarrow> nat \<Rightarrow> bool" where
  "is_msb v k \<longleftrightarrow> bit v k \<and> (\<forall>j>k. \<not> bit v j)"

section \<open>Lemmas\<close>

declare last_bit.simps [simp del]

lemma is_lsb_unique: "is_lsb v k \<Longrightarrow> is_lsb v k' \<Longrightarrow> k = k'"
  unfolding is_lsb_def by (metis linorder_neqE_nat)

lemma is_msb_unique: "is_msb v k \<Longrightarrow> is_msb v k' \<Longrightarrow> k = k'"
  unfolding is_msb_def by (metis linorder_neqE_nat)

lemma word_bit_ex: "(v :: 'a::len word) \<noteq> 0 \<Longrightarrow> \<exists>k. bit v k"
  by (metis bit_0_eq bit_eqI bot_apply bot_bool_def)

lemma is_lsb_ex: "v \<noteq> 0 \<Longrightarrow> \<exists>k. is_lsb v k"
  unfolding is_lsb_def using word_bit_ex exists_least_iff [of "bit v"] by blast

lemma is_msb_ex: "(v :: 'a::len word) \<noteq> 0 \<Longrightarrow> \<exists>k. is_msb v k"
proof -
  assume "v \<noteq> 0"
  then obtain i where i: "bit v i" using word_bit_ex by blast
  have f: "\<forall>k. bit v k \<longrightarrow> k \<le> LENGTH('a)" using bit_imp_le_length less_imp_le by blast
  have "bit v (GREATEST k. bit v k)" by (rule GreatestI_nat [of "bit v", OF i]) (use f in blast)
  moreover have "\<not> bit v j" if "j > (GREATEST k. bit v k)" for j
    using that Greatest_le_nat [of "bit v" j "LENGTH('a)"] f by (meson not_le)
  ultimately show ?thesis unfolding is_msb_def by blast
qed

lemma is_lsb_less: "is_lsb (v :: 'a::len word) k \<Longrightarrow> k < LENGTH('a)"
  unfolding is_lsb_def by (metis bit_imp_le_length)

lemma is_msb_less: "is_msb (v :: 'a::len word) k \<Longrightarrow> k < LENGTH('a)"
  unfolding is_msb_def by (metis bit_imp_le_length)

lemma is_lsb_drop:
  assumes "\<forall>j<k. \<not> bit v j"
  shows "is_lsb (drop_bit k v) j \<longleftrightarrow> is_lsb v (j + k)"
proof -
  have "(\<forall>i<j. \<not> bit v (k + i)) \<longleftrightarrow> (\<forall>i<j + k. \<not> bit v i)"
  proof (intro iffI allI impI)
    fix i assume h: "\<forall>i<j. \<not> bit v (k + i)" "i < j + k"
    show "\<not> bit v i"
    proof (cases "i < k")
      case False
      then have "i - k < j" "k + (i - k) = i" using h(2) by auto
      then show ?thesis using h(1) by metis
    qed (use assms in simp)
  next
    fix i assume "\<forall>i<j + k. \<not> bit v i" "i < j"
    then show "\<not> bit v (k + i)" by simp
  qed
  then show ?thesis by (simp add: is_lsb_def bit_drop_bit_eq add.commute)
qed

lemma is_msb_drop: "is_msb (drop_bit k v) j \<Longrightarrow> is_msb v (j + k)"
proof -
  assume m: "is_msb (drop_bit k v) j"
  have "\<not> bit v i" if "i > j + k" for i
  proof -
    have "i - k > j" "k + (i - k) = i" using that by auto
    then show ?thesis using m unfolding is_msb_def bit_drop_bit_eq o_def by metis
  qed
  then show ?thesis using m by (simp add: is_msb_def bit_drop_bit_eq add.commute)
qed

lemma and_mask_eq_0: "v AND mask k = (0 :: 'a::len word) \<longleftrightarrow> (\<forall>j<k. \<not> bit v j)"
  by (auto simp: bit_eq_iff bit_and_iff bit_mask_iff) (metis bit_imp_le_length)

lemma and_1_eq_0: "v AND 1 = (0 :: 'a::len word) \<longleftrightarrow> \<not> bit v 0"
  using and_mask_eq_0 [of v 1] by simp

lemma is_msb_drop_le:
  assumes "is_msb v j" "k \<le> j"
  shows "is_msb (drop_bit k v) (j - k)"
  using assms by (auto simp: is_msb_def bit_drop_bit_eq)

lemma forward_loop_lsb: "is_lsb v k \<Longrightarrow> k < n \<Longrightarrow> forward_loop n r v = r + k"
proof (induction n arbitrary: r v k)
  case (Suc n)
  show ?case
  proof (cases "bit v 0")
    case True
    then have "k = 0" using Suc.prems(1) by (auto simp: is_lsb_def)
    then show ?thesis using True by (simp add: and_1_eq_0)
  next
    case False
    then have k: "k \<noteq> 0" using Suc.prems(1) by (auto simp: is_lsb_def intro: gr0I)
    then have "is_lsb (drop_bit 1 v) (k - 1)"
      using is_lsb_drop [of 1 v "k - 1"] False Suc.prems(1) by simp
    then have "forward_loop n (r + 1) (drop_bit 1 v) = r + 1 + (k - 1)"
      using Suc.prems(2) k by (intro Suc.IH) auto
    then show ?thesis using False k by (simp add: and_1_eq_0)
  qed
qed simp

lemma reverse_loop_msb:
  fixes w :: "'a::len word"
  assumes "is_msb w m" "m \<le> r" "r < LENGTH('a)"
  shows "reverse_loop r (push_bit (LENGTH('a) - 1 - r) w) = m"
  using assms(2,3)
proof (induction r)
  case (Suc r)
  let ?v = "push_bit (LENGTH('a) - 1 - Suc r) w"
  have top: "?v AND push_bit (LENGTH('a) - 1) 1 \<noteq> 0 \<longleftrightarrow> bit w (Suc r)"
  proof -
    have "?v AND push_bit (LENGTH('a) - 1) 1 \<noteq> 0 \<longleftrightarrow> bit ?v (LENGTH('a) - 1)"
      by (simp add: push_bit_of_1 and_exp_eq_0_iff_not_bit)
    also have "\<dots> \<longleftrightarrow> bit w (Suc r)"
      using Suc.prems by (simp add: bit_push_bit_iff)
    finally show ?thesis .
  qed
  show ?case
  proof (cases "bit w (Suc r)")
    case True
    then have "m = Suc r" using assms(1) Suc.prems(1) unfolding is_msb_def by (metis le_neq_implies_less)
    then show ?thesis using top True by simp
  next
    case False
    then have "m \<noteq> Suc r" using assms(1) by (auto simp: is_msb_def)
    moreover have "push_bit 1 ?v = push_bit (LENGTH('a) - 1 - r) w"
      using Suc.prems by (simp add: push_bit_push_bit Suc_diff_Suc [symmetric])
    ultimately show ?thesis using top False Suc by simp
  qed
qed simp

text \<open>The branching versions narrow the position down by halves.\<close>

definition fok :: "nat \<Rightarrow> nat \<Rightarrow> 'a::len word \<times> nat \<Rightarrow> bool" where
  "fok k n = (\<lambda>(v, b). \<exists>j. is_lsb v j \<and> j < k \<and> b + j = n)"

definition rok :: "nat \<Rightarrow> nat \<Rightarrow> 'a::len word \<times> nat \<Rightarrow> bool" where
  "rok k n = (\<lambda>(v, b). \<exists>j. is_msb v j \<and> j < k \<and> b + j = n)"

lemma fwd_step_ok:
  assumes "fok (2 * k) n p" "m = mask k"
  shows "fok k n (fwd_step m k p)"
proof -
  obtain v b j where p: "p = (v, b)" and j: "is_lsb v j" "j < 2 * k" "b + j = n"
    using assms(1) by (auto simp: fok_def)
  show ?thesis
  proof (cases "v AND mask k = 0")
    case True
    then have lo: "\<forall>i<k. \<not> bit v i" by (simp only: and_mask_eq_0)
    then have kj: "k \<le> j" using j(1) unfolding is_lsb_def by (meson not_le)
    then have "is_lsb (drop_bit k v) (j - k)" using is_lsb_drop [OF lo, of "j - k"] j(1) by simp
    then show ?thesis using True kj j assms(2) p by (auto simp: fok_def fwd_step_def)
  next
    case False
    then obtain i where "i < k" "bit v i" by (auto simp: and_mask_eq_0)
    then have "j < k" using j(1) unfolding is_lsb_def by (meson le_less_trans not_le)
    then show ?thesis using False j assms(2) p by (auto simp: fok_def fwd_step_def)
  qed
qed

lemma fok_final: "fok 2 n (v, b) \<Longrightarrow> b + (if v AND 1 = 0 then 1 else 0) = n"
  by (auto simp: fok_def is_lsb_def and_1_eq_0 less_2_cases_iff)

lemma and_high_mask:
  "v AND push_bit k (mask k) = (0 :: 'a::len word) \<longleftrightarrow> (\<forall>j. k \<le> j \<and> j < 2 * k \<longrightarrow> \<not> bit v j)"
proof
  assume a: "v AND push_bit k (mask k) = 0"
  show "\<forall>j. k \<le> j \<and> j < 2 * k \<longrightarrow> \<not> bit v j"
  proof (intro allI impI notI)
    fix j assume j: "k \<le> j \<and> j < 2 * k" and b: "bit v j"
    have "j < LENGTH('a)" using b by (rule bit_imp_le_length)
    then have "bit (v AND push_bit k (mask k)) j"
      using j b by (auto simp: bit_and_iff bit_push_bit_iff bit_mask_iff)
    then show False using a by simp
  qed
next
  assume "\<forall>j. k \<le> j \<and> j < 2 * k \<longrightarrow> \<not> bit v j"
  then show "v AND push_bit k (mask k) = 0"
    by (intro bit_eqI) (auto simp: bit_and_iff bit_push_bit_iff bit_mask_iff)
qed

lemma rev_step_ok:
  assumes "rok (2 * k) n p" "m = push_bit k (mask k)"
  shows "rok k n (rev_step m k p)"
proof -
  obtain v b j where p: "p = (v, b)" and j: "is_msb v j" "j < 2 * k" "b + j = n"
    using assms(1) by (auto simp: rok_def)
  show ?thesis
  proof (cases "v AND m = 0")
    case True
    then have "j < k" using j(1,2) unfolding assms(2) and_high_mask is_msb_def by (meson not_le)
    then show ?thesis using True j p by (auto simp: rok_def rev_step_def)
  next
    case False
    then obtain i where "k \<le> i" "bit v i" unfolding assms(2) and_high_mask by blast
    then have kj: "k \<le> j" using j(1) unfolding is_msb_def by (meson le_less_trans not_le)
    then have "is_msb (drop_bit k v) (j - k)" using j(1) by (intro is_msb_drop_le)
    then show ?thesis using False kj j p by (auto simp: rok_def rev_step_def)
  qed
qed

lemma and_2_eq_0: "v AND 2 = (0 :: 'a::len word) \<longleftrightarrow> \<not> bit v 1"
  using and_exp_eq_0_iff_not_bit [of v 1] by simp

lemma rok_final: "rok 2 n (v, b) \<Longrightarrow> b + (if v AND 2 \<noteq> 0 then 1 else 0) = n"
  by (auto simp: rok_def is_msb_def and_2_eq_0 less_2_cases_iff)

lemma masks:
  "(0x03 :: 'a::len word) = mask 2" "(0x0f :: 'a::len word) = mask 4" "(0xff :: 'a::len word) = mask 8"
  "(0xffff :: 'a::len word) = mask 16" "(0xffffffff :: 'a::len word) = mask 32"
  by (simp_all add: mask_eq_exp_minus_1)

lemma high_masks:
  "(0x0c :: 'a::len word) = push_bit 2 (mask 2)" "(0xf0 :: 'a::len word) = push_bit 4 (mask 4)"
  "(0xff00 :: 'a::len word) = push_bit 8 (mask 8)" "(0xffff0000 :: 'a::len word) = push_bit 16 (mask 16)"
  "(0xffffffff00000000 :: 'a::len word) = push_bit 32 (mask 32)"
  by (simp_all add: mask_eq_exp_minus_1 push_bit_eq_mult)

lemma bit_scan_forward_br64_lsb: "is_lsb v k \<Longrightarrow> bit_scan_forward_br64 v = k"
proof -
  assume k: "is_lsb v k"
  let ?p = "fwd_step 0x03 2 (fwd_step 0x0f 4 (fwd_step 0xff 8 (fwd_step 0xffff 16
     (fwd_step 0xffffffff 32 (v, 0)))))"
  have "fok 64 k (v, 0)" using k is_lsb_less [OF k] by (auto simp: fok_def)
  then have "fok 32 k (fwd_step 0xffffffff 32 (v, 0))" by (intro fwd_step_ok masks) simp
  then have "fok 16 k (fwd_step 0xffff 16 (fwd_step 0xffffffff 32 (v, 0)))" by (intro fwd_step_ok masks) simp
  then have "fok 8 k (fwd_step 0xff 8 (fwd_step 0xffff 16 (fwd_step 0xffffffff 32 (v, 0))))"
    by (intro fwd_step_ok masks) simp
  then have "fok 4 k (fwd_step 0x0f 4 (fwd_step 0xff 8 (fwd_step 0xffff 16 (fwd_step 0xffffffff 32 (v, 0)))))"
    by (intro fwd_step_ok masks) simp
  then have f: "fok 2 k ?p" by (intro fwd_step_ok masks) simp
  obtain v' b' where p: "?p = (v', b')" by fastforce
  have "bit v 0 \<Longrightarrow> k = 0" using k by (auto simp: is_lsb_def)
  then show ?thesis
    using fok_final [OF f [unfolded p]] unfolding bit_scan_forward_br64_def p by (auto simp: and_1_eq_0)
qed

lemma bit_scan_forward_br32_lsb: "is_lsb v k \<Longrightarrow> bit_scan_forward_br32 v = k"
proof -
  assume k: "is_lsb v k"
  let ?p = "fwd_step 0x03 2 (fwd_step 0x0f 4 (fwd_step 0xff 8 (fwd_step 0xffff 16 (v, 0))))"
  have "fok 32 k (v, 0)" using k is_lsb_less [OF k] by (auto simp: fok_def)
  then have "fok 16 k (fwd_step 0xffff 16 (v, 0))" by (intro fwd_step_ok masks) simp
  then have "fok 8 k (fwd_step 0xff 8 (fwd_step 0xffff 16 (v, 0)))" by (intro fwd_step_ok masks) simp
  then have "fok 4 k (fwd_step 0x0f 4 (fwd_step 0xff 8 (fwd_step 0xffff 16 (v, 0))))"
    by (intro fwd_step_ok masks) simp
  then have f: "fok 2 k ?p" by (intro fwd_step_ok masks) simp
  obtain v' b' where p: "?p = (v', b')" by fastforce
  have "bit v 0 \<Longrightarrow> k = 0" using k by (auto simp: is_lsb_def)
  then show ?thesis
    using fok_final [OF f [unfolded p]] unfolding bit_scan_forward_br32_def p by (auto simp: and_1_eq_0)
qed

lemma bit_scan_reverse_br64_msb: "is_msb v k \<Longrightarrow> bit_scan_reverse_br64 v = k"
proof -
  assume k: "is_msb v k"
  let ?p = "rev_step 0x0c 2 (rev_step 0xf0 4 (rev_step 0xff00 8 (rev_step 0xffff0000 16
     (rev_step 0xffffffff00000000 32 (v, 0)))))"
  have "rok 64 k (v, 0)" using k is_msb_less [OF k] by (auto simp: rok_def)
  then have "rok 32 k (rev_step 0xffffffff00000000 32 (v, 0))" by (intro rev_step_ok high_masks) simp
  then have "rok 16 k (rev_step 0xffff0000 16 (rev_step 0xffffffff00000000 32 (v, 0)))"
    by (intro rev_step_ok high_masks) simp
  then have "rok 8 k (rev_step 0xff00 8 (rev_step 0xffff0000 16 (rev_step 0xffffffff00000000 32 (v, 0))))"
    by (intro rev_step_ok high_masks) simp
  then have "rok 4 k (rev_step 0xf0 4 (rev_step 0xff00 8 (rev_step 0xffff0000 16
      (rev_step 0xffffffff00000000 32 (v, 0)))))"
    by (intro rev_step_ok high_masks) simp
  then have r: "rok 2 k ?p" by (intro rev_step_ok high_masks) simp
  obtain v' b' where p: "?p = (v', b')" by fastforce
  show ?thesis using rok_final [OF r [unfolded p]] unfolding bit_scan_reverse_br64_def p by simp
qed

lemma bit_scan_reverse_br32_msb: "is_msb v k \<Longrightarrow> bit_scan_reverse_br32 v = k"
proof -
  assume k: "is_msb v k"
  let ?p = "rev_step 0x0c 2 (rev_step 0xf0 4 (rev_step 0xff00 8 (rev_step 0xffff0000 16 (v, 0))))"
  have "rok 32 k (v, 0)" using k is_msb_less [OF k] by (auto simp: rok_def)
  then have "rok 16 k (rev_step 0xffff0000 16 (v, 0))" by (intro rev_step_ok high_masks) simp
  then have "rok 8 k (rev_step 0xff00 8 (rev_step 0xffff0000 16 (v, 0)))"
    by (intro rev_step_ok high_masks) simp
  then have "rok 4 k (rev_step 0xf0 4 (rev_step 0xff00 8 (rev_step 0xffff0000 16 (v, 0))))"
    by (intro rev_step_ok high_masks) simp
  then have r: "rok 2 k ?p" by (intro rev_step_ok high_masks) simp
  obtain v' b' where p: "?p = (v', b')" by fastforce
  show ?thesis using rok_final [OF r [unfolded p]] unfolding bit_scan_reverse_br32_def p by simp
qed

text \<open>The de Bruijn tables.\<close>

lemma bit_exp_word: "bit (2 ^ k :: 'a::len word) n \<longleftrightarrow> n = k \<and> k < LENGTH('a)"
  by (auto simp: bit_exp_iff)

lemma bit_minus_1:
  fixes x :: "'a::len word"
  assumes k: "is_lsb x k"
  shows "bit (x - 1) n \<longleftrightarrow> n < k \<or> k < n \<and> bit x n"
proof -
  have kl: "k < LENGTH('a)" by (rule is_lsb_less [OF k])
  define c where "c = unset_bit k x"
  have bc: "bit c n \<longleftrightarrow> k < n \<and> bit x n" for n
    using k by (cases n k rule: linorder_cases) (auto simp: c_def bit_unset_bit_iff is_lsb_def)
  have "x = c OR push_bit k 1"
    by (rule bit_eqI) (use k kl bc in \<open>auto simp: bit_or_iff bit_exp_word is_lsb_def linorder_neq_iff\<close>)
  also have "\<dots> = c + push_bit k 1"
    by (rule disjunctive_add [symmetric]) (auto simp: bc bit_exp_word)
  finally have "x - 1 = c + mask k" by (simp add: mask_eq_exp_minus_1 push_bit_of_1)
  also have "\<dots> = c OR mask k"
    by (rule disjunctive_add) (auto simp: bc bit_mask_iff)
  finally show ?thesis using kl by (auto simp: bit_or_iff bit_mask_iff bc)
qed

lemma low_bit:
  fixes x :: "'a::len word"
  assumes k: "is_lsb x k"
  shows "x AND - x = push_bit k 1" "bit (x AND (x - 1)) n \<longleftrightarrow> bit x n \<and> n \<noteq> k"
proof -
  have kl: "k < LENGTH('a)" by (rule is_lsb_less [OF k])
  show "x AND - x = push_bit k 1"
    by (rule bit_eqI)
      (use k kl in \<open>auto simp: bit_and_iff minus_eq_not_minus_1 bit_not_iff bit_minus_1 [OF k]
        bit_exp_word is_lsb_def linorder_neq_iff\<close>)
  show "bit (x AND (x - 1)) n \<longleftrightarrow> bit x n \<and> n \<noteq> k"
    using k by (auto simp: bit_and_iff bit_minus_1 [OF k] is_lsb_def linorder_neq_iff)
qed

lemma last_bit_msb:
  fixes v :: "'a::len word"
  shows "is_msb v m \<Longrightarrow> last_bit v = push_bit m 1"
proof (induction v rule: last_bit.induct)
  case (1 v)
  let ?v = "v AND (v - 1)"
  have "v \<noteq> 0" using 1(2) by (auto simp: is_msb_def)
  then obtain k where k: "is_lsb v k" using is_lsb_ex by blast
  have km: "k \<le> m" using k 1(2) unfolding is_lsb_def is_msb_def by (meson not_le)
  show ?case
  proof (cases "?v = 0")
    case True
    have "k = m"
    proof (rule ccontr)
      assume "k \<noteq> m"
      then have "bit ?v m" using 1(2) by (simp add: low_bit(2) [OF k] is_msb_def)
      then show False using True by simp
    qed
    have "v = push_bit m 1"
    proof (rule bit_eqI)
      fix n
      show "bit v n \<longleftrightarrow> bit (push_bit m 1 :: 'a word) n"
        using k 1(2) \<open>k = m\<close> is_msb_less [OF 1(2)]
        by (cases n m rule: linorder_cases) (auto simp: is_lsb_def is_msb_def bit_exp_word)
    qed
    then show ?thesis using True by (subst last_bit.simps) (simp add: Let_def)
  next
    case False
    then obtain i where "bit ?v i" using word_bit_ex by blast
    then have i: "bit v i" "i \<noteq> k" by (simp_all add: low_bit(2) [OF k])
    then have "k < i" "i \<le> m" using k 1(2) unfolding is_lsb_def is_msb_def by (meson linorder_neqE_nat not_le)+
    then have "is_msb ?v m" using 1(2) by (simp add: is_msb_def low_bit(2) [OF k])
    then have "last_bit ?v = push_bit m 1" using 1(1) [OF refl refl False] by blast
    then show ?thesis using False by (subst last_bit.simps) (simp add: Let_def)
  qed
qed

lemma debruijn32: "list_all (\<lambda>k. debruijn_hash32 ! DEBRUIJN_HASH32 (push_bit k 1) = k) [0..<32]"
  by code_simp

lemma debruijn64: "list_all (\<lambda>k. debruijn_hash64 ! DEBRUIJN_HASH64 (push_bit k 1) = k) [0..<64]"
  by code_simp

subsection \<open>The contract of the bit scans\<close>

locale bit_scan =
  fixes forward :: "'a::len word \<Rightarrow> nat" and reverse :: "'a word \<Rightarrow> nat"
  assumes forward_lsb: "is_lsb v k \<Longrightarrow> forward v = k"
    and reverse_msb: "is_msb v k \<Longrightarrow> reverse v = k"
begin

lemma forward_least: "v \<noteq> 0 \<Longrightarrow> bit v (forward v) \<and> (\<forall>j<forward v. \<not> bit v j)"
  using is_lsb_ex forward_lsb by (metis is_lsb_def)

lemma forward_less: "v \<noteq> 0 \<Longrightarrow> forward v < LENGTH('a)"
  using forward_least bit_imp_le_length by blast

end

interpretation slow64: bit_scan bit_scan_forward_slow64 bit_scan_reverse_slow64
proof unfold_locales
  show "bit_scan_forward_slow64 v = k" if "is_lsb v k" for v k
    using forward_loop_lsb [OF that, of 64 0] is_lsb_less [OF that] by (simp add: bit_scan_forward_slow64_def)
  show "bit_scan_reverse_slow64 v = k" if "is_msb v k" for v k
    using reverse_loop_msb [OF that, of 63] is_msb_less [OF that] by (simp add: bit_scan_reverse_slow64_def)
qed

interpretation slow32: bit_scan bit_scan_forward_slow32 bit_scan_reverse_slow32
proof unfold_locales
  show "bit_scan_forward_slow32 v = k" if "is_lsb v k" for v k
    using forward_loop_lsb [OF that, of 32 0] is_lsb_less [OF that] by (simp add: bit_scan_forward_slow32_def)
  show "bit_scan_reverse_slow32 v = k" if "is_msb v k" for v k
    using reverse_loop_msb [OF that, of 31] is_msb_less [OF that] by (simp add: bit_scan_reverse_slow32_def)
qed

interpretation br64: bit_scan bit_scan_forward_br64 bit_scan_reverse_br64
  by unfold_locales (fact bit_scan_forward_br64_lsb bit_scan_reverse_br64_msb)+

interpretation br32: bit_scan bit_scan_forward_br32 bit_scan_reverse_br32
  by unfold_locales (fact bit_scan_forward_br32_lsb bit_scan_reverse_br32_msb)+

interpretation debruijn64: bit_scan bit_scan_forward_debruijn64 bit_scan_reverse_debruijn64
proof unfold_locales
  have t: "debruijn_hash64 ! DEBRUIJN_HASH64 (push_bit k 1) = k" if "k < 64" for k
    using debruijn64 that by (simp only: list_all_iff set_upt) simp
  show "bit_scan_forward_debruijn64 v = k" if "is_lsb v k" for v k
    using t is_lsb_less [OF that] by (simp add: bit_scan_forward_debruijn64_def low_bit(1) [OF that])
  show "bit_scan_reverse_debruijn64 v = k" if "is_msb v k" for v k
    using t is_msb_less [OF that] by (simp add: bit_scan_reverse_debruijn64_def last_bit_msb [OF that])
qed

interpretation debruijn32: bit_scan bit_scan_forward_debruijn32 bit_scan_reverse_debruijn32
proof unfold_locales
  have t: "debruijn_hash32 ! DEBRUIJN_HASH32 (push_bit k 1) = k" if "k < 32" for k
    using debruijn32 that by (simp only: list_all_iff set_upt) simp
  show "bit_scan_forward_debruijn32 v = k" if "is_lsb v k" for v k
    using t is_lsb_less [OF that] by (simp add: bit_scan_forward_debruijn32_def low_bit(1) [OF that])
  show "bit_scan_reverse_debruijn32 v = k" if "is_msb v k" for v k
    using t is_msb_less [OF that] by (simp add: bit_scan_reverse_debruijn32_def last_bit_msb [OF that])
qed

section \<open>Properties\<close>

text \<open>C40: On every nonzero word the reference loop, the branching version and the de Bruijn version
  of the forward scan agree, for 64 and 32 bits, and return the position of the lowest set bit.\<close>

theorem bit_scan_forward_equiv:
  assumes "v \<noteq> (0 :: 64 word)" "w \<noteq> (0 :: 32 word)"
  shows "bit_scan_forward_br64 v = bit_scan_forward_slow64 v \<and>
    bit_scan_forward_debruijn64 v = bit_scan_forward_slow64 v \<and>
    bit_scan_forward_br32 w = bit_scan_forward_slow32 w \<and>
    bit_scan_forward_debruijn32 w = bit_scan_forward_slow32 w \<and>
    is_lsb v (bit_scan_forward_slow64 v) \<and> is_lsb w (bit_scan_forward_slow32 w)"
proof -
  obtain k where "is_lsb v k" using is_lsb_ex [OF assms(1)] ..
  moreover obtain j where "is_lsb w j" using is_lsb_ex [OF assms(2)] ..
  ultimately show ?thesis
    by (simp add: br64.forward_lsb slow64.forward_lsb debruijn64.forward_lsb br32.forward_lsb
        slow32.forward_lsb debruijn32.forward_lsb)
qed

theorem bit_scan_forward_equiv_witness:
  "bit_scan_forward_debruijn64 0x6000 = bit_scan_forward_slow64 0x6000 \<and>
   is_lsb (0x6000 :: 64 word) (bit_scan_forward_slow64 0x6000)"
  using bit_scan_forward_equiv [of "0x6000" 1] by simp

text \<open>Likewise for the reverse scan and the highest set bit.\<close>

theorem bit_scan_reverse_equiv:
  assumes "v \<noteq> (0 :: 64 word)" "w \<noteq> (0 :: 32 word)"
  shows "bit_scan_reverse_br64 v = bit_scan_reverse_slow64 v \<and>
    bit_scan_reverse_debruijn64 v = bit_scan_reverse_slow64 v \<and>
    bit_scan_reverse_br32 w = bit_scan_reverse_slow32 w \<and>
    bit_scan_reverse_debruijn32 w = bit_scan_reverse_slow32 w \<and>
    is_msb v (bit_scan_reverse_slow64 v) \<and> is_msb w (bit_scan_reverse_slow32 w)"
proof -
  obtain k where "is_msb v k" using is_msb_ex [OF assms(1)] ..
  moreover obtain j where "is_msb w j" using is_msb_ex [OF assms(2)] ..
  ultimately show ?thesis
    by (simp add: br64.reverse_msb slow64.reverse_msb debruijn64.reverse_msb br32.reverse_msb
        slow32.reverse_msb debruijn32.reverse_msb)
qed

theorem bit_scan_reverse_equiv_witness:
  "bit_scan_reverse_debruijn64 0x6000 = bit_scan_reverse_slow64 0x6000 \<and>
   is_msb (0x6000 :: 64 word) (bit_scan_reverse_slow64 0x6000)"
  using bit_scan_reverse_equiv [of "0x6000" 1] by simp

end
