(* ===== verification/FMalloc.thy ===== *)
theory FMalloc
  imports BitScan
begin

text \<open>
  The allocator of \<^verbatim>\<open>src/sip_router/mem/f_malloc.c\<close> and \<^verbatim>\<open>f_malloc.h\<close>, in its 64 bit configuration
  with statistics (\<^verbatim>\<open>F_MALLOC\<close>, \<^verbatim>\<open>MALLOC_STATS\<close>, no \<^verbatim>\<open>DBG_F_MALLOC\<close>), with the hash bitmap and with
  \<^verbatim>\<open>MEM_FRAG_AVOIDANCE\<close>, both switched on in the source.

  Addresses are naturals, \<open>0\<close> is the null pointer.  A fragment is the address of its header; \<open>fsize\<close>
  reads the \<^verbatim>\<open>size\<close> field of a header.  A free list is the sequence of its fragments; the field
  \<^verbatim>\<open>u.nxt_free\<close> of a fragment is then its successor in the list, and null for the last one and for
  fragments in use (\<^verbatim>\<open>fm_malloc\<close> clears it).  The statistics are 64 bit words.
\<close>

section \<open>Definitions\<close>

definition ROUNDTO :: nat where "ROUNDTO = 8"
definition MIN_FRAG_SIZE :: nat where "MIN_FRAG_SIZE = ROUNDTO"
definition F_MALLOC_OPTIMIZE_FACTOR :: nat where "F_MALLOC_OPTIMIZE_FACTOR = 14"
definition F_MALLOC_OPTIMIZE :: nat where "F_MALLOC_OPTIMIZE = 2 ^ F_MALLOC_OPTIMIZE_FACTOR"
definition F_HASH_SIZE :: nat where
  "F_HASH_SIZE = F_MALLOC_OPTIMIZE div ROUNDTO + (64 - F_MALLOC_OPTIMIZE_FACTOR) + 1"
definition FM_HASH_BMP_BITS :: nat where "FM_HASH_BMP_BITS = 64"
definition FM_HASH_BMP_SIZE :: nat where
  "FM_HASH_BMP_SIZE = (F_HASH_SIZE + FM_HASH_BMP_BITS - 1) div FM_HASH_BMP_BITS"

text \<open>The sizes of \<^verbatim>\<open>struct fm_frag\<close> and \<^verbatim>\<open>struct fm_block\<close>.\<close>

definition FRAG_OVERHEAD :: nat where "FRAG_OVERHEAD = 16"
definition SIZEOF_BLOCK :: nat where
  "SIZEOF_BLOCK = 4 * 8 + 2 * 8 + FM_HASH_BMP_SIZE * 8 + F_HASH_SIZE * 16"

definition ROUNDUP :: "nat \<Rightarrow> nat" where
  "ROUNDUP s = (s + (ROUNDTO - 1)) mod 2 ^ 64 div ROUNDTO * ROUNDTO"
definition ROUNDDOWN :: "nat \<Rightarrow> nat" where
  "ROUNDDOWN s = s div ROUNDTO * ROUNDTO"

definition INIT_OVERHEAD :: nat where
  "INIT_OVERHEAD = ROUNDUP SIZEOF_BLOCK + FRAG_OVERHEAD"

record fm_block =
  bl_size :: nat
  used :: u64
  real_used :: u64
  max_real_used :: u64
  first_frag :: addr
  last_frag :: addr
  fsize :: "addr \<Rightarrow> nat"
  free_bitmap :: "nat \<Rightarrow> u64"
  free_list :: "nat \<Rightarrow> addr list"
  free_no :: "nat \<Rightarrow> nat"

definition FRAG_NEXT :: "fm_block \<Rightarrow> addr \<Rightarrow> addr" where
  "FRAG_NEXT qm f = f + FRAG_OVERHEAD + fsize qm f"

definition big_hash_idx :: "nat \<Rightarrow> nat" where
  "big_hash_idx s = bit_scan_reverse_br64 (of_nat s)"

definition GET_HASH :: "nat \<Rightarrow> nat" where
  "GET_HASH s =
     (if s \<le> F_MALLOC_OPTIMIZE then s div ROUNDTO
      else F_MALLOC_OPTIMIZE div ROUNDTO + big_hash_idx s - F_MALLOC_OPTIMIZE_FACTOR + 1)"

definition UN_HASH :: "nat \<Rightarrow> nat" where
  "UN_HASH h =
     (if h \<le> F_MALLOC_OPTIMIZE div ROUNDTO then h * ROUNDTO
      else 2 ^ (h - F_MALLOC_OPTIMIZE div ROUNDTO + F_MALLOC_OPTIMIZE_FACTOR - 1))"

definition fm_bmp_set :: "nat \<Rightarrow> fm_block \<Rightarrow> fm_block" where
  "fm_bmp_set b qm = qm\<lparr>free_bitmap := (free_bitmap qm)(b div FM_HASH_BMP_BITS :=
     free_bitmap qm (b div FM_HASH_BMP_BITS) OR push_bit (b mod FM_HASH_BMP_BITS) 1)\<rparr>"

definition fm_bmp_reset :: "nat \<Rightarrow> fm_block \<Rightarrow> fm_block" where
  "fm_bmp_reset b qm = qm\<lparr>free_bitmap := (free_bitmap qm)(b div FM_HASH_BMP_BITS :=
     free_bitmap qm (b div FM_HASH_BMP_BITS) AND NOT (push_bit (b mod FM_HASH_BMP_BITS) 1))\<rparr>"

definition fm_bmp_is_set :: "fm_block \<Rightarrow> nat \<Rightarrow> bool" where
  "fm_bmp_is_set qm b \<longleftrightarrow>
     free_bitmap qm (b div FM_HASH_BMP_BITS) AND push_bit (b mod FM_HASH_BMP_BITS) 1 \<noteq> 0"

text \<open>The loop over the bitmap words from \<open>r\<close> on; \<open>None\<close> is the result -1.\<close>

function fm_bmp_words :: "fm_block \<Rightarrow> nat \<Rightarrow> nat option" where
  "fm_bmp_words qm r =
     (if r < FM_HASH_BMP_SIZE then
        if free_bitmap qm r \<noteq> 0
        then Some (r * FM_HASH_BMP_BITS + bit_scan_forward_debruijn64 (free_bitmap qm r))
        else fm_bmp_words qm (r + 1)
      else None)"
  by pat_completeness auto
termination by (relation "measure (\<lambda>(qm, r). FM_HASH_BMP_SIZE - r)") auto

declare fm_bmp_words.simps [simp del]

definition fm_bmp_first_set :: "fm_block \<Rightarrow> nat \<Rightarrow> nat option" where
  "fm_bmp_first_set qm start =
     (let bmp_idx = start div FM_HASH_BMP_BITS;
          bt = start mod FM_HASH_BMP_BITS;
          test_val = push_bit bt 1
      in if free_bitmap qm bmp_idx AND test_val \<noteq> 0 then Some start
         else if free_bitmap qm bmp_idx AND NOT (test_val - 1) \<noteq> 0
         then Some (start + 1 + bit_scan_forward_debruijn64 (drop_bit (bt + 1) (free_bitmap qm bmp_idx)))
         else fm_bmp_words qm (bmp_idx + 1))"

text \<open>The position in a bucket of big fragments: before the first one that is not smaller.\<close>

fun insert_big :: "(addr \<Rightarrow> nat) \<Rightarrow> addr \<Rightarrow> addr list \<Rightarrow> addr list" where
  "insert_big sz frag [] = [frag]"
| "insert_big sz frag (f # fs) = (if sz frag \<le> sz f then frag # f # fs else f # insert_big sz frag fs)"

definition fm_insert_free :: "addr \<Rightarrow> fm_block \<Rightarrow> fm_block" where
  "fm_insert_free frag qm =
     (let hash = GET_HASH (fsize qm frag);
          l = (if fsize qm frag > F_MALLOC_OPTIMIZE
               then insert_big (fsize qm) frag (free_list qm hash)
               else frag # free_list qm hash);
          qm = qm\<lparr>free_list := (free_list qm)(hash := l),
                  free_no := (free_no qm)(hash := free_no qm hash + 1)\<rparr>
      in fm_bmp_set hash qm)"

definition fm_split_frag :: "addr \<Rightarrow> nat \<Rightarrow> fm_block \<Rightarrow> fm_block" where
  "fm_split_frag frag sz qm =
     (let rest = fsize qm frag - sz in
      if rest > FRAG_OVERHEAD + F_MALLOC_OPTIMIZE \<or> rest \<ge> FRAG_OVERHEAD + sz then
        (let qm = qm\<lparr>fsize := (fsize qm)(frag := sz)\<rparr>;
             n = FRAG_NEXT qm frag;
             qm = qm\<lparr>fsize := (fsize qm)(n := rest - FRAG_OVERHEAD),
                     real_used := real_used qm + of_nat FRAG_OVERHEAD\<rparr>
         in fm_insert_free n qm)
      else qm)"

definition fm_malloc_init :: "addr \<Rightarrow> nat \<Rightarrow> fm_block option" where
  "fm_malloc_init address sz =
     (let start = ROUNDUP address in
      if sz < start - address then None
      else (let sz = sz - (start - address) in
        if sz < MIN_FRAG_SIZE + FRAG_OVERHEAD then None
        else (let sz = ROUNDDOWN sz in
          if sz < INIT_OVERHEAD then None
          else (let fin = start + sz;
                    first = start + ROUNDUP SIZEOF_BLOCK;
                    lst = fin - FRAG_OVERHEAD
                in Some (fm_insert_free first
                     \<lparr>bl_size = sz, used = 0, real_used = of_nat INIT_OVERHEAD,
                      max_real_used = of_nat INIT_OVERHEAD, first_frag = first, last_frag = lst,
                      fsize = (\<lambda>_. 0)(first := sz - INIT_OVERHEAD, lst := 0),
                      free_bitmap = (\<lambda>_. 0), free_list = (\<lambda>_. []), free_no = (\<lambda>_. 0)\<rparr>)))))"

text \<open>Taking the fragment out of its bucket (the label \<^verbatim>\<open>found\<close>).\<close>

definition fm_detach :: "nat \<Rightarrow> addr \<Rightarrow> fm_block \<Rightarrow> fm_block" where
  "fm_detach hash frag qm =
     (let qm = qm\<lparr>free_list := (free_list qm)(hash := remove1 frag (free_list qm hash)),
                  free_no := (free_no qm)(hash := free_no qm hash - 1)\<rparr>
      in if free_no qm hash = 0 then fm_bmp_reset hash qm else qm)"

text \<open>The search returns a position not below the start, so the loop over the buckets ends.\<close>

lemma fm_bmp_words_ge: "fm_bmp_words qm r = Some h \<Longrightarrow> r * FM_HASH_BMP_BITS \<le> h"
proof (induction qm r rule: fm_bmp_words.induct)
  case (1 qm r)
  show ?case
  proof (cases "r < FM_HASH_BMP_SIZE \<and> free_bitmap qm r = 0")
    case True
    then have "fm_bmp_words qm (r + 1) = Some h" using 1(2) by (subst (asm) fm_bmp_words.simps) simp
    then show ?thesis using 1(1) True by fastforce
  next
    case False
    then show ?thesis using 1(2) by (subst (asm) fm_bmp_words.simps) (auto split: if_splits)
  qed
qed

lemma fm_bmp_first_set_ge: "fm_bmp_first_set qm start = Some h \<Longrightarrow> start \<le> h"
proof -
  assume f: "fm_bmp_first_set qm start = Some h"
  have "start < (start div 64 + 1) * 64" by (simp add: dividend_less_times_div mult.commute)
  then have "start \<le> h" if "fm_bmp_words qm (start div 64 + 1) = Some h"
    using fm_bmp_words_ge [OF that] by (simp add: FM_HASH_BMP_BITS_def)
  then show ?thesis using f by (auto simp: fm_bmp_first_set_def FM_HASH_BMP_BITS_def Let_def split: if_splits)
qed

text \<open>The loop over the buckets of big fragments, from the bucket \<open>hash\<close> on.\<close>

function fm_search_big :: "fm_block \<Rightarrow> nat \<Rightarrow> nat \<Rightarrow> (nat \<times> addr) option" where
  "fm_search_big qm sz hash =
     (case find (\<lambda>f. fsize qm f \<ge> sz) (free_list qm hash) of
        Some f \<Rightarrow> Some (hash, f)
      | None \<Rightarrow>
          if hash + 1 < F_HASH_SIZE then
            (case fm_bmp_first_set qm (hash + 1) of
               None \<Rightarrow> None | Some hash' \<Rightarrow> fm_search_big qm sz hash')
          else None)"
  by pat_completeness auto
termination
  by (relation "measure (\<lambda>(qm, sz, hash). F_HASH_SIZE - hash)") (auto dest: fm_bmp_first_set_ge)

declare fm_search_big.simps [simp del]

definition fm_search :: "fm_block \<Rightarrow> nat \<Rightarrow> (nat \<times> addr) option" where
  "fm_search qm sz =
     (case fm_bmp_first_set qm (GET_HASH sz) of
        None \<Rightarrow> None
      | Some hash \<Rightarrow>
          if hash \<le> F_MALLOC_OPTIMIZE div ROUNDTO then Some (hash, hd (free_list qm hash))
          else fm_search_big qm sz hash)"

text \<open>The address of the block, 0 when there is no suitable fragment, and the new state.\<close>

definition fm_malloc :: "nat \<Rightarrow> fm_block \<Rightarrow> addr \<times> fm_block" where
  "fm_malloc sz0 qm =
     (let sz = ROUNDUP sz0 in
      case fm_search qm sz of
        None \<Rightarrow> (0, qm)
      | Some (hash, frag) \<Rightarrow>
          (let qm = fm_split_frag frag sz (fm_detach hash frag qm);
               qm = qm\<lparr>real_used := real_used qm + of_nat (fsize qm frag),
                       used := used qm + of_nat (fsize qm frag)\<rparr>;
               qm = (if max_real_used qm < real_used qm then qm\<lparr>max_real_used := real_used qm\<rparr> else qm)
           in (frag + FRAG_OVERHEAD, qm)))"

definition fm_free :: "addr \<Rightarrow> fm_block \<Rightarrow> fm_block" where
  "fm_free p qm =
     (if p = 0 then qm
      else (let f = p - FRAG_OVERHEAD; sz = fsize qm f;
                qm = qm\<lparr>used := used qm - of_nat sz, real_used := real_used qm - of_nat sz\<rparr>
            in fm_insert_free f qm))"

text \<open>Whether \<^verbatim>\<open>u.nxt_free\<close> of the fragment is set: it is on its free list and not the last one there.\<close>

definition nxt_free :: "fm_block \<Rightarrow> addr \<Rightarrow> bool" where
  "nxt_free qm n =
     (let l = free_list qm (GET_HASH (fsize qm n)) in n \<in> set l \<and> n \<noteq> last l)"

text \<open>
  The new address, the copy made (destination, source, length) if any, and the state; the result
  \<open>None\<close> is the call of \<^verbatim>\<open>abort\<close> when a free fragment is not on its list.
\<close>

definition fm_realloc ::
  "addr \<Rightarrow> nat \<Rightarrow> fm_block \<Rightarrow> (addr \<times> (addr \<times> addr \<times> nat) option \<times> fm_block) option" where
  "fm_realloc p sz0 qm =
     (if sz0 = 0 then Some (0, None, if p \<noteq> 0 then fm_free p qm else qm)
      else if p = 0 then (let (ptr, qm) = fm_malloc sz0 qm in Some (ptr, None, qm))
      else (let f = p - FRAG_OVERHEAD; sz = ROUNDUP sz0; orig_size = fsize qm f in
        if fsize qm f > sz then
          (let qm = fm_split_frag f sz qm in
           Some (p, None, qm\<lparr>
             real_used := real_used qm - (of_nat orig_size - of_nat (fsize qm f) - of_nat FRAG_OVERHEAD),
             used := used qm - (of_nat orig_size - of_nat (fsize qm f))\<rparr>))
        else if fsize qm f < sz then
          (let diff = sz - fsize qm f; n = FRAG_NEXT qm f in
           if n < last_frag qm \<and> nxt_free qm n \<and> fsize qm n + FRAG_OVERHEAD \<ge> diff then
             (let hash = GET_HASH (fsize qm n) in
              if n \<notin> set (free_list qm hash) then None
              else
                (let qm = fm_detach hash n qm;
                     qm = qm\<lparr>fsize := (fsize qm)(f := fsize qm f + (fsize qm n + FRAG_OVERHEAD)),
                             real_used := real_used qm - of_nat FRAG_OVERHEAD\<rparr>;
                     qm = (if fsize qm f > sz then fm_split_frag f sz qm else qm)
                 in Some (p, None, qm\<lparr>
                      real_used := real_used qm + (of_nat (fsize qm f) - of_nat orig_size),
                      used := used qm + (of_nat (fsize qm f) - of_nat orig_size)\<rparr>)))
           else
             (let (ptr, qm) = fm_malloc sz qm in
              if ptr \<noteq> 0 then Some (ptr, Some (ptr, p, orig_size), fm_free p qm)
              else Some (ptr, None, qm)))
        else Some (p, None, qm)))"

record mem_info =
  total_size :: nat
  free_mem :: u64
  used_mem :: u64
  real_used_mem :: u64
  max_used :: u64
  min_frag :: nat
  total_frags :: nat

definition fm_info :: "fm_block \<Rightarrow> mem_info" where
  "fm_info qm = \<lparr>total_size = bl_size qm, free_mem = of_nat (bl_size qm) - real_used qm,
     used_mem = used qm, real_used_mem = real_used qm, max_used = max_real_used qm,
     min_frag = MIN_FRAG_SIZE, total_frags = sum_list (map (free_no qm) [0..<F_HASH_SIZE])\<rparr>"

definition fm_available :: "fm_block \<Rightarrow> u64" where
  "fm_available qm = of_nat (bl_size qm) - real_used qm"

section \<open>Invariant\<close>

text \<open>The fragments \<open>fs\<close> tile the memory from \<open>a\<close> to \<open>e\<close>.\<close>

fun arena :: "(addr \<Rightarrow> nat) \<Rightarrow> addr \<Rightarrow> addr list \<Rightarrow> addr \<Rightarrow> bool" where
  "arena sz a [] e \<longleftrightarrow> a = e"
| "arena sz a (f # fs) e \<longleftrightarrow> f = a \<and> arena sz (a + FRAG_OVERHEAD + sz a) fs e"

definition free_frags :: "fm_block \<Rightarrow> addr set" where
  "free_frags qm = (\<Union>h<F_HASH_SIZE. set (free_list qm h))"

text \<open>The fragments in use.\<close>

definition in_use :: "fm_block \<Rightarrow> addr list \<Rightarrow> addr list" where
  "in_use qm fs = filter (\<lambda>f. f \<notin> free_frags qm) fs"

text \<open>The blocks handed out: address and usable size.\<close>

definition allocated :: "fm_block \<Rightarrow> addr list \<Rightarrow> (addr \<times> nat) set" where
  "allocated qm fs = (\<lambda>f. (f + FRAG_OVERHEAD, fsize qm f)) ` set (in_use qm fs)"

text \<open>
  Every bucket holds free fragments of its own size class, without repetition, big ones by
  increasing size; its counter and its bit agree with it.
\<close>

definition buckets_ok :: "fm_block \<Rightarrow> addr list \<Rightarrow> bool" where
  "buckets_ok qm fs \<longleftrightarrow> (\<forall>h<F_HASH_SIZE. distinct (free_list qm h) \<and>
     free_no qm h = length (free_list qm h) \<and>
     (\<forall>f\<in>set (free_list qm h). f \<in> set fs \<and> GET_HASH (fsize qm f) = h) \<and>
     (h > F_MALLOC_OPTIMIZE div ROUNDTO \<longrightarrow> sorted (map (fsize qm) (free_list qm h))))"

definition bitmap_ok :: "fm_block \<Rightarrow> bool" where
  "bitmap_ok qm \<longleftrightarrow> (\<forall>h<FM_HASH_BMP_SIZE * FM_HASH_BMP_BITS.
     fm_bmp_is_set qm h \<longleftrightarrow> h < F_HASH_SIZE \<and> free_list qm h \<noteq> [])"

definition fm_inv :: "fm_block \<Rightarrow> addr list \<Rightarrow> bool" where
  "fm_inv qm fs \<longleftrightarrow> arena (fsize qm) (first_frag qm) fs (last_frag qm + FRAG_OVERHEAD) \<and>
     last_frag qm + FRAG_OVERHEAD < 2 ^ 63 \<and> (\<forall>f\<in>set fs. fsize qm f mod ROUNDTO = 0) \<and>
     buckets_ok qm fs \<and> bitmap_ok qm"

text \<open>The statistics are those of the fragments.\<close>

definition stats_ok :: "fm_block \<Rightarrow> addr list \<Rightarrow> bool" where
  "stats_ok qm fs \<longleftrightarrow>
     used qm = of_nat (sum_list (map (fsize qm) (in_use qm fs))) \<and>
     real_used qm = of_nat (INIT_OVERHEAD + FRAG_OVERHEAD * (length fs - 1) +
       sum_list (map (fsize qm) (in_use qm fs)))"

text \<open>A consistent state with the blocks \<open>B\<close> handed out.\<close>

definition fm_rep :: "fm_block \<Rightarrow> (addr \<times> nat) set \<Rightarrow> bool" where
  "fm_rep qm B \<longleftrightarrow> (\<exists>fs. fm_inv qm fs \<and> stats_ok qm fs \<and> allocated qm fs = B)"

text \<open>
  A client of an allocator: it asks for memory and gives back the i-th block it holds.  It records
  the address and the size it asked for.
\<close>

datatype mem_op = Malloc nat | Free nat

fun mem_client ::
  "(nat \<Rightarrow> 's \<Rightarrow> addr \<times> 's) \<Rightarrow> (addr \<Rightarrow> 's \<Rightarrow> 's) \<Rightarrow> mem_op list \<Rightarrow> 's \<Rightarrow> (addr \<times> nat) list \<Rightarrow> 's \<times> (addr \<times> nat) list" where
  "mem_client mal fr [] s own = (s, own)"
| "mem_client mal fr (Malloc sz # ops) s own =
     (let (p, s') = mal sz s in mem_client mal fr ops s' (if p = 0 then own else (p, sz) # own))"
| "mem_client mal fr (Free i # ops) s own =
     (if i < length own then mem_client mal fr ops (fr (fst (own ! i)) s) (take i own @ drop (Suc i) own)
      else mem_client mal fr ops s own)"

text \<open>A pool of 64 kilobytes and its state after one allocation.\<close>

definition pool :: fm_block where
  "pool = the (fm_malloc_init 4096 65536)"
definition pool_ptr :: addr where
  "pool_ptr = fst (fm_malloc 100 pool)"
definition pool_used :: fm_block where
  "pool_used = snd (fm_malloc 100 pool)"

section \<open>Lemmas\<close>

subsection \<open>Sizes and size classes\<close>

lemma fm_consts:
  "F_HASH_SIZE = 2099" "FM_HASH_BMP_SIZE = 33" "FM_HASH_BMP_BITS = 64" "F_MALLOC_OPTIMIZE = 16384"
  "F_MALLOC_OPTIMIZE div ROUNDTO = 2048" "ROUNDTO = 8" "FRAG_OVERHEAD = 16"
  "F_MALLOC_OPTIMIZE_FACTOR = 14" "SIZEOF_BLOCK = 33896" "INIT_OVERHEAD = 33912"
  by (simp_all add: F_HASH_SIZE_def FM_HASH_BMP_SIZE_def FM_HASH_BMP_BITS_def F_MALLOC_OPTIMIZE_def
      F_MALLOC_OPTIMIZE_FACTOR_def ROUNDTO_def FRAG_OVERHEAD_def SIZEOF_BLOCK_def INIT_OVERHEAD_def
      ROUNDUP_def)

lemma ROUNDUP_facts:
  assumes "s + 7 < 2 ^ 64"
  shows "s \<le> ROUNDUP s" "ROUNDUP s < s + 8" "ROUNDUP s mod 8 = 0" "ROUNDUP s < 2 ^ 64"
proof -
  have r: "ROUNDUP s = (s + 7) div 8 * 8" using assms by (simp add: ROUNDUP_def fm_consts)
  have "(s + 7) div 8 * 8 + (s + 7) mod 8 = s + 7" by (rule div_mult_mod_eq)
  moreover have "(s + 7) mod 8 < 8" by simp
  ultimately show "s \<le> ROUNDUP s" "ROUNDUP s < s + 8" unfolding r by linarith+
  show "ROUNDUP s mod 8 = 0" unfolding r by simp
  show "ROUNDUP s < 2 ^ 64" using assms unfolding r by (metis div_times_less_eq_dividend le_less_trans)
qed

lemma ROUNDUP_mod: "ROUNDUP s mod 8 = 0" "ROUNDUP s < 2 ^ 64"
proof -
  show "ROUNDUP s mod 8 = 0" by (simp add: ROUNDUP_def fm_consts)
  have "ROUNDUP s \<le> (s + 7) mod 2 ^ 64" by (simp add: ROUNDUP_def fm_consts)
  also have "\<dots> < 2 ^ 64" by simp
  finally show "ROUNDUP s < 2 ^ 64" .
qed

lemma ROUNDUP_multiple: "s mod 8 = 0 \<Longrightarrow> s < 2 ^ 64 \<Longrightarrow> ROUNDUP s = s"
proof -
  assume a: "s mod 8 = 0" "s < 2 ^ 64"
  obtain k where k: "s = 8 * k" using a(1) by (metis mod_0_imp_dvd dvdE)
  have "k < 2 ^ 61" using a(2) k by simp
  then have "s + 7 < 2 ^ 64" using k by simp
  then show ?thesis using k by (simp add: ROUNDUP_def fm_consts)
qed

lemma is_msb_bounds:
  assumes "is_msb (v :: 'a::len word) m"
  shows "2 ^ m \<le> unat v" "unat v < 2 ^ (m + 1)"
proof -
  have "drop_bit m v \<noteq> 0" using assms by (auto simp: is_msb_def bit_drop_bit_eq dest: arg_cong [where f = "\<lambda>w. bit w 0"])
  then have "unat v div 2 ^ m \<noteq> 0" by (metis unat_drop_bit unat_eq_0)
  then show "2 ^ m \<le> unat v" by (metis div_less linorder_not_less)
  have "drop_bit (m + 1) v = 0" using assms by (intro bit_eqI) (auto simp: is_msb_def bit_drop_bit_eq)
  then have "unat v div 2 ^ (m + 1) = 0" by (metis unat_drop_bit unat_0)
  then show "unat v < 2 ^ (m + 1)" by (simp add: div_eq_0_iff)
qed

lemma big_hash_idx_bounds:
  assumes "0 < s" "s < 2 ^ 64"
  shows "2 ^ big_hash_idx s \<le> s" "s < 2 ^ (big_hash_idx s + 1)" "big_hash_idx s < 64"
proof -
  let ?v = "of_nat s :: u64"
  have u: "unat ?v = s" using assms(2) by (simp add: unsigned_of_nat take_bit_nat_eq_self)
  then have "?v \<noteq> 0" using assms(1) by auto
  then obtain m where m: "is_msb ?v m" using is_msb_ex by blast
  then have "big_hash_idx s = m" by (simp add: big_hash_idx_def br64.reverse_msb)
  then show "2 ^ big_hash_idx s \<le> s" "s < 2 ^ (big_hash_idx s + 1)" "big_hash_idx s < 64"
    using is_msb_bounds [OF m] is_msb_less [OF m] u by auto
qed

lemma GET_HASH_small: "s \<le> 16384 \<Longrightarrow> GET_HASH s = s div 8"
  by (simp add: GET_HASH_def fm_consts)

lemma GET_HASH_big:
  assumes "16384 < s" "s < 2 ^ 64"
  shows "\<exists>m. GET_HASH s = 2035 + m \<and> 14 \<le> m \<and> m < 64 \<and> 2 ^ m \<le> s \<and> s < 2 ^ (m + 1)"
proof -
  let ?m = "big_hash_idx s"
  have b: "2 ^ ?m \<le> s" "s < 2 ^ (?m + 1)" "?m < 64" using big_hash_idx_bounds [of s] assms by auto
  have "14 \<le> ?m"
  proof (rule ccontr)
    assume "\<not> 14 \<le> ?m"
    then have "(2::nat) ^ (?m + 1) \<le> 2 ^ 14" by (intro power_increasing) auto
    then show False using b(2) assms(1) by simp
  qed
  then show ?thesis using assms b by (intro exI [of _ ?m]) (simp add: GET_HASH_def fm_consts)
qed

lemma GET_HASH_less: "s < 2 ^ 64 \<Longrightarrow> GET_HASH s < 2099"
  using GET_HASH_small [of s] GET_HASH_big [of s] by (cases "s \<le> 16384") auto

lemma GET_HASH_mono:
  assumes "s \<le> t" "t < 2 ^ 64"
  shows "GET_HASH s \<le> GET_HASH t"
proof (cases "t \<le> 16384")
  case True
  then show ?thesis using assms(1) by (simp add: GET_HASH_small div_le_mono)
next
  case t: False
  then obtain m where m: "GET_HASH t = 2035 + m" "14 \<le> m" "t < 2 ^ (m + 1)"
    using GET_HASH_big [of t] assms(2) by auto
  show ?thesis
  proof (cases "s \<le> 16384")
    case True
    then have "GET_HASH s \<le> 16384 div 8" by (simp add: GET_HASH_small div_le_mono)
    then show ?thesis using m by simp
  next
    case False
    then obtain n where n: "GET_HASH s = 2035 + n" "2 ^ n \<le> s" using GET_HASH_big [of s] assms by auto
    have "(2::nat) ^ n < 2 ^ (m + 1)" using n(2) m(3) assms(1) by linarith
    then have "n < m + 1" by (rule power_less_imp_less_exp [rotated]) simp
    then show ?thesis using m n by simp
  qed
qed

lemma GET_HASH_bucket_small:
  assumes "GET_HASH s = h" "h \<le> 2048" "s < 2 ^ 64" "s mod 8 = 0"
  shows "s = 8 * h"
proof -
  have "s \<le> 16384"
  proof (rule ccontr)
    assume "\<not> s \<le> 16384"
    then show False using GET_HASH_big [of s] assms by auto
  qed
  then show ?thesis using assms by (auto simp: GET_HASH_small)
qed

lemma GET_HASH_bucket_big: "GET_HASH s = h \<Longrightarrow> 2048 < h \<Longrightarrow> 16384 < s"
  by (rule ccontr) (simp add: GET_HASH_small)

subsection \<open>The bitmap of the buckets that are not empty\<close>

lemma fm_bmp_is_set_bit: "fm_bmp_is_set qm b \<longleftrightarrow> bit (free_bitmap qm (b div 64)) (b mod 64)"
proof -
  have "free_bitmap qm (b div 64) AND push_bit (b mod 64) 1 =
      (if bit (free_bitmap qm (b div 64)) (b mod 64) then push_bit (b mod 64) 1 else 0)"
    by (intro bit_eqI) (auto simp: bit_simps)
  moreover have "push_bit (b mod 64) (1 :: u64) \<noteq> 0"
    by (simp add: push_bit_eq_mult flip: exp_eq_0_imp_not_bit)
  ultimately show ?thesis by (simp add: fm_bmp_is_set_def fm_consts)
qed

lemma div_mod_64_eq: "(a :: nat) div 64 = b div 64 \<Longrightarrow> a mod 64 = b mod 64 \<Longrightarrow> a = b"
  by (metis div_mult_mod_eq)

lemma fm_bmp_set_is_set: "fm_bmp_is_set (fm_bmp_set b qm) h \<longleftrightarrow> h = b \<or> fm_bmp_is_set qm h"
  by (auto simp: fm_bmp_is_set_bit fm_bmp_set_def fm_consts bit_simps dest: div_mod_64_eq)

lemma fm_bmp_reset_is_set: "fm_bmp_is_set (fm_bmp_reset b qm) h \<longleftrightarrow> h \<noteq> b \<and> fm_bmp_is_set qm h"
  by (auto simp: fm_bmp_is_set_bit fm_bmp_reset_def fm_consts bit_simps dest: div_mod_64_eq)

text \<open>The result of a search for the first set bit from \<open>start\<close> on.\<close>

definition first_set_ok :: "fm_block \<Rightarrow> nat \<Rightarrow> nat option \<Rightarrow> bool" where
  "first_set_ok qm start r \<longleftrightarrow> (case r of
     None \<Rightarrow> \<forall>j\<ge>start. j < 2112 \<longrightarrow> \<not> fm_bmp_is_set qm j
   | Some h \<Rightarrow> start \<le> h \<and> h < 2112 \<and> fm_bmp_is_set qm h \<and>
       (\<forall>j\<ge>start. j < h \<longrightarrow> \<not> fm_bmp_is_set qm j))"

lemma word_first_set:
  assumes "is_lsb (free_bitmap qm r) b" "r < 33"
  shows "first_set_ok qm (r * 64) (Some (r * 64 + b))"
proof -
  have b: "b < 64" using is_lsb_less [OF assms(1)] by simp
  have "\<not> fm_bmp_is_set qm j" if "r * 64 \<le> j" "j < r * 64 + b" for j
  proof -
    have "j = r * 64 + (j - r * 64)" "j - r * 64 < b" using that by auto
    then obtain k where "j = r * 64 + k" "k < b" by blast
    then show ?thesis using assms(1) b by (simp add: fm_bmp_is_set_bit is_lsb_def)
  qed
  then show ?thesis using assms b by (simp add: first_set_ok_def fm_bmp_is_set_bit is_lsb_def)
qed

lemma first_set_ok_skip:
  assumes "first_set_ok qm b r" "a \<le> b" "\<And>j. a \<le> j \<Longrightarrow> j < b \<Longrightarrow> \<not> fm_bmp_is_set qm j"
  shows "first_set_ok qm a r"
proof -
  have "\<not> fm_bmp_is_set qm j" if "a \<le> j" "b \<le> j \<longrightarrow> \<not> fm_bmp_is_set qm j" for j
    using that assms(3) by (cases "j < b") auto
  then show ?thesis using assms(1,2) by (cases r) (auto simp: first_set_ok_def)
qed

lemma fm_bmp_words_ok: "first_set_ok qm (r * 64) (fm_bmp_words qm r)"
proof (induction qm r rule: fm_bmp_words.induct)
  case (1 qm r)
  consider "r \<ge> 33" | b where "r < 33" "free_bitmap qm r \<noteq> 0" "is_lsb (free_bitmap qm r) b"
    | "r < 33" "free_bitmap qm r = 0" using is_lsb_ex by (metis linorder_not_le)
  then show ?case
  proof cases
    case 1
    then show ?thesis by (subst fm_bmp_words.simps) (simp add: fm_consts first_set_ok_def)
  next
    case 2
    then show ?thesis
      by (subst fm_bmp_words.simps) (simp add: fm_consts debruijn64.forward_lsb word_first_set)
  next
    case 3
    have "\<not> fm_bmp_is_set qm j" if "r * 64 \<le> j" "j < (r + 1) * 64" for j
    proof -
      have "j div 64 = r" using that by (simp add: div_nat_eqI)
      then show ?thesis using 3 by (simp add: fm_bmp_is_set_bit)
    qed
    then have "first_set_ok qm (r * 64) (fm_bmp_words qm (r + 1))"
      using first_set_ok_skip [OF 1] 3 by (simp add: fm_consts)
    then show ?thesis using 3 by (subst fm_bmp_words.simps) (simp add: fm_consts)
  qed
qed

lemma fm_bmp_first_set_ok:
  assumes "start < 2112"
  shows "first_set_ok qm start (fm_bmp_first_set qm start)"
proof -
  define r where "r = start div 64"
  define b where "b = start mod 64"
  define w where "w = free_bitmap qm r"
  have s: "start = r * 64 + b" and b64: "b < 64" and r33: "r < 33"
    using assms by (auto simp: r_def b_def div_mult_mod_eq less_mult_imp_div_less)
  have t: "w AND push_bit b 1 \<noteq> 0 \<longleftrightarrow> bit w b"
    using fm_bmp_is_set_bit [of qm start] by (simp add: fm_bmp_is_set_def fm_consts w_def r_def b_def)
  have set: "fm_bmp_is_set qm (r * 64 + k) \<longleftrightarrow> bit w k" if "k < 64" for k
    using that by (simp add: fm_bmp_is_set_bit w_def)
  have high: "bit (w AND NOT (push_bit b 1 - 1)) k \<longleftrightarrow> bit w k \<and> b \<le> k" for k
    using b64 by (auto simp: bit_simps push_bit_of_1 simp flip: mask_eq_exp_minus_1 dest: bit_imp_le_length)
  have unf: "fm_bmp_first_set qm start =
      (if bit w b then Some start
       else if w AND NOT (push_bit b 1 - 1) \<noteq> 0
       then Some (start + 1 + bit_scan_forward_debruijn64 (drop_bit (b + 1) w))
       else fm_bmp_words qm (r + 1))"
    unfolding fm_bmp_first_set_def Let_def fm_consts r_def [symmetric] b_def [symmetric] w_def [symmetric]
    unfolding t ..
  have inword: "\<exists>d. i = r * 64 + d \<and> b \<le> d \<and> d < n" if "start \<le> i" "i < r * 64 + n" for i n
    using that s by (intro exI [of _ "i - r * 64"]) linarith
  consider "bit w b" | "\<not> bit w b" "w AND NOT (push_bit b 1 - 1) \<noteq> 0"
    | "\<not> bit w b" "w AND NOT (push_bit b 1 - 1) = 0" by blast
  then show ?thesis
  proof cases
    case 1
    then have "fm_bmp_is_set qm start" using set [OF b64] s by simp
    then show ?thesis using 1 assms unfolding unf by (simp add: first_set_ok_def)
  next
    case 2
    then obtain k where k: "bit w k" "b \<le> k" using high by (metis word_bit_ex)
    then have "bit (drop_bit (b + 1) w) (k - (b + 1))" using 2(1) by (cases "k = b") (auto simp: bit_drop_bit_eq)
    then have "drop_bit (b + 1) w \<noteq> 0" by auto
    then obtain j where j: "is_lsb (drop_bit (b + 1) w) j" using is_lsb_ex by blast
    have v: "fm_bmp_first_set qm start = Some (r * 64 + (b + 1 + j))"
      unfolding unf using 2 debruijn64.forward_lsb [OF j] s by simp
    have wj: "bit w (b + 1 + j)" using j by (simp add: is_lsb_def bit_drop_bit_eq)
    then have bj: "b + 1 + j < 64" using bit_imp_le_length by fastforce
    have "\<not> fm_bmp_is_set qm i" if i: "start \<le> i" "i < r * 64 + (b + 1 + j)" for i
    proof -
      obtain d where d: "i = r * 64 + d" "b \<le> d" "d < b + 1 + j" using inword [OF i] by blast
      have "\<not> bit w d"
        using 2(1) j d by (cases "d = b") (auto simp: is_lsb_def bit_drop_bit_eq dest: spec [of _ "d - (b + 1)"])
      then show ?thesis using set d bj by simp
    qed
    moreover have "r * 64 + (b + 1 + j) < 2112" "start \<le> r * 64 + (b + 1 + j)" using bj r33 s by linarith+
    ultimately show ?thesis using set [OF bj] wj unfolding v first_set_ok_def by simp
  next
    case 3
    have "\<not> fm_bmp_is_set qm i" if i: "start \<le> i" "i < (r + 1) * 64" for i
    proof -
      obtain d where d: "i = r * 64 + d" "b \<le> d" "d < 64" using inword [of i 64] i by auto
      then show ?thesis using 3(2) high [of d] set by simp
    qed
    then have "first_set_ok qm start (fm_bmp_words qm (r + 1))"
      using first_set_ok_skip [OF fm_bmp_words_ok [of qm "r + 1"]] s b64 by simp
    then show ?thesis using 3 unfolding unf by simp
  qed
qed

subsection \<open>The arena\<close>

lemma arena_append: "arena sz a (xs @ ys) e \<longleftrightarrow> (\<exists>m. arena sz a xs m \<and> arena sz m ys e)"
  by (induction xs arbitrary: a) auto

lemma arena_cong: "(\<And>f. f \<in> set fs \<Longrightarrow> sz f = sz' f) \<Longrightarrow> arena sz a fs e = arena sz' a fs e"
  by (induction fs arbitrary: a) auto

lemma arena_le: "arena sz a fs e \<Longrightarrow> a \<le> e"
  by (induction fs arbitrary: a) fastforce+

lemma arena_bounds: "arena sz a fs e \<Longrightarrow> f \<in> set fs \<Longrightarrow> a \<le> f \<and> f + 16 + sz f \<le> e"
proof (induction fs arbitrary: a)
  case (Cons g fs)
  have ar: "arena sz (a + 16 + sz a) fs e" "g = a" using Cons.prems(1) by (auto simp: fm_consts)
  then show ?case using Cons.IH [OF ar(1)] arena_le [OF ar(1)] Cons.prems(2) by fastforce
qed simp

lemma arena_sorted: "arena sz a fs e \<Longrightarrow> sorted_wrt (\<lambda>f g. f + 16 + sz f \<le> g) fs"
proof (induction fs arbitrary: a)
  case (Cons g fs)
  have "arena sz (a + 16 + sz a) fs e" "g = a" using Cons.prems by (auto simp: fm_consts)
  then show ?case using Cons.IH arena_bounds by fastforce
qed simp

lemma arena_distinct: "arena sz a fs e \<Longrightarrow> distinct fs"
proof (induction fs arbitrary: a)
  case (Cons g fs)
  have "arena sz (a + 16 + sz a) fs e" "g = a" using Cons.prems by (auto simp: fm_consts)
  then show ?case using Cons.IH arena_bounds [of sz "a + 16 + sz a" fs e g] by auto
qed simp

lemma arena_disjoint:
  assumes "arena sz a fs e" "f \<in> set fs" "g \<in> set fs" "f \<noteq> g"
  shows "f + 16 + sz f \<le> g \<or> g + 16 + sz g \<le> f"
proof -
  obtain xs ys where fs: "fs = xs @ f # ys" using assms(2) by (meson split_list)
  obtain m where m: "arena sz a xs m" "f = m" "arena sz (f + 16 + sz f) ys e"
    using assms(1) unfolding fs arena_append by (auto simp: fm_consts)
  then show ?thesis using assms(3,4) arena_bounds [OF m(1)] arena_bounds [OF m(3)] by (auto simp: fs)
qed

text \<open>The arena around one of its fragments.\<close>

lemma arena_split:
  assumes "f \<in> set fs"
  shows "\<exists>xs ys. fs = xs @ f # ys \<and> (arena sz a fs e \<longleftrightarrow> arena sz a xs f \<and> arena sz (f + 16 + sz f) ys e)"
proof -
  obtain xs ys where fs: "fs = xs @ f # ys" using assms by (meson split_list)
  then show ?thesis by (intro exI [of _ xs] exI [of _ ys]) (auto simp: arena_append fm_consts)
qed

lemma fm_inv_size:
  assumes "fm_inv qm fs" "f \<in> set fs"
  shows "fsize qm f < 2 ^ 63" "fsize qm f < 2 ^ 64" "fsize qm f mod 8 = 0"
  using assms arena_bounds [of "fsize qm" "first_frag qm" fs "last_frag qm + 16" f]
  by (auto simp: fm_inv_def fm_consts)

lemma fm_inv_bucket:
  assumes "fm_inv qm fs" "h < 2099" "f \<in> set (free_list qm h)"
  shows "f \<in> set fs" "GET_HASH (fsize qm f) = h" "f \<in> free_frags qm"
  using assms by (auto simp: fm_inv_def buckets_ok_def free_frags_def fm_consts)

lemma free_frags_bucket:
  assumes "fm_inv qm fs" "f \<in> free_frags qm"
  shows "f \<in> set fs" "f \<in> set (free_list qm (GET_HASH (fsize qm f)))" "GET_HASH (fsize qm f) < 2099"
  using assms by (auto simp: fm_inv_def buckets_ok_def free_frags_def fm_consts)

lemma fm_inv_bit: "fm_inv qm fs \<Longrightarrow> h < 2112 \<Longrightarrow> fm_bmp_is_set qm h \<longleftrightarrow> h < 2099 \<and> free_list qm h \<noteq> []"
  by (simp add: fm_inv_def bitmap_ok_def fm_consts)

subsection \<open>The search for a fragment\<close>

lemma fm_search_big_ok:
  assumes "fm_inv qm fs" "hash < 2099"
  shows "case fm_search_big qm sz hash of
      None \<Rightarrow> \<forall>h\<ge>hash. h < 2099 \<longrightarrow> (\<forall>f\<in>set (free_list qm h). fsize qm f < sz)
    | Some (h, f) \<Rightarrow> h < 2099 \<and> f \<in> set (free_list qm h) \<and> sz \<le> fsize qm f"
  using assms
proof (induction qm sz hash rule: fm_search_big.induct)
  case (1 qm sz hash)
  show ?case
  proof (cases "find (\<lambda>f. fsize qm f \<ge> sz) (free_list qm hash)")
    case (Some f)
    then have "fm_search_big qm sz hash = Some (hash, f)" by (subst fm_search_big.simps) simp
    then show ?thesis using 1(3) Some by (auto simp: find_Some_iff)
  next
    case None
    then have here: "\<forall>f\<in>set (free_list qm hash). fsize qm f < sz" by (auto simp: find_None_iff)
    show ?thesis
    proof (cases "hash + 1 < 2099")
      case True
      have fs: "first_set_ok qm (hash + 1) (fm_bmp_first_set qm (hash + 1))"
        using True by (intro fm_bmp_first_set_ok) simp
      have empty: "h = hash \<or> free_list qm h = []"
        if "hash \<le> h" "h < 2099" "\<not> fm_bmp_is_set qm h \<or> h = hash" for h
        using fm_inv_bit [OF 1(2), of h] that by auto
      show ?thesis
      proof (cases "fm_bmp_first_set qm (hash + 1)")
        case N: None
        have "free_list qm h = []" if "hash < h" "h < 2099" for h
          using fs [unfolded N] empty [of h] that by (auto simp: first_set_ok_def)
        then show ?thesis using None True here N
          by (subst fm_search_big.simps) (auto simp: fm_consts le_less)
      next
        case S: (Some k)
        have k: "hash < k" "k < 2112" "fm_bmp_is_set qm k" "\<And>j. hash < j \<Longrightarrow> j < k \<Longrightarrow> \<not> fm_bmp_is_set qm j"
          using fs [unfolded S] by (auto simp: first_set_ok_def)
        have k': "k < 2099" using fm_inv_bit [OF 1(2) k(2)] k(3) by simp
        have skip: "free_list qm h = []" if "hash < h" "h < k" for h
          using k(4) empty [of h] that k' by auto
        have "fm_search_big qm sz hash = fm_search_big qm sz k"
          using None True S by (subst fm_search_big.simps) (simp add: fm_consts)
        moreover note 1(1) [OF None _ S 1(2) k'] True
        ultimately show ?thesis using here skip
          by (auto simp: fm_consts split: option.splits) (metis empty_iff le_neq_implies_less linorder_not_less list.set(1))
      qed
    next
      case False
      have "fsize qm f < sz" if h: "hash \<le> h" "h < 2099" "f \<in> set (free_list qm h)" for h f
      proof -
        have "h = hash" using h False by simp
        then show ?thesis using here h(3) by simp
      qed
      then show ?thesis using None False by (subst fm_search_big.simps) (auto simp: fm_consts)
    qed
  qed
qed

lemma fm_search_ok:
  assumes inv: "fm_inv qm fs" and sz: "sz < 2 ^ 64" "sz mod 8 = 0"
  shows "case fm_search qm sz of
      None \<Rightarrow> \<forall>f\<in>free_frags qm. fsize qm f < sz
    | Some (h, f) \<Rightarrow> h < 2099 \<and> f \<in> set (free_list qm h) \<and> sz \<le> fsize qm f"
proof -
  have g: "GET_HASH sz < 2099" by (rule GET_HASH_less [OF sz(1)])
  then have fs: "first_set_ok qm (GET_HASH sz) (fm_bmp_first_set qm (GET_HASH sz))"
    by (intro fm_bmp_first_set_ok) simp
  have low: "GET_HASH sz \<le> GET_HASH (fsize qm f)" if "f \<in> free_frags qm" "sz \<le> fsize qm f" for f
    using GET_HASH_mono [OF that(2)] fm_inv_size(2) [OF inv free_frags_bucket(1) [OF inv that(1)]] by simp
  have bit: "fm_bmp_is_set qm (GET_HASH (fsize qm f))" if "f \<in> free_frags qm" for f
    using free_frags_bucket(2,3) [OF inv that] fm_inv_bit [OF inv, of "GET_HASH (fsize qm f)"] by auto
  show ?thesis
  proof (cases "fm_bmp_first_set qm (GET_HASH sz)")
    case None
    have "fsize qm f < sz" if f: "f \<in> free_frags qm" for f
    proof (rule ccontr)
      assume "\<not> fsize qm f < sz"
      then have "GET_HASH sz \<le> GET_HASH (fsize qm f)" using low [OF f] by simp
      then show False
        using fs [unfolded None] bit [OF f] free_frags_bucket(3) [OF inv f] by (simp add: first_set_ok_def)
    qed
    then show ?thesis using None by (simp add: fm_search_def)
  next
    case (Some k)
    have k: "GET_HASH sz \<le> k" "k < 2112" "fm_bmp_is_set qm k"
      "\<And>j. GET_HASH sz \<le> j \<Longrightarrow> j < k \<Longrightarrow> \<not> fm_bmp_is_set qm j"
      using fs [unfolded Some] by (auto simp: first_set_ok_def)
    have k': "k < 2099" "free_list qm k \<noteq> []" using fm_inv_bit [OF inv k(2)] k(3) by auto
    show ?thesis
    proof (cases "k \<le> 2048")
      case True
      let ?f = "hd (free_list qm k)"
      have f: "?f \<in> set (free_list qm k)" using k'(2) by simp
      have "fsize qm ?f = 8 * k"
        using GET_HASH_bucket_small [OF fm_inv_bucket(2) [OF inv k'(1) f] True]
          fm_inv_size(2,3) [OF inv fm_inv_bucket(1) [OF inv k'(1) f]] by simp
      moreover have "sz = 8 * GET_HASH sz"
        using GET_HASH_bucket_small [OF refl _ sz] k(1) True by simp
      ultimately have "sz \<le> fsize qm ?f" using k(1) by linarith
      then show ?thesis using Some True f k' by (simp add: fm_search_def fm_consts)
    next
      case False
      have "fsize qm f < sz" if "\<forall>h\<ge>k. h < 2099 \<longrightarrow> (\<forall>f\<in>set (free_list qm h). fsize qm f < sz)"
        "f \<in> free_frags qm" for f
      proof (rule ccontr)
        assume c: "\<not> fsize qm f < sz"
        then have "k \<le> GET_HASH (fsize qm f)" using low [OF that(2)] k(4) bit [OF that(2)] by (meson not_le)
        then show False using c that free_frags_bucket(2,3) [OF inv that(2)] by blast
      qed
      then show ?thesis using fm_search_big_ok [OF inv k'(1), of sz] Some False
        by (auto simp: fm_search_def fm_consts split: option.splits)
    qed
  qed
qed

subsection \<open>Inserting, detaching and splitting\<close>

lemma insert_big_set [simp]: "set (insert_big sz f l) = insert f (set l)"
  by (induction l) auto

lemma insert_big_length [simp]: "length (insert_big sz f l) = Suc (length l)"
  by (induction l) auto

lemma insert_big_distinct: "distinct (insert_big sz f l) \<longleftrightarrow> f \<notin> set l \<and> distinct l"
  by (induction l) auto

lemma insert_big_sorted: "sorted (map sz l) \<Longrightarrow> sorted (map sz (insert_big sz f l))"
  by (induction l) auto

lemma insert_free_fields [simp]:
  "fsize (fm_insert_free f qm) = fsize qm" "first_frag (fm_insert_free f qm) = first_frag qm"
  "last_frag (fm_insert_free f qm) = last_frag qm" "used (fm_insert_free f qm) = used qm"
  "real_used (fm_insert_free f qm) = real_used qm" "bl_size (fm_insert_free f qm) = bl_size qm"
  by (simp_all add: fm_insert_free_def fm_bmp_set_def Let_def)

lemma detach_fields [simp]:
  "fsize (fm_detach h f qm) = fsize qm" "first_frag (fm_detach h f qm) = first_frag qm"
  "last_frag (fm_detach h f qm) = last_frag qm" "used (fm_detach h f qm) = used qm"
  "real_used (fm_detach h f qm) = real_used qm" "bl_size (fm_detach h f qm) = bl_size qm"
  by (simp_all add: fm_detach_def fm_bmp_reset_def Let_def)

lemma insert_free_list:
  "free_list (fm_insert_free f qm) = (free_list qm)(GET_HASH (fsize qm f) :=
     (if fsize qm f > 16384 then insert_big (fsize qm) f (free_list qm (GET_HASH (fsize qm f)))
      else f # free_list qm (GET_HASH (fsize qm f))))"
  "free_no (fm_insert_free f qm) = (free_no qm)(GET_HASH (fsize qm f) := free_no qm (GET_HASH (fsize qm f)) + 1)"
  "fm_bmp_is_set (fm_insert_free f qm) h \<longleftrightarrow> h = GET_HASH (fsize qm f) \<or> fm_bmp_is_set qm h"
  unfolding fm_insert_free_def Let_def fm_bmp_set_is_set
  by (simp_all add: fm_bmp_set_def fm_consts fm_bmp_is_set_def)

lemma detach_list:
  "free_list (fm_detach h f qm) = (free_list qm)(h := remove1 f (free_list qm h))"
  "free_no (fm_detach h f qm) = (free_no qm)(h := free_no qm h - 1)"
  "fm_bmp_is_set (fm_detach h f qm) j \<longleftrightarrow> (j \<noteq> h \<or> free_no qm h - 1 \<noteq> 0) \<and> fm_bmp_is_set qm j"
proof -
  show "fm_bmp_is_set (fm_detach h f qm) j \<longleftrightarrow> (j \<noteq> h \<or> free_no qm h - 1 \<noteq> 0) \<and> fm_bmp_is_set qm j"
    unfolding fm_detach_def Let_def by (simp add: fm_bmp_reset_is_set) (simp add: fm_bmp_is_set_def)
qed (simp_all add: fm_detach_def fm_bmp_reset_def Let_def)

lemma insert_free_ok:
  assumes inv: "fm_inv qm fs" and f: "f \<in> set fs" "f \<notin> free_frags qm"
  shows "fm_inv (fm_insert_free f qm) fs" "free_frags (fm_insert_free f qm) = insert f (free_frags qm)"
proof -
  define h where "h = GET_HASH (fsize qm f)"
  define l where "l = (if fsize qm f > 16384 then insert_big (fsize qm) f (free_list qm h) else f # free_list qm h)"
  have h: "h < 2099" unfolding h_def by (rule GET_HASH_less [OF fm_inv_size(2) [OF inv f(1)]])
  have fl: "free_list (fm_insert_free f qm) = (free_list qm)(h := l)"
    by (simp add: insert_free_list h_def l_def)
  have l: "set l = insert f (set (free_list qm h))" "length l = Suc (length (free_list qm h))"
    by (simp_all add: l_def)
  have b: "buckets_ok qm fs" "bitmap_ok qm" using inv by (simp_all add: fm_inv_def)
  have nf: "f \<notin> set (free_list qm h)" using f(2) h by (auto simp: free_frags_def fm_consts)
  have dl: "distinct l" using b(1) h nf by (simp add: l_def buckets_ok_def insert_big_distinct fm_consts)
  have sl: "sorted (map (fsize qm) l)" if "2048 < h"
    using b(1) h that GET_HASH_bucket_big [of "fsize qm f" h]
    by (simp add: l_def h_def [symmetric] buckets_ok_def insert_big_sorted fm_consts)
  have "buckets_ok (fm_insert_free f qm) fs"
    using b(1) h dl sl l f(1) unfolding buckets_ok_def fl
    by (auto simp: insert_free_list(2) h_def [symmetric] fm_consts)
  moreover have "bitmap_ok (fm_insert_free f qm)"
    using b(2) h l(1) unfolding bitmap_ok_def fl by (auto simp: insert_free_list(3) h_def [symmetric] fm_consts)
  ultimately show "fm_inv (fm_insert_free f qm) fs" using inv by (simp add: fm_inv_def)
  show "free_frags (fm_insert_free f qm) = insert f (free_frags qm)"
    using h l(1) unfolding free_frags_def fl by (auto simp: fm_consts split: if_splits)
qed

lemma detach_ok:
  assumes inv: "fm_inv qm fs" and h: "h < 2099" and f: "f \<in> set (free_list qm h)"
  shows "fm_inv (fm_detach h f qm) fs" "free_frags (fm_detach h f qm) = free_frags qm - {f}"
proof -
  have b: "buckets_ok qm fs" "bitmap_ok qm" using inv by (simp_all add: fm_inv_def)
  have d: "distinct (free_list qm h)" "free_no qm h = length (free_list qm h)"
    using b(1) h by (simp_all add: buckets_ok_def fm_consts)
  have len: "length (remove1 f (free_list qm h)) = length (free_list qm h) - 1" using f by (simp add: length_remove1)
  have ne: "remove1 f (free_list qm h) \<noteq> [] \<longleftrightarrow> free_no qm h - 1 \<noteq> 0" using d(2) len by (metis length_0_conv)
  have sl: "sorted (map (fsize qm) (remove1 f (free_list qm h)))" if "2048 < h"
    using b(1) h that by (simp add: buckets_ok_def fm_consts sorted_map_remove1)
  have "buckets_ok (fm_detach h f qm) fs"
    using b(1) h d len sl unfolding buckets_ok_def detach_list(1,2)
    by (auto simp: fm_consts dest: notin_set_remove1 in_set_remove1)
  moreover have "bitmap_ok (fm_detach h f qm)"
  proof -
    have "fm_bmp_is_set (fm_detach h f qm) j \<longleftrightarrow> j < 2099 \<and> ((free_list qm)(h := remove1 f (free_list qm h))) j \<noteq> []"
      if "j < 2112" for j
    proof -
      have j: "fm_bmp_is_set qm j \<longleftrightarrow> j < 2099 \<and> free_list qm j \<noteq> []" by (rule fm_inv_bit [OF inv that])
      show ?thesis unfolding detach_list(3) j using h f ne by (cases "j = h") auto
    qed
    then show ?thesis unfolding bitmap_ok_def detach_list(1) by (simp add: fm_consts)
  qed
  ultimately show "fm_inv (fm_detach h f qm) fs" using inv by (simp add: fm_inv_def)
  have "f \<notin> set (free_list qm j)" if "j < 2099" "j \<noteq> h" for j
    using fm_inv_bucket(2) [OF inv h f] fm_inv_bucket(2) [OF inv that(1)] that(2) by auto
  then show "free_frags (fm_detach h f qm) = free_frags qm - {f}"
    using d(1) h unfolding free_frags_def detach_list(1) by (auto simp: fm_consts split: if_splits)
qed

lemma buckets_frame:
  assumes inv: "fm_inv qm fs" and fl: "free_list qm1 = free_list qm" "free_no qm1 = free_no qm"
    and keep: "\<And>g h. g \<in> set (free_list qm h) \<Longrightarrow> h < 2099 \<Longrightarrow> fsize qm1 g = fsize qm g \<and> g \<in> set fs'"
  shows "buckets_ok qm1 fs'"
  unfolding buckets_ok_def
proof (intro allI impI)
  fix h assume h: "h < F_HASH_SIZE"
  have meq: "map (fsize qm1) (free_list qm h) = map (fsize qm) (free_list qm h)"
    using keep h by (simp add: fm_consts)
  have bk: "distinct (free_list qm h)" "free_no qm h = length (free_list qm h)"
    "\<forall>g\<in>set (free_list qm h). g \<in> set fs \<and> GET_HASH (fsize qm g) = h"
    "h > F_MALLOC_OPTIMIZE div ROUNDTO \<longrightarrow> sorted (map (fsize qm) (free_list qm h))"
    using inv h by (auto simp: fm_inv_def buckets_ok_def)
  show "distinct (free_list qm1 h) \<and> free_no qm1 h = length (free_list qm1 h) \<and>
      (\<forall>f\<in>set (free_list qm1 h). f \<in> set fs' \<and> GET_HASH (fsize qm1 f) = h) \<and>
      (h > F_MALLOC_OPTIMIZE div ROUNDTO \<longrightarrow> sorted (map (fsize qm1) (free_list qm1 h)))"
    unfolding fl meq using bk keep h unfolding fm_consts by auto
qed

lemma split_arena:
  assumes inv: "fm_inv qm fs" and f: "f \<in> set fs" "f \<notin> free_frags qm"
    and sz: "sz mod 8 = 0" "sz + 16 \<le> fsize qm f" and n: "n = f + 16 + sz"
    and qm1: "qm1 = qm\<lparr>fsize := (fsize qm)(f := sz, n := fsize qm f - sz - 16), real_used := ru\<rparr>"
  shows "\<exists>fs'. fm_inv qm1 fs' \<and> n \<notin> set fs \<and> set fs' = insert n (set fs) \<and> length fs' = Suc (length fs)"
proof -
  obtain xs ys where fs: "fs = xs @ f # ys"
    and ar: "arena (fsize qm) (first_frag qm) xs f" "arena (fsize qm) (f + 16 + fsize qm f) ys (last_frag qm + 16)"
    using arena_split [OF f(1), of "fsize qm" "first_frag qm" "last_frag qm + 16"] inv
    by (auto simp: fm_inv_def fm_consts)
  have out: "g \<noteq> f \<and> g \<noteq> n" if "g \<in> set xs \<union> set ys" for g
    using that arena_bounds [OF ar(1), of g] arena_bounds [OF ar(2), of g] sz(2) n by auto
  have nn: "n \<notin> set fs" using out n by (auto simp: fs)
  have same: "fsize qm1 g = fsize qm g" if "g \<in> set xs \<union> set ys" for g
    using out [OF that] by (simp add: qm1)
  have "arena (fsize qm1) (first_frag qm) xs f"
    using ar(1) arena_cong [of xs "fsize qm1" "fsize qm"] same by auto
  moreover have "arena (fsize qm1) (f + 16 + fsize qm f) ys (last_frag qm + 16)"
    using ar(2) arena_cong [of ys "fsize qm1" "fsize qm"] same by auto
  moreover have "fsize qm1 f = sz" "fsize qm1 n = fsize qm f - sz - 16" using n by (auto simp: qm1)
  moreover have "f + 16 + fsize qm f = n + 16 + (fsize qm f - sz - 16)" using n sz(2) by linarith
  ultimately have "arena (fsize qm1) (first_frag qm) xs f" "fsize qm1 f = sz"
    "arena (fsize qm1) (n + 16 + fsize qm1 n) ys (last_frag qm + 16)" by simp_all
  then have ar': "arena (fsize qm1) (first_frag qm) (xs @ f # n # ys) (last_frag qm + 16)"
    using n unfolding arena_append by (auto simp: fm_consts intro!: exI [of _ f])
  have md: "fsize qm1 g mod 8 = 0" if "g \<in> set (xs @ f # n # ys)" for g
  proof -
    have "(fsize qm f - sz - 16) mod 8 = 0"
      using fm_inv_size(3) [OF inv f(1)] sz by (simp add: mod_eq_0_iff_dvd)
    then show ?thesis using that same sz(1) fm_inv_size(3) [OF inv, of g] by (auto simp: qm1 fs)
  qed
  have keep: "fsize qm1 g = fsize qm g \<and> g \<in> set (xs @ f # n # ys)" if "g \<in> set (free_list qm h)" "h < 2099" for g h
    using same fm_inv_bucket [OF inv that(2,1)] f(2) by (auto simp: fs)
  have "buckets_ok qm1 (xs @ f # n # ys)"
    by (rule buckets_frame [OF inv _ _ keep]) (simp_all add: qm1)
  moreover have "bitmap_ok qm1"
    using inv by (simp add: fm_inv_def bitmap_ok_def fm_bmp_is_set_def qm1)
  moreover have "first_frag qm1 = first_frag qm" "last_frag qm1 = last_frag qm" by (simp_all add: qm1)
  ultimately have "fm_inv qm1 (xs @ f # n # ys)" using ar' md inv unfolding fm_inv_def fm_consts by auto
  then show ?thesis using nn by (intro exI [of _ "xs @ f # n # ys"]) (auto simp: fs)
qed

lemma split_ok:
  assumes inv: "fm_inv qm fs" and f: "f \<in> set fs" "f \<notin> free_frags qm"
    and sz: "sz mod 8 = 0" "sz \<le> fsize qm f"
  shows "\<exists>fs'. fm_inv (fm_split_frag f sz qm) fs' \<and> set (in_use (fm_split_frag f sz qm) fs') = set (in_use qm fs) \<and>
    set fs \<subseteq> set fs' \<and>
    sz \<le> fsize (fm_split_frag f sz qm) f \<and> fsize (fm_split_frag f sz qm) f \<le> fsize qm f \<and>
    (\<forall>g\<in>set fs. g \<noteq> f \<longrightarrow> fsize (fm_split_frag f sz qm) g = fsize qm g) \<and>
    used (fm_split_frag f sz qm) = used qm \<and> length fs \<le> length fs' \<and>
    real_used (fm_split_frag f sz qm) = real_used qm + of_nat (16 * (length fs' - length fs)) \<and>
    (length fs' = length fs \<longrightarrow> fsize (fm_split_frag f sz qm) f = fsize qm f) \<and>
    (length fs' \<noteq> length fs \<longrightarrow> length fs' = Suc (length fs) \<and> fsize (fm_split_frag f sz qm) f = sz)"
proof (cases "fsize qm f - sz > 16400 \<or> fsize qm f - sz \<ge> 16 + sz")
  case False
  then have "fm_split_frag f sz qm = qm" by (simp add: fm_split_frag_def Let_def fm_consts)
  then show ?thesis using inv sz by (intro exI [of _ fs]) auto
next
  case True
  define n where "n = f + 16 + sz"
  define qm1 where "qm1 = qm\<lparr>fsize := (fsize qm)(f := sz, n := fsize qm f - sz - 16), real_used := real_used qm + 16\<rparr>"
  have s16: "sz + 16 \<le> fsize qm f" using True sz(2) by linarith
  obtain fs' where fs': "fm_inv qm1 fs'" "n \<notin> set fs" "set fs' = insert n (set fs)" "length fs' = Suc (length fs)"
    using split_arena [OF inv f sz(1) s16 n_def qm1_def] by blast
  have eq: "fm_split_frag f sz qm = fm_insert_free n qm1"
    using True by (simp add: fm_split_frag_def Let_def fm_consts FRAG_NEXT_def n_def qm1_def)
  have fr: "free_frags qm1 = free_frags qm" by (simp add: free_frags_def qm1_def)
  have nf: "n \<notin> free_frags qm1" using fs'(2) free_frags_bucket(1) [OF inv] fr by auto
  note ins = insert_free_ok [OF fs'(1) _ nf]
  have "n \<in> set fs'" using fs'(3) by simp
  moreover have "set (in_use (fm_insert_free n qm1) fs') = set (in_use qm fs)"
    using ins(2) fs'(2,3) by (auto simp: in_use_def fr)
  moreover have "fsize qm1 f = sz" "\<forall>g\<in>set fs. g \<noteq> f \<longrightarrow> fsize qm1 g = fsize qm g"
    using n_def fs'(2) by (auto simp: qm1_def)
  moreover have "real_used qm1 = real_used qm + 16" "used qm1 = used qm" by (simp_all add: qm1_def)
  ultimately show ?thesis unfolding eq using ins(1) fs'(3,4) s16
    by (intro exI [of _ fs']) auto
qed

subsection \<open>Statistics and blocks\<close>

lemma in_use_sum:
  assumes "fm_inv qm fs"
  shows "sum_list (map g (in_use qm fs)) = sum g (set (in_use qm fs))"
proof -
  have "distinct fs" using assms arena_distinct by (auto simp: fm_inv_def)
  then show ?thesis by (simp add: in_use_def sum_list_distinct_conv_sum_set)
qed

lemma stats_alt:
  assumes "fm_inv qm fs"
  shows "stats_ok qm fs \<longleftrightarrow> used qm = of_nat (sum (fsize qm) (set (in_use qm fs))) \<and>
    real_used qm = of_nat (33912 + 16 * (length fs - 1)) + used qm"
  unfolding stats_ok_def in_use_sum [OF assms] fm_consts by auto

lemma allocated_disjoint:
  assumes inv: "fm_inv qm fs" and "(p, n) \<in> allocated qm fs" "(q, m) \<in> allocated qm fs" "p \<noteq> q"
  shows "p + n + 16 \<le> q \<or> q + m + 16 \<le> p"
  using assms arena_disjoint [of "fsize qm" "first_frag qm" fs "last_frag qm + 16" "p - 16" "q - 16"]
  by (auto simp: allocated_def in_use_def fm_inv_def fm_consts)

lemma allocated_bounds:
  assumes "fm_inv qm fs" "(p, n) \<in> allocated qm fs"
  shows "first_frag qm + 16 \<le> p \<and> p + n \<le> last_frag qm + 16"
  using assms arena_bounds [of "fsize qm" "first_frag qm" fs "last_frag qm + 16" "p - 16"]
  by (auto simp: allocated_def in_use_def fm_inv_def fm_consts)

lemma stats_cong:
  "fm_inv (qm\<lparr>used := u, real_used := r, max_real_used := m\<rparr>) fs \<longleftrightarrow> fm_inv qm fs"
  "fm_inv (qm\<lparr>used := u, real_used := r\<rparr>) fs \<longleftrightarrow> fm_inv qm fs"
  "free_frags (qm\<lparr>used := u, real_used := r, max_real_used := m\<rparr>) = free_frags qm"
  "free_frags (qm\<lparr>used := u, real_used := r\<rparr>) = free_frags qm"
  by (simp_all add: fm_inv_def buckets_ok_def bitmap_ok_def fm_bmp_is_set_def free_frags_def)

lemma malloc_fail: "fst (fm_malloc sz qm) = 0 \<longleftrightarrow> fm_search qm (ROUNDUP sz) = None"
  by (auto simp: fm_malloc_def Let_def fm_consts split: option.splits)

lemma malloc_state:
  assumes "fm_search qm (ROUNDUP sz) = Some (h, f)"
  shows "\<exists>m. fm_malloc sz qm = (f + 16,
     (fm_split_frag f (ROUNDUP sz) (fm_detach h f qm))\<lparr>
       used := used (fm_split_frag f (ROUNDUP sz) (fm_detach h f qm)) +
         of_nat (fsize (fm_split_frag f (ROUNDUP sz) (fm_detach h f qm)) f),
       real_used := real_used (fm_split_frag f (ROUNDUP sz) (fm_detach h f qm)) +
         of_nat (fsize (fm_split_frag f (ROUNDUP sz) (fm_detach h f qm)) f),
       max_real_used := m\<rparr>)"
proof -
  let ?q = "fm_split_frag f (ROUNDUP sz) (fm_detach h f qm)"
  let ?r = "real_used ?q + of_nat (fsize ?q f)"
  show ?thesis using assms
    by (intro exI [of _ "if max_real_used ?q < ?r then ?r else max_real_used ?q"])
      (cases ?q, simp add: fm_malloc_def Let_def fm_consts)
qed

text \<open>What an allocation does to the fragments.\<close>

lemma malloc_ok:
  assumes inv: "fm_inv qm fs" and st: "stats_ok qm fs" and mal: "fm_malloc sz qm = (p, qm')" "p \<noteq> 0"
  shows "\<exists>fs' f. fm_inv qm' fs' \<and> stats_ok qm' fs' \<and> p = f + 16 \<and> f \<in> free_frags qm \<and>
    ROUNDUP sz \<le> fsize qm' f \<and> fsize qm' f \<le> fsize qm f \<and>
    allocated qm' fs' = insert (p, fsize qm' f) (allocated qm fs)"
proof -
  obtain h f where s: "fm_search qm (ROUNDUP sz) = Some (h, f)"
    using mal malloc_fail [of sz qm] by (metis fst_conv not_None_eq surj_pair)
  have hf: "h < 2099" "f \<in> set (free_list qm h)" "ROUNDUP sz \<le> fsize qm f"
    using fm_search_ok [OF inv, of "ROUNDUP sz"] s ROUNDUP_mod by auto
  define q1 where "q1 = fm_detach h f qm"
  define q2 where "q2 = fm_split_frag f (ROUNDUP sz) q1"
  have d: "fm_inv q1 fs" "free_frags q1 = free_frags qm - {f}"
    using detach_ok [OF inv hf(1,2)] by (simp_all add: q1_def)
  have ff: "f \<in> set fs" "f \<in> free_frags qm" using fm_inv_bucket [OF inv hf(1,2)] by auto
  have le: "ROUNDUP sz \<le> fsize q1 f" and nf: "f \<notin> free_frags q1" using hf(3) d(2) by (simp_all add: q1_def)
  obtain fs' where fs': "fm_inv q2 fs'" "set (in_use q2 fs') = set (in_use q1 fs)" "set fs \<subseteq> set fs'"
      "ROUNDUP sz \<le> fsize q2 f" "fsize q2 f \<le> fsize q1 f" "\<forall>g\<in>set fs. g \<noteq> f \<longrightarrow> fsize q2 g = fsize q1 g"
      "used q2 = used q1" "length fs \<le> length fs'" "real_used q2 = real_used q1 + of_nat (16 * (length fs' - length fs))"
    using split_ok [OF d(1) ff(1) nf ROUNDUP_mod(1) le, folded q2_def] by blast
  have fl: "fsize q1 = fsize qm" "used q1 = used qm" "real_used q1 = real_used qm" by (simp_all add: q1_def)
  obtain m where m: "p = f + 16" "qm' = q2\<lparr>used := used q2 + of_nat (fsize q2 f),
      real_used := real_used q2 + of_nat (fsize q2 f), max_real_used := m\<rparr>"
    using malloc_state [OF s] mal unfolding q1_def q2_def by auto
  have inv': "fm_inv qm' fs'" using fs'(1) unfolding m(2) stats_cong .
  have iu: "set (in_use qm' fs') = insert f (set (in_use qm fs))" "f \<notin> set (in_use qm fs)"
    using fs'(2) ff d(2) by (auto simp: m(2) in_use_def stats_cong)
  have szs: "fsize qm' g = fsize qm g" if "g \<in> set (in_use qm fs)" for g
    using that fs'(6) iu(2) by (auto simp: m(2) in_use_def fl)
  have sum: "sum (fsize qm') (set (in_use qm' fs')) = fsize q2 f + sum (fsize qm) (set (in_use qm fs))"
    using iu szs by (simp add: m(2))
  have len: "16 * (length fs' - 1) = 16 * (length fs - 1) + 16 * (length fs' - length fs)"
    using fs'(8) ff(1) by (cases fs) auto
  have "stats_ok qm' fs'"
    using st unfolding stats_alt [OF inv'] stats_alt [OF inv] sum len
    by (simp add: m(2) fs'(7,9) fl algebra_simps)
  moreover have "allocated qm' fs' = insert (p, fsize qm' f) (allocated qm fs)"
    using szs unfolding allocated_def iu(1) by (auto simp: m(1) fm_consts)
  ultimately show ?thesis
    using inv' ff(2) fs'(4,5) m by (intro exI [of _ fs'] exI [of _ f]) (simp add: fl)
qed

lemma free_ok:
  assumes inv: "fm_inv qm fs" and st: "stats_ok qm fs" and p: "(p, n) \<in> allocated qm fs"
  shows "fm_inv (fm_free p qm) fs" "stats_ok (fm_free p qm) fs" "allocated (fm_free p qm) fs = allocated qm fs - {(p, n)}"
proof -
  obtain f where f: "p = f + 16" "n = fsize qm f" "f \<in> set fs" "f \<notin> free_frags qm"
    using p by (auto simp: allocated_def in_use_def fm_consts)
  define q1 where "q1 = qm\<lparr>used := used qm - of_nat n, real_used := real_used qm - of_nat n\<rparr>"
  have q: "fm_free p qm = fm_insert_free f q1" by (simp add: fm_free_def f fm_consts Let_def q1_def)
  have i: "fm_inv q1 fs" "free_frags q1 = free_frags qm" using inv unfolding q1_def stats_cong by auto
  note ins = insert_free_ok [OF i(1) f(3), unfolded i(2), OF f(4)]
  have iu: "set (in_use (fm_free p qm) fs) = set (in_use qm fs) - {f}" "f \<in> set (in_use qm fs)"
    using f(3,4) unfolding q in_use_def ins(2) by auto
  have fs: "fsize (fm_free p qm) = fsize qm" by (simp add: q q1_def)
  show inv': "fm_inv (fm_free p qm) fs" using ins(1) q by simp
  have "sum (fsize qm) (set (in_use qm fs)) = n + sum (fsize qm) (set (in_use qm fs) - {f})"
    using iu(2) f(2) by (simp add: sum.remove)
  then show "stats_ok (fm_free p qm) fs"
    using st unfolding stats_alt [OF inv'] stats_alt [OF inv] iu(1) fs by (simp add: q q1_def)
  show "allocated (fm_free p qm) fs = allocated qm fs - {(p, n)}"
    unfolding allocated_def iu(1) fs using f by (auto simp: fm_consts)
qed

subsection \<open>Resizing\<close>

lemma stats_len:
  assumes "fm_inv qm fs" "fs \<noteq> []"
  shows "stats_ok qm fs \<longleftrightarrow> used qm = of_nat (sum (fsize qm) (set (in_use qm fs))) \<and>
    real_used qm = 33896 + 16 * of_nat (length fs) + used qm"
  unfolding stats_alt [OF assms(1)] using assms(2) by (cases fs) (auto simp: algebra_simps)

lemma resize_rep:
  assumes inv: "fm_inv qm fs" "fm_inv qm' fs'" and st: "stats_ok qm fs"
    and f: "f \<in> set (in_use qm fs)" and iu: "set (in_use qm' fs') = set (in_use qm fs)"
    and szs: "\<And>g. g \<in> set (in_use qm fs) \<Longrightarrow> g \<noteq> f \<Longrightarrow> fsize qm' g = fsize qm g"
    and us: "used qm' = used qm + (of_nat (fsize qm' f) - of_nat (fsize qm f))"
    and ru: "real_used qm' = real_used qm + (of_nat (fsize qm' f) - of_nat (fsize qm f))
      + 16 * (of_nat (length fs') - of_nat (length fs))"
  shows "fm_rep qm' (insert (f + 16, fsize qm' f) (allocated qm fs - {(f + 16, fsize qm f)}))"
proof -
  let ?U = "set (in_use qm fs)"
  have "sum (fsize qm) ?U = fsize qm f + sum (fsize qm) (?U - {f})"
    "sum (fsize qm') ?U = fsize qm' f + sum (fsize qm') (?U - {f})" using f by (simp_all add: sum.remove)
  moreover have "sum (fsize qm') (?U - {f}) = sum (fsize qm) (?U - {f})" using szs by (intro sum.cong) auto
  moreover have ne: "fs \<noteq> []" "fs' \<noteq> []" using f iu by (auto simp: in_use_def)
  ultimately have "stats_ok qm' fs'"
    using st us ru unfolding stats_len [OF inv(1) ne(1)] stats_len [OF inv(2) ne(2)] iu
    by (simp add: algebra_simps)
  moreover have "allocated qm' fs' = insert (f + 16, fsize qm' f) (allocated qm fs - {(f + 16, fsize qm f)})"
  proof -
    have "allocated qm' fs' = insert (f + 16, fsize qm' f) ((\<lambda>g. (g + 16, fsize qm' g)) ` (?U - {f}))"
      using f unfolding allocated_def iu fm_consts by auto
    also have "(\<lambda>g. (g + 16, fsize qm' g)) ` (?U - {f}) = (\<lambda>g. (g + 16, fsize qm g)) ` (?U - {f})"
      using szs by (intro image_cong) auto
    also have "\<dots> = allocated qm fs - {(f + 16, fsize qm f)}" unfolding allocated_def fm_consts by auto
    finally show ?thesis .
  qed
  ultimately show ?thesis using inv(2) unfolding fm_rep_def by blast
qed

lemma join_arena:
  assumes inv: "fm_inv qm fs" and f: "f \<in> set fs" "f \<notin> free_frags qm"
    and n: "n = f + 16 + fsize qm f" "n \<in> set fs" "n \<notin> free_frags qm"
    and qm1: "qm1 = qm\<lparr>fsize := (fsize qm)(f := fsize qm f + (fsize qm n + 16)), real_used := ru\<rparr>"
  shows "\<exists>fs'. fm_inv qm1 fs' \<and> set fs' = set fs - {n} \<and> length fs = Suc (length fs')"
proof -
  obtain xs ys where fs: "fs = xs @ f # ys"
    and ar: "arena (fsize qm) (first_frag qm) xs f" "arena (fsize qm) n ys (last_frag qm + 16)"
    using arena_split [OF f(1), of "fsize qm" "first_frag qm" "last_frag qm + 16"] inv n(1)
    by (auto simp: fm_inv_def fm_consts)
  have nx: "n \<notin> set xs" "n \<noteq> f" using arena_bounds [OF ar(1), of n] n(1) by auto
  then obtain zs where ys: "ys = n # zs" and ar2: "arena (fsize qm) (n + 16 + fsize qm n) zs (last_frag qm + 16)"
    using ar(2) n(2) by (cases ys) (auto simp: fs fm_consts)
  have out: "g \<noteq> f \<and> g \<noteq> n" if "g \<in> set xs \<union> set zs" for g
    using that arena_bounds [OF ar(1), of g] arena_bounds [OF ar2, of g] n(1) by auto
  have same: "fsize qm1 g = fsize qm g" if "g \<in> set xs \<union> set zs" for g
    using out [OF that] by (simp add: qm1)
  have "arena (fsize qm1) (first_frag qm) xs f" "arena (fsize qm1) (n + 16 + fsize qm n) zs (last_frag qm + 16)"
    using ar(1) ar2 arena_cong [of xs "fsize qm1" "fsize qm"] arena_cong [of zs "fsize qm1" "fsize qm"] same by auto
  moreover have "n + 16 + fsize qm n = f + 16 + fsize qm1 f" using n(1) by (simp add: qm1)
  ultimately have ar': "arena (fsize qm1) (first_frag qm) (xs @ f # zs) (last_frag qm + 16)"
    unfolding arena_append by (auto simp: fm_consts intro!: exI [of _ f])
  have md: "fsize qm1 g mod 8 = 0" if "g \<in> set (xs @ f # zs)" for g
    using that same fm_inv_size(3) [OF inv, of g] fm_inv_size(3) [OF inv f(1)] fm_inv_size(3) [OF inv n(2)]
    by (auto simp: qm1 fs ys mod_eq_0_iff_dvd)
  have keep: "fsize qm1 g = fsize qm g \<and> g \<in> set (xs @ f # zs)" if "g \<in> set (free_list qm h)" "h < 2099" for g h
    using same fm_inv_bucket [OF inv that(2,1)] f(2) n(3) by (auto simp: fs ys)
  have "buckets_ok qm1 (xs @ f # zs)"
    by (rule buckets_frame [OF inv _ _ keep]) (simp_all add: qm1)
  moreover have "bitmap_ok qm1" using inv by (simp add: fm_inv_def bitmap_ok_def fm_bmp_is_set_def qm1)
  moreover have "first_frag qm1 = first_frag qm" "last_frag qm1 = last_frag qm" by (simp_all add: qm1)
  ultimately have "fm_inv qm1 (xs @ f # zs)" using ar' md inv unfolding fm_inv_def fm_consts by auto
  moreover have "set (xs @ f # zs) = set fs - {n}" using nx out by (auto simp: fs ys)
  ultimately show ?thesis by (intro exI [of _ "xs @ f # zs"]) (auto simp: fs ys)
qed

lemma realloc_shrink:
  assumes inv: "fm_inv qm fs" and st: "stats_ok qm fs" and f: "f \<in> set (in_use qm fs)"
    and sz: "sz0 \<noteq> 0" "ROUNDUP sz0 < fsize qm f"
  shows "\<exists>qm'. fm_realloc (f + 16) sz0 qm = Some (f + 16, None, qm') \<and> ROUNDUP sz0 \<le> fsize qm' f \<and>
    fm_rep (qm'\<lparr>real_used := real_used qm' - 16\<rparr>)
      (insert (f + 16, fsize qm' f) (allocated qm fs - {(f + 16, fsize qm f)}))"
proof -
  define q where "q = fm_split_frag f (ROUNDUP sz0) qm"
  have ff: "f \<in> set fs" "f \<notin> free_frags qm" using f by (auto simp: in_use_def)
  obtain fs' where fs': "fm_inv q fs'" "set (in_use q fs') = set (in_use qm fs)" "set fs \<subseteq> set fs'"
      "ROUNDUP sz0 \<le> fsize q f" "\<forall>g\<in>set fs. g \<noteq> f \<longrightarrow> fsize q g = fsize qm g"
      "used q = used qm" "length fs \<le> length fs'" "real_used q = real_used qm + of_nat (16 * (length fs' - length fs))"
    using split_ok [OF inv ff ROUNDUP_mod(1) less_imp_le [OF sz(2)], folded q_def] by blast
  define qm' where "qm' = q\<lparr>used := used q - (of_nat (fsize qm f) - of_nat (fsize q f)),
      real_used := real_used q - (of_nat (fsize qm f) - of_nat (fsize q f) - 16)\<rparr>"
  define qm2 where "qm2 = qm'\<lparr>real_used := real_used qm' - 16\<rparr>"
  have r: "fm_realloc (f + 16) sz0 qm = Some (f + 16, None, qm')"
    using sz by (cases q) (simp add: fm_realloc_def fm_consts Let_def q_def [symmetric] qm'_def)
  have q2: "qm2 = q\<lparr>used := used qm2, real_used := real_used qm2\<rparr>" by (simp add: qm2_def qm'_def)
  have "fm_inv qm2 fs'" using fs'(1) by (subst q2) (simp only: stats_cong)
  moreover have "set (in_use qm2 fs') = set (in_use qm fs)"
    using fs'(2) by (subst q2) (simp add: in_use_def stats_cong)
  moreover have "fsize qm2 = fsize q" by (simp add: qm2_def qm'_def)
  moreover have "used qm2 = used qm + (of_nat (fsize q f) - of_nat (fsize qm f))"
    by (simp add: qm2_def qm'_def fs'(6))
  moreover have "real_used qm2 = real_used qm + (of_nat (fsize q f) - of_nat (fsize qm f))
      + 16 * (of_nat (length fs') - of_nat (length fs))"
    using fs'(7) by (simp add: qm2_def qm'_def fs'(8) of_nat_diff algebra_simps)
  ultimately have "fm_rep qm2 (insert (f + 16, fsize qm2 f) (allocated qm fs - {(f + 16, fsize qm f)}))"
    using fs'(5) by (intro resize_rep [OF inv _ st f]) (auto simp: in_use_def)
  then show ?thesis using r fs'(4) by (intro exI [of _ qm']) (simp add: qm2_def qm'_def)
qed

text \<open>The fragment after one in use, when there is one.\<close>

lemma next_frag:
  assumes inv: "fm_inv qm fs" and f: "f \<in> set fs" and n: "n = f + 16 + fsize qm f" "n < last_frag qm"
  shows "n \<in> set fs"
proof -
  obtain xs ys where fs: "fs = xs @ f # ys" "arena (fsize qm) n ys (last_frag qm + 16)"
    using arena_split [OF f, of "fsize qm" "first_frag qm" "last_frag qm + 16"] inv n(1)
    by (auto simp: fm_inv_def fm_consts)
  then show ?thesis using n(2) by (cases ys) auto
qed

lemma realloc_join:
  assumes inv: "fm_inv qm fs" and st: "stats_ok qm fs" and f: "f \<in> set (in_use qm fs)"
    and sz: "sz0 \<noteq> 0" "fsize qm f < ROUNDUP sz0" and n: "n = f + 16 + fsize qm f" "n < last_frag qm" "nxt_free qm n"
      "ROUNDUP sz0 - fsize qm f \<le> fsize qm n + 16"
  shows "\<exists>qm'. fm_realloc (f + 16) sz0 qm = Some (f + 16, None, qm') \<and> ROUNDUP sz0 \<le> fsize qm' f \<and>
    fm_rep qm' (insert (f + 16, fsize qm' f) (allocated qm fs - {(f + 16, fsize qm f)}))"
proof -
  let ?s = "ROUNDUP sz0" and ?h = "GET_HASH (fsize qm n)"
  have ff: "f \<in> set fs" "f \<notin> free_frags qm" using f by (auto simp: in_use_def)
  have nfs: "n \<in> set fs" by (rule next_frag [OF inv ff(1) n(1,2)])
  have nl: "n \<in> set (free_list qm ?h)" using n(3) by (simp add: nxt_free_def Let_def)
  have h: "?h < 2099" by (rule GET_HASH_less [OF fm_inv_size(2) [OF inv nfs]])
  define q1 where "q1 = fm_detach ?h n qm"
  have d: "fm_inv q1 fs" "free_frags q1 = free_frags qm - {n}"
    using detach_ok [OF inv h nl] by (simp_all add: q1_def)
  have nff: "n \<in> free_frags qm" by (rule fm_inv_bucket(3) [OF inv h nl])
  have fl: "fsize q1 = fsize qm" "used q1 = used qm" "real_used q1 = real_used qm" by (simp_all add: q1_def)
  define q2 where "q2 = q1\<lparr>fsize := (fsize q1)(f := fsize q1 f + (fsize q1 n + 16)), real_used := real_used q1 - 16\<rparr>"
  obtain fs2 where fs2: "fm_inv q2 fs2" "set fs2 = set fs - {n}" "length fs = Suc (length fs2)"
    using join_arena [OF d(1) ff(1) _ _ nfs _ q2_def] ff(2) d(2) n(1) fl by auto
  have f2: "fsize q2 f = fsize qm f + (fsize qm n + 16)" "free_frags q2 = free_frags qm - {n}"
    using d(2) by (simp_all add: q2_def fl free_frags_def)
  have nf: "n \<noteq> f" using nff ff(2) by auto
  have le: "?s \<le> fsize q2 f" using n(4) sz(2) f2(1) by linarith
  define q3 where "q3 = (if fsize q2 f > ?s then fm_split_frag f ?s q2 else q2)"
  have iu2: "set (in_use q2 fs2) = set (in_use qm fs)" using fs2(2) f2(2) nff by (auto simp: in_use_def)
  have "\<exists>fs3. fm_inv q3 fs3 \<and> set (in_use q3 fs3) = set (in_use qm fs) \<and> ?s \<le> fsize q3 f \<and>
      (\<forall>g\<in>set fs2. g \<noteq> f \<longrightarrow> fsize q3 g = fsize q2 g) \<and> used q3 = used q2 \<and> length fs2 \<le> length fs3 \<and>
      real_used q3 = real_used q2 + of_nat (16 * (length fs3 - length fs2))"
  proof (cases "fsize q2 f > ?s")
    case True
    show ?thesis using split_ok [OF fs2(1) _ _ ROUNDUP_mod(1) le] True fs2(2) f2(2) ff nf iu2
      unfolding q3_def by (simp split del: if_split) blast
  next
    case False
    then show ?thesis using fs2(1) iu2 le unfolding q3_def by (intro exI [of _ fs2]) auto
  qed
  then obtain fs3 where fs3: "fm_inv q3 fs3" "set (in_use q3 fs3) = set (in_use qm fs)" "?s \<le> fsize q3 f"
      "\<forall>g\<in>set fs2. g \<noteq> f \<longrightarrow> fsize q3 g = fsize q2 g" "used q3 = used q2" "length fs2 \<le> length fs3"
      "real_used q3 = real_used q2 + of_nat (16 * (length fs3 - length fs2))" by blast
  define qm' where "qm' = q3\<lparr>used := used q3 + (of_nat (fsize q3 f) - of_nat (fsize qm f)),
      real_used := real_used q3 + (of_nat (fsize q3 f) - of_nat (fsize qm f))\<rparr>"
  have r: "fm_realloc (f + 16) sz0 qm = Some (f + 16, None, qm')"
  proof -
    have "fm_realloc (f + 16) sz0 qm = Some (f + 16, None, q3\<lparr>
        real_used := real_used q3 + (of_nat (fsize q3 f) - of_nat (fsize qm f)),
        used := used q3 + (of_nat (fsize q3 f) - of_nat (fsize qm f))\<rparr>)"
      using sz n(2-4) nl n(1) [symmetric] unfolding q3_def q2_def q1_def
      by (simp add: fm_realloc_def fm_consts Let_def FRAG_NEXT_def)
    then show ?thesis unfolding qm'_def by (cases q3) simp
  qed
  have "fm_rep qm' (insert (f + 16, fsize qm' f) (allocated qm fs - {(f + 16, fsize qm f)}))"
  proof (rule resize_rep [OF inv _ st f])
    show "fm_inv qm' fs3" using fs3(1) unfolding qm'_def stats_cong .
    show "set (in_use qm' fs3) = set (in_use qm fs)" using fs3(2) by (simp add: qm'_def in_use_def stats_cong)
    show "fsize qm' g = fsize qm g" if "g \<in> set (in_use qm fs)" "g \<noteq> f" for g
      using that fs3(4) fs2(2) nff by (auto simp: qm'_def q2_def fl in_use_def)
    show "used qm' = used qm + (of_nat (fsize qm' f) - of_nat (fsize qm f))"
      by (simp add: qm'_def fs3(5) q2_def fl)
    show "real_used qm' = real_used qm + (of_nat (fsize qm' f) - of_nat (fsize qm f))
        + 16 * (of_nat (length fs3) - of_nat (length fs))"
      using fs3(6) by (simp add: qm'_def fs3(7) q2_def fl fs2(3) of_nat_diff algebra_simps)
  qed
  then show ?thesis using r fs3(3) by (intro exI [of _ qm']) (simp add: qm'_def)
qed

lemma realloc_move:
  assumes inv: "fm_inv qm fs" and st: "stats_ok qm fs" and f: "f \<in> set (in_use qm fs)"
    and sz: "sz0 \<noteq> 0" "fsize qm f < ROUNDUP sz0"
    and n: "\<not> (f + 16 + fsize qm f < last_frag qm \<and> nxt_free qm (f + 16 + fsize qm f) \<and>
      ROUNDUP sz0 - fsize qm f \<le> fsize qm (f + 16 + fsize qm f) + 16)"
  shows "fm_realloc (f + 16) sz0 qm = Some (0, None, qm) \<and> (\<forall>g\<in>free_frags qm. fsize qm g < ROUNDUP sz0) \<or>
    (\<exists>p m qm'. fm_realloc (f + 16) sz0 qm = Some (p, Some (p, f + 16, fsize qm f), qm') \<and> p \<noteq> 0 \<and>
      ROUNDUP sz0 \<le> m \<and> fm_rep qm' (insert (p, m) (allocated qm fs - {(f + 16, fsize qm f)})))"
proof -
  have rr: "ROUNDUP (ROUNDUP sz0) = ROUNDUP sz0" using ROUNDUP_multiple ROUNDUP_mod by simp
  obtain p q where pq: "fm_malloc (ROUNDUP sz0) qm = (p, q)" by fastforce
  have r: "fm_realloc (f + 16) sz0 qm =
      (if p \<noteq> 0 then Some (p, Some (p, f + 16, fsize qm f), fm_free (f + 16) q) else Some (0, None, q))"
    using sz n pq by (auto simp: fm_realloc_def fm_consts Let_def FRAG_NEXT_def)
  show ?thesis
  proof (cases "p = 0")
    case True
    then have "fm_search qm (ROUNDUP sz0) = None" using malloc_fail [of "ROUNDUP sz0" qm] pq rr by simp
    then have "q = qm" "\<forall>g\<in>free_frags qm. fsize qm g < ROUNDUP sz0"
      using pq fm_search_ok [OF inv, of "ROUNDUP sz0"] ROUNDUP_mod by (auto simp: fm_malloc_def rr)
    then show ?thesis using r True by simp
  next
    case False
    obtain fs' g where g: "fm_inv q fs'" "stats_ok q fs'" "p = g + 16" "g \<in> free_frags qm" "ROUNDUP sz0 \<le> fsize q g"
        "allocated q fs' = insert (p, fsize q g) (allocated qm fs)"
      using malloc_ok [OF inv st pq False] rr by auto
    have "(f + 16, fsize qm f) \<in> allocated qm fs" using f by (auto simp: allocated_def fm_consts)
    then have "(f + 16, fsize qm f) \<in> allocated q fs'" using g(6) by simp
    note fr = free_ok [OF g(1,2) this]
    have "g \<noteq> f" using g(4) f by (auto simp: in_use_def)
    then have "fm_rep (fm_free (f + 16) q) (insert (p, fsize q g) (allocated qm fs - {(f + 16, fsize qm f)}))"
      using fr g(3,6) unfolding fm_rep_def by (intro exI [of _ fs']) auto
    then show ?thesis using r False g(5) by (intro disjI2 exI [of _ p] exI [of _ "fsize q g"] exI) auto
  qed
qed

subsection \<open>The interface of an allocator\<close>

text \<open>
  The contract the modules rely on: the blocks handed out never overlap, an allocation either fails
  and changes nothing or adds a block of at least the size asked for, and a block that is given back
  leaves the others as they are.
\<close>

locale allocator =
  fixes rep :: "'s \<Rightarrow> (addr \<times> nat) set \<Rightarrow> bool" and mal :: "nat \<Rightarrow> 's \<Rightarrow> addr \<times> 's" and fr :: "addr \<Rightarrow> 's \<Rightarrow> 's"
    and sz_ok :: "nat \<Rightarrow> bool"
  assumes rep_disjoint: "rep s B \<Longrightarrow> (p, n) \<in> B \<Longrightarrow> (q, m) \<in> B \<Longrightarrow> p \<noteq> q \<Longrightarrow> p + n \<le> q \<or> q + m \<le> p"
    and rep_mal: "rep s B \<Longrightarrow> sz_ok sz \<Longrightarrow> mal sz s = (p, s') \<Longrightarrow>
      p = 0 \<and> s' = s \<or> p \<noteq> 0 \<and> p \<notin> fst ` B \<and> (\<exists>n\<ge>sz. rep s' (insert (p, n) B))"
    and rep_fr: "rep s B \<Longrightarrow> (p, n) \<in> B \<Longrightarrow> rep (fr p s) (B - {(p, n)})"
begin

text \<open>What the client knows of the blocks it holds.\<close>

definition holds :: "'s \<Rightarrow> (addr \<times> nat) list \<Rightarrow> bool" where
  "holds s own \<longleftrightarrow> distinct (map fst own) \<and> (\<exists>B. rep s B \<and> (\<forall>(p, r)\<in>set own. \<exists>n\<ge>r. (p, n) \<in> B))"

lemma holds_free:
  assumes "holds s own" "i < length own"
  shows "holds (fr (fst (own ! i)) s) (take i own @ drop (Suc i) own)"
proof -
  obtain p r where pr: "own ! i = (p, r)" by fastforce
  obtain B where B: "rep s B" "\<forall>(p, r)\<in>set own. \<exists>n\<ge>r. (p, n) \<in> B" and d: "distinct (map fst own)"
    using assms(1) by (auto simp: holds_def)
  have own: "own = take i own @ (p, r) # drop (Suc i) own" using id_take_nth_drop [OF assms(2)] pr by simp
  have "(p, r) \<in> set own" using nth_mem [OF assms(2)] pr by simp
  then obtain n where n: "(p, n) \<in> B" using bspec [OF B(2), of "(p, r)"] by auto
  have d': "distinct (map fst (take i own @ (p, r) # drop (Suc i) own))" using d own by simp
  have "\<exists>n'\<ge>r'. (p', n') \<in> B - {(p, n)}" if "(p', r') \<in> set (take i own @ drop (Suc i) own)" for p' r'
  proof -
    have "p' \<in> fst ` set (take i own @ drop (Suc i) own)" using image_eqI [OF _ that, of p' fst] by simp
    then have "p' \<noteq> p" using d' by auto
    moreover have "(p', r') \<in> set own" using that by (auto dest: in_set_takeD in_set_dropD)
    ultimately show ?thesis using bspec [OF B(2), of "(p', r')"] by auto
  qed
  then have "\<forall>(p', r')\<in>set (take i own @ drop (Suc i) own). \<exists>n'\<ge>r'. (p', n') \<in> B - {(p, n)}"
    by (intro ballI) (simp only: split_paired_all case_prod_conv)
  moreover have "distinct (map fst (take i own @ drop (Suc i) own))" using d' by simp
  ultimately show ?thesis unfolding holds_def pr fst_conv
    by (intro conjI exI [of _ "B - {(p, n)}"] rep_fr [OF B(1) n])
qed

lemma holds_malloc:
  assumes "holds s own" "sz_ok sz" "mal sz s = (p, s')"
  shows "holds s' (if p = 0 then own else (p, sz) # own)"
proof -
  obtain B where B: "rep s B" "\<forall>(p, r)\<in>set own. \<exists>n\<ge>r. (p, n) \<in> B" and d: "distinct (map fst own)"
    using assms(1) by (auto simp: holds_def)
  consider "p = 0" "s' = s" | n where "p \<noteq> 0" "p \<notin> fst ` B" "n \<ge> sz" "rep s' (insert (p, n) B)"
    using rep_mal [OF B(1) assms(2,3)] by blast
  then show ?thesis
  proof cases
    case 2
    have "p \<notin> fst ` set own" using B(2) 2(2) by force
    then show ?thesis using 2 B(2) d unfolding holds_def by fastforce
  qed (use assms(1) in simp)
qed

lemma client_holds:
  "holds s own \<Longrightarrow> (\<And>sz. Malloc sz \<in> set ops \<Longrightarrow> sz_ok sz) \<Longrightarrow> mem_client mal fr ops s own = (s', own') \<Longrightarrow>
   holds s' own'"
proof (induction ops arbitrary: s own)
  case (Cons op ops)
  have ok: "sz_ok sz" if "Malloc sz \<in> set ops" for sz using Cons.prems(2) that by simp
  show ?case
  proof (cases op)
    case (Malloc sz)
    obtain p s1 where m: "mal sz s = (p, s1)" by fastforce
    have "holds s1 (if p = 0 then own else (p, sz) # own)"
      using holds_malloc [OF Cons.prems(1) _ m] Cons.prems(2) Malloc by simp
    then show ?thesis using Cons.IH [OF _ ok] Cons.prems(3) Malloc m by simp
  next
    case (Free i)
    then show ?thesis
      using Cons.IH [OF Cons.prems(1) ok] Cons.IH [OF holds_free [OF Cons.prems(1)] ok] Cons.prems(3)
      by (simp split: if_splits)
  qed
qed simp

lemma holds_disjoint:
  assumes "holds s own" "(p, r) \<in> set own" "(q, t) \<in> set own" "(p, r) \<noteq> (q, t)"
  shows "p + r \<le> q \<or> q + t \<le> p"
proof -
  obtain B where B: "rep s B" "\<forall>(p, r)\<in>set own. \<exists>n\<ge>r. (p, n) \<in> B" and d: "distinct (map fst own)"
    using assms(1) by (auto simp: holds_def)
  have "inj_on fst (set own)" using d by (simp add: distinct_map)
  then have "p \<noteq> q" using assms(2-4) by (metis fst_conv inj_onD)
  moreover obtain n m where "n \<ge> r" "(p, n) \<in> B" "m \<ge> t" "(q, m) \<in> B" using B(2) assms(2,3) by blast
  ultimately show ?thesis using rep_disjoint [OF B(1), of p n q m] by linarith
qed

end

interpretation fm: allocator fm_rep fm_malloc fm_free "\<lambda>sz. sz + 7 < 2 ^ 64"
proof unfold_locales
  fix s B p n q m
  assume "fm_rep s B" "(p, n) \<in> B" "(q, m) \<in> B" "p \<noteq> q"
  then show "p + n \<le> q \<or> q + m \<le> p" unfolding fm_rep_def using allocated_disjoint by fastforce
next
  fix s B sz p s'
  assume r: "fm_rep s B" and sz: "sz + 7 < (2 :: nat) ^ 64" and m: "fm_malloc sz s = (p, s')"
  obtain fs where fs: "fm_inv s fs" "stats_ok s fs" "allocated s fs = B" using r by (auto simp: fm_rep_def)
  show "p = 0 \<and> s' = s \<or> p \<noteq> 0 \<and> p \<notin> fst ` B \<and> (\<exists>n\<ge>sz. fm_rep s' (insert (p, n) B))"
  proof (cases "p = 0")
    case True
    then show ?thesis using m malloc_fail [of sz s] by (auto simp: fm_malloc_def)
  next
    case False
    obtain fs' f where f: "fm_inv s' fs'" "stats_ok s' fs'" "p = f + 16" "f \<in> free_frags s" "ROUNDUP sz \<le> fsize s' f"
        "allocated s' fs' = insert (p, fsize s' f) B" using malloc_ok [OF fs(1,2) m False] fs(3) by auto
    have "p \<notin> fst ` B" using f(3,4) fs(3) by (auto simp: allocated_def in_use_def fm_consts)
    moreover have "sz \<le> fsize s' f" using f(5) ROUNDUP_facts(1) [OF sz] by simp
    moreover have "fm_rep s' (insert (p, fsize s' f) B)" using f(1,2,6) unfolding fm_rep_def by auto
    ultimately show ?thesis using False by blast
  qed
next
  fix s B p n
  assume r: "fm_rep s B" and p: "(p, n) \<in> B"
  obtain fs where fs: "fm_inv s fs" "stats_ok s fs" "allocated s fs = B" using r by (auto simp: fm_rep_def)
  have "fm_inv (fm_free p s) fs \<and> stats_ok (fm_free p s) fs \<and> allocated (fm_free p s) fs = B - {(p, n)}"
    using free_ok [OF fs(1,2)] p fs(3) by auto
  then show "fm_rep (fm_free p s) (B - {(p, n)})" unfolding fm_rep_def by blast
qed

subsection \<open>Initialisation\<close>

lemma init_ok:
  assumes a: "a + sz < 2 ^ 63" and i: "fm_malloc_init a sz = Some qm"
  shows "fm_inv qm [first_frag qm] \<and> stats_ok qm [first_frag qm] \<and> free_frags qm = {first_frag qm} \<and>
    first_frag qm = ROUNDUP a + 33896 \<and> last_frag qm + 16 = ROUNDUP a + bl_size qm \<and>
    33912 \<le> bl_size qm \<and> ROUNDUP a + bl_size qm \<le> a + sz \<and> a + sz < ROUNDUP a + bl_size qm + 8"
proof -
  define s where "s = ROUNDUP a"
  define z where "z = (sz - (s - a)) div 8 * 8"
  have s: "a \<le> s" using ROUNDUP_facts(1) [of a] a by (simp add: s_def)
  have c: "\<not> sz < s - a" "33912 \<le> z"
    using i by (auto simp: fm_malloc_init_def Let_def fm_consts ROUNDDOWN_def s_def z_def split: if_splits)
  have z: "s + z \<le> a + sz" "a + sz < s + z + 8"
    using c(1) s div_mult_mod_eq [of "sz - (s - a)" 8] mod_less_divisor [of 8 "sz - (s - a)"]
    unfolding z_def by linarith+
  define f where "f = s + 33896"
  define q0 where "q0 = \<lparr>bl_size = z, used = 0, real_used = 33912, max_real_used = 33912, first_frag = f,
      last_frag = s + z - 16, fsize = (\<lambda>_. 0)(f := z - 33912, s + z - 16 := 0),
      free_bitmap = (\<lambda>_. 0), free_list = (\<lambda>_. []), free_no = (\<lambda>_. 0)\<rparr>"
  have r: "ROUNDUP 33896 = 33896" using ROUNDUP_multiple [of 33896] by simp
  have q: "qm = fm_insert_free f q0"
    using i by (auto simp: fm_malloc_init_def Let_def fm_consts ROUNDDOWN_def s_def [symmetric] z_def [symmetric]
        q0_def f_def r split: if_splits)
  have fz: "fsize q0 f = z - 33912" using c(2) by (auto simp: q0_def f_def)
  have "fm_inv q0 [f]"
  proof -
    have "z mod 8 = 0" by (simp add: z_def)
    then have "(z - 33912) mod 8 = 0" using c(2) by (simp add: mod_eq_0_iff_dvd)
    moreover have "f + 16 + fsize q0 f = s + z" using fz c(2) by (simp add: f_def)
    ultimately show ?thesis using fz z a c(2)
      by (simp add: fm_inv_def buckets_ok_def bitmap_ok_def fm_bmp_is_set_def fm_consts)
        (simp add: q0_def f_def)
  qed
  moreover have "free_frags q0 = {}" by (simp add: free_frags_def q0_def)
  ultimately have "fm_inv qm [f]" "free_frags qm = {f}" using insert_free_ok [of q0 "[f]" f] q by auto
  moreover have "stats_ok qm [f]" using \<open>free_frags qm = {f}\<close> by (simp add: stats_ok_def in_use_def fm_consts q q0_def)
  ultimately show ?thesis using z c(2) by (simp add: q q0_def f_def s_def)
qed

lemma init_None:
  "fm_malloc_init a sz = None \<longleftrightarrow> sz < ROUNDUP a - a \<or> ROUNDDOWN (sz - (ROUNDUP a - a)) < INIT_OVERHEAD"
proof -
  have le: "ROUNDDOWN n \<le> n" for n by (simp add: ROUNDDOWN_def)
  have "ROUNDDOWN n < 33912" if "n < 24" for n using that le [of n] by linarith
  then show ?thesis by (auto simp: fm_malloc_init_def Let_def fm_consts MIN_FRAG_SIZE_def)
qed

lemma pool_init: "fm_malloc_init 4096 65536 = Some pool"
proof -
  have "ROUNDUP 4096 = 4096" by (rule ROUNDUP_multiple) simp_all
  then have "fm_malloc_init 4096 65536 \<noteq> None" unfolding init_None by (simp add: ROUNDDOWN_def fm_consts)
  then show ?thesis by (auto simp: pool_def)
qed

lemma pool_rep: "fm_rep pool {}" "free_frags pool = {first_frag pool}" "fsize pool (first_frag pool) = 31624"
proof -
  note i = init_ok [OF _ pool_init, simplified]
  have r: "ROUNDUP 4096 = 4096" by (rule ROUNDUP_multiple) simp_all
  show fr: "free_frags pool = {first_frag pool}" using i by simp
  then have "allocated pool [first_frag pool] = {}" by (simp add: allocated_def in_use_def)
  then show "fm_rep pool {}" using i unfolding fm_rep_def by blast
  have "map_option bl_size (fm_malloc_init 4096 65536) = Some 65536"
    by (simp add: fm_malloc_init_def Let_def fm_consts ROUNDDOWN_def MIN_FRAG_SIZE_def r)
  then have "bl_size pool = 65536" using pool_init by simp
  then show "fsize pool (first_frag pool) = 31624" using i r by (auto simp: fm_inv_def fm_consts)
qed

lemma pool_alloc: "pool_ptr \<noteq> 0" "\<exists>n\<ge>100. fm_rep pool_used {(pool_ptr, n)}"
proof -
  have m: "fm_malloc 100 pool = (pool_ptr, pool_used)" by (simp add: pool_ptr_def pool_used_def)
  obtain fs where fs: "fm_inv pool fs" using pool_rep(1) by (auto simp: fm_rep_def)
  have "ROUNDUP 100 \<le> 31624" using ROUNDUP_facts(2) [of 100] by simp
  then have "fm_search pool (ROUNDUP 100) \<noteq> None"
    using fm_search_ok [OF fs ROUNDUP_mod(2,1), of 100] pool_rep(2,3) by (auto split: option.splits)
  then show p: "pool_ptr \<noteq> 0" using malloc_fail [of 100 pool] m by simp
  then show "\<exists>n\<ge>100. fm_rep pool_used {(pool_ptr, n)}" using fm.rep_mal [OF pool_rep(1) _ m] by auto
qed

lemma insert_free_mem: "fsize qm f < 2 ^ 64 \<Longrightarrow> f \<in> free_frags (fm_insert_free f qm)"
  using GET_HASH_less [of "fsize qm f"] by (auto simp: free_frags_def insert_free_list(1) fm_consts)

text \<open>The rest of the pool is free after the allocation.\<close>

lemma pool_rest: "\<exists>f\<in>free_frags pool_used. 200 < fsize pool_used f"
proof -
  let ?s = "ROUNDUP 100"
  have s: "?s < 108" using ROUNDUP_facts(2) [of 100] by simp
  obtain fs where fs: "fm_inv pool fs" using pool_rep(1) by (auto simp: fm_rep_def)
  obtain h f where hf: "fm_search pool ?s = Some (h, f)"
    using pool_alloc(1) malloc_fail [of 100 pool] by (auto simp: pool_ptr_def)
  have "h < 2099" "f \<in> set (free_list pool h)" using fm_search_ok [OF fs ROUNDUP_mod(2,1), of 100] hf by auto
  then have f: "fsize pool f = 31624" using fm_inv_bucket(3) [OF fs] pool_rep(2,3) by auto
  define n where "n = f + 16 + ?s"
  define q1 where "q1 = (fm_detach h f pool)\<lparr>fsize := (fsize pool)(f := ?s, n := 31624 - ?s - 16),
    real_used := real_used pool + 16\<rparr>"
  have sp: "fm_split_frag f ?s (fm_detach h f pool) = fm_insert_free n q1"
  proof -
    have "16400 < 31624 - ?s" using s by linarith
    then show ?thesis using f by (simp add: fm_split_frag_def Let_def fm_consts FRAG_NEXT_def n_def q1_def)
  qed
  obtain m where "fm_malloc 100 pool = (f + 16, (fm_insert_free n q1)\<lparr>
      used := used (fm_insert_free n q1) + of_nat (fsize (fm_insert_free n q1) f),
      real_used := real_used (fm_insert_free n q1) + of_nat (fsize (fm_insert_free n q1) f), max_real_used := m\<rparr>)"
    using malloc_state [OF hf] unfolding sp by blast
  then have u: "free_frags pool_used = free_frags (fm_insert_free n q1)" "fsize pool_used = fsize q1"
    by (simp_all add: pool_used_def stats_cong)
  have "n \<in> free_frags (fm_insert_free n q1)" by (rule insert_free_mem) (simp add: q1_def)
  then show ?thesis using s unfolding u by (intro bexI [of _ n]) (simp_all add: q1_def)
qed

section \<open>Properties\<close>

text \<open>C30: Initialisation fails exactly when the memory does not hold the control structures; otherwise
  it sets up a consistent allocator, with nothing handed out and one free fragment.  That fragment
  reaches to the end of the memory, over the header of \<^verbatim>\<open>last_frag\<close>.\<close>

theorem fm_malloc_init_spec:
  assumes "a + sz < 2 ^ 63"
  shows "(fm_malloc_init a sz = None \<longleftrightarrow>
      sz < ROUNDUP a - a \<or> ROUNDDOWN (sz - (ROUNDUP a - a)) < INIT_OVERHEAD) \<and>
    (\<forall>qm. fm_malloc_init a sz = Some qm \<longrightarrow> fm_rep qm {} \<and> free_frags qm = {first_frag qm} \<and>
      FRAG_NEXT qm (first_frag qm) = last_frag qm + FRAG_OVERHEAD \<and>
      a + SIZEOF_BLOCK \<le> first_frag qm \<and> last_frag qm + FRAG_OVERHEAD \<le> a + sz)"
proof -
  have "fm_rep qm {} \<and> free_frags qm = {first_frag qm} \<and> FRAG_NEXT qm (first_frag qm) = last_frag qm + FRAG_OVERHEAD \<and>
      a + SIZEOF_BLOCK \<le> first_frag qm \<and> last_frag qm + FRAG_OVERHEAD \<le> a + sz"
    if "fm_malloc_init a sz = Some qm" for qm
  proof -
    note i = init_ok [OF assms that]
    then have "allocated qm [first_frag qm] = {}" by (simp add: allocated_def in_use_def)
    then have "fm_rep qm {}" using i unfolding fm_rep_def by blast
    moreover have "a \<le> ROUNDUP a" using ROUNDUP_facts(1) [of a] assms by simp
    ultimately show ?thesis using i by (auto simp: fm_inv_def FRAG_NEXT_def fm_consts)
  qed
  then show ?thesis using init_None by blast
qed

theorem fm_malloc_init_spec_witness:
  "(4096 :: nat) + 65536 < 2 ^ 63 \<and> fm_malloc_init 4096 65536 = Some pool \<and> fm_rep pool {} \<and>
   FRAG_NEXT pool (first_frag pool) = last_frag pool + FRAG_OVERHEAD"
  using fm_malloc_init_spec [of 4096 65536] pool_init by simp

text \<open>C9: An allocation that fails changes nothing and fails only when no free fragment is big enough.
  One that succeeds hands out a block of at least the rounded size, taken from a fragment that was
  free; every other block keeps its place and size, and the statistics stay exact.\<close>

theorem fm_malloc_spec:
  assumes "fm_rep qm B"
  shows "(fst (fm_malloc sz qm) = 0 \<and> snd (fm_malloc sz qm) = qm \<and> (\<forall>f\<in>free_frags qm. fsize qm f < ROUNDUP sz)) \<or>
    (\<exists>f n. fst (fm_malloc sz qm) = f + FRAG_OVERHEAD \<and> f \<in> free_frags qm \<and>
      ROUNDUP sz \<le> n \<and> n \<le> fsize qm f \<and> f + FRAG_OVERHEAD \<notin> fst ` B \<and>
      fm_rep (snd (fm_malloc sz qm)) (insert (f + FRAG_OVERHEAD, n) B))"
proof -
  obtain fs where fs: "fm_inv qm fs" "stats_ok qm fs" "allocated qm fs = B" using assms by (auto simp: fm_rep_def)
  obtain p qm' where m: "fm_malloc sz qm = (p, qm')" by fastforce
  show ?thesis
  proof (cases "p = 0")
    case True
    then have "fm_search qm (ROUNDUP sz) = None" using malloc_fail [of sz qm] m by simp
    then show ?thesis using fm_search_ok [OF fs(1) ROUNDUP_mod(2,1), of sz] m by (auto simp: fm_malloc_def)
  next
    case False
    obtain fs' f where f: "fm_inv qm' fs'" "stats_ok qm' fs'" "p = f + 16" "f \<in> free_frags qm" "ROUNDUP sz \<le> fsize qm' f"
        "fsize qm' f \<le> fsize qm f" "allocated qm' fs' = insert (p, fsize qm' f) B"
      using malloc_ok [OF fs(1,2) m False] fs(3) by auto
    have "f + 16 \<notin> fst ` B" using f(4) fs(3) by (auto simp: allocated_def in_use_def fm_consts)
    moreover have "fm_rep qm' (insert (p, fsize qm' f) B)" using f(1,2,7) unfolding fm_rep_def by auto
    ultimately show ?thesis using f(3-6) m
      by (intro disjI2 exI [of _ f] exI [of _ "fsize qm' f"]) (simp add: fm_consts)
  qed
qed

theorem fm_malloc_spec_witness:
  "fm_rep pool {} \<and> fst (fm_malloc 100 pool) \<noteq> 0 \<and>
   (\<exists>n\<ge>ROUNDUP 100. fm_rep (snd (fm_malloc 100 pool)) {(fst (fm_malloc 100 pool), n)})"
  using fm_malloc_spec [OF pool_rep(1), of 100] pool_rep(1) pool_alloc(1) by (auto simp: pool_ptr_def fm_consts)

text \<open>C29: Giving a block back takes it out of the blocks handed out and leaves every other block as it
  is; freeing the null pointer does nothing.\<close>

theorem fm_free_spec:
  assumes "fm_rep qm B" "(p, n) \<in> B"
  shows "fm_rep (fm_free p qm) (B - {(p, n)}) \<and> p - FRAG_OVERHEAD \<in> free_frags (fm_free p qm) \<and> fm_free 0 qm = qm"
proof -
  obtain fs where fs: "fm_inv qm fs" "stats_ok qm fs" "allocated qm fs = B" using assms(1) by (auto simp: fm_rep_def)
  have p: "p = (p - 16) + 16" "p - 16 \<in> set (in_use qm fs)" using assms(2) fs(3) by (auto simp: allocated_def fm_consts)
  have f: "fm_inv (fm_free p qm) fs" "allocated (fm_free p qm) fs = B - {(p, n)}"
    using free_ok [OF fs(1,2)] assms(2) fs(3) by auto
  have "n = fsize qm (p - 16)" using assms(2) fs(3) by (auto simp: allocated_def fm_consts)
  then have "(p, fsize (fm_free p qm) (p - 16)) \<notin> allocated (fm_free p qm) fs"
    unfolding f(2) by (simp add: fm_free_def Let_def fm_consts)
  then have "p - 16 \<in> free_frags (fm_free p qm)"
    using p by (force simp: allocated_def in_use_def fm_consts)
  then show ?thesis using fm.rep_fr [OF assms] by (simp add: fm_consts fm_free_def)
qed

theorem fm_free_spec_witness:
  "\<exists>n. fm_rep pool_used {(pool_ptr, n)} \<and> fm_rep (fm_free pool_ptr pool_used) {}"
proof -
  obtain n where n: "fm_rep pool_used {(pool_ptr, n)}" using pool_alloc(2) by blast
  then show ?thesis using fm_free_spec [OF n, of pool_ptr n] by auto
qed

text \<open>C10: Reallocation never aborts.  It fails only when it has to move the block and no free fragment
  is big enough, and then nothing changes; otherwise the block has at least the rounded size, either
  in place or moved with its contents copied, and every other block is untouched.  The statistics
  stay exact except when the block shrinks: then \<^verbatim>\<open>real_used\<close> ends up 16 too high.\<close>

theorem fm_realloc_spec:
  assumes "fm_rep qm B" "(p, n) \<in> B" "sz \<noteq> 0"
  shows "(fm_realloc p sz qm = Some (0, None, qm) \<and> n < ROUNDUP sz \<and> (\<forall>f\<in>free_frags qm. fsize qm f < ROUNDUP sz)) \<or>
    (\<exists>q m cp qm'. fm_realloc p sz qm = Some (q, cp, qm') \<and> ROUNDUP sz \<le> m \<and>
      (q = p \<and> cp = None \<or> n \<le> m \<and> cp = Some (q, p, n)) \<and>
      fm_rep (qm'\<lparr>real_used := real_used qm' - (if ROUNDUP sz < n then of_nat FRAG_OVERHEAD else 0)\<rparr>)
        (insert (q, m) (B - {(p, n)})))"
proof -
  obtain fs where fs: "fm_inv qm fs" "stats_ok qm fs" "allocated qm fs = B" using assms(1) by (auto simp: fm_rep_def)
  obtain f where f: "p = f + 16" "n = fsize qm f" "f \<in> set (in_use qm fs)"
    using assms(2) fs(3) by (auto simp: allocated_def fm_consts)
  let ?n = "f + 16 + fsize qm f"
  consider "ROUNDUP sz < n" | "ROUNDUP sz = n" | "n < ROUNDUP sz" by linarith
  then show ?thesis
  proof cases
    case 1
    then show ?thesis using realloc_shrink [OF fs(1,2) f(3) assms(3)] fs(3) f(1,2) by (auto simp: fm_consts)
  next
    case 2
    have "fm_realloc p sz qm = Some (p, None, qm)"
      using 2 f assms(3) by (simp add: fm_realloc_def fm_consts Let_def)
    moreover have "insert (p, n) (B - {(p, n)}) = B" using assms(2) by blast
    ultimately show ?thesis using 2 assms(1) by (intro disjI2 exI [of _ p] exI [of _ n] exI) auto
  next
    case 3
    show ?thesis
    proof (cases "?n < last_frag qm \<and> nxt_free qm ?n \<and> ROUNDUP sz - fsize qm f \<le> fsize qm ?n + 16")
      case True
      then show ?thesis using realloc_join [OF fs(1,2) f(3) assms(3) _ refl] 3 f(1,2) fs(3) by auto
    next
      case False
      then show ?thesis using realloc_move [OF fs(1,2) f(3) assms(3) _ False] 3 f(1,2) fs(3) by fastforce
    qed
  qed
qed

theorem fm_realloc_spec_witness:
  "\<exists>n\<ge>100. fm_rep pool_used {(pool_ptr, n)} \<and>
     (\<exists>q m cp qm'. fm_realloc pool_ptr 50 pool_used = Some (q, cp, qm') \<and> ROUNDUP 50 \<le> m \<and>
       fm_rep (qm'\<lparr>real_used := real_used qm' - (if ROUNDUP 50 < n then of_nat FRAG_OVERHEAD else 0)\<rparr>) {(q, m)})"
proof -
  obtain n where n: "n \<ge> 100" "fm_rep pool_used {(pool_ptr, n)}" using pool_alloc(2) by blast
  have r: "\<not> n < ROUNDUP 50" using ROUNDUP_facts(2) [of 50] n(1) by simp
  have d: "{(pool_ptr, n)} - {(pool_ptr, n)} = {}" by simp
  have "(50 :: nat) \<noteq> 0" by simp
  then show ?thesis using fm_realloc_spec [OF n(2) singletonI, of 50, unfolded d] n r by blast
qed

text \<open>C11: A program that only asks for blocks and gives back blocks it holds, on a fresh allocator, at
  every point holds blocks that do not overlap in the bytes it asked for.\<close>

theorem fm_client_disjoint:
  assumes "a + sz < 2 ^ 63" "fm_malloc_init a sz = Some qm" "\<forall>n. Malloc n \<in> set ops \<longrightarrow> n + 7 < 2 ^ 64"
    and "mem_client fm_malloc fm_free ops qm [] = (qm', own)" "i < length own" "j < length own" "i \<noteq> j"
  shows "fst (own ! i) + snd (own ! i) \<le> fst (own ! j) \<or> fst (own ! j) + snd (own ! j) \<le> fst (own ! i)"
proof -
  note i = init_ok [OF assms(1,2)]
  then have "allocated qm [first_frag qm] = {}" by (simp add: allocated_def in_use_def)
  then have "fm_rep qm {}" using i unfolding fm_rep_def by blast
  then have "fm.holds qm []" unfolding fm.holds_def by auto
  then have h: "fm.holds qm' own" using fm.client_holds [OF _ _ assms(4)] assms(3) by blast
  then have "distinct own" by (simp add: fm.holds_def distinct_map)
  then have "own ! i \<noteq> own ! j" using assms(5-7) by (simp add: nth_eq_iff_index_eq)
  then show ?thesis using fm.holds_disjoint [OF h, of "fst (own ! i)" "snd (own ! i)" "fst (own ! j)" "snd (own ! j)"]
    assms(5,6) by (simp add: prod_eq_iff)
qed

theorem fm_client_disjoint_witness:
  "\<exists>qm p. mem_client fm_malloc fm_free [Malloc 100, Malloc 200] pool [] = (qm, [(p, 200), (pool_ptr, 100)]) \<and>
     (p + 200 \<le> pool_ptr \<or> pool_ptr + 100 \<le> p)"
proof -
  obtain p qm where m: "fm_malloc 200 pool_used = (p, qm)" by fastforce
  obtain fs where fs: "fm_inv pool_used fs" using pool_alloc(2) by (auto simp: fm_rep_def)
  have "ROUNDUP 200 < 208" using ROUNDUP_facts(2) [of 200] by simp
  moreover have "ROUNDUP 200 mod 8 = 0" by (rule ROUNDUP_mod)
  ultimately have "ROUNDUP 200 \<le> 200" by presburger
  then have "fm_search pool_used (ROUNDUP 200) \<noteq> None"
    using fm_search_ok [OF fs ROUNDUP_mod(2,1), of 200] pool_rest by (auto split: option.splits)
  then have "p \<noteq> 0" using malloc_fail [of 200 pool_used] m by simp
  then have c: "mem_client fm_malloc fm_free [Malloc 100, Malloc 200] pool [] = (qm, [(p, 200), (pool_ptr, 100)])"
    using m pool_alloc(1) by (simp add: pool_ptr_def pool_used_def Let_def case_prod_beta)
  then show ?thesis using fm_client_disjoint [OF _ pool_init _ c, of 0 1] by simp
qed

text \<open>The rounding up of the requested size wraps: a request for one of the seven largest sizes is
  served, with a block that is smaller.\<close>

theorem fm_malloc_wrap:
  assumes "fm_rep qm B" "free_frags qm \<noteq> {}" "2 ^ 64 - 7 \<le> sz" "sz < 2 ^ 64"
  shows "ROUNDUP sz = 0 \<and> fst (fm_malloc sz qm) \<noteq> 0 \<and>
    (\<exists>n. n < sz \<and> fm_rep (snd (fm_malloc sz qm)) (insert (fst (fm_malloc sz qm), n) B))"
proof -
  obtain fs where fs: "fm_inv qm fs" "stats_ok qm fs" "allocated qm fs = B" using assms(1) by (auto simp: fm_rep_def)
  have "(sz + 7) mod 2 ^ 64 = sz + 7 - 2 ^ 64" using assms(3,4) by (subst mod_if) (simp add: mod_if)
  also have "\<dots> < 8" using assms(4) by simp
  finally have r: "ROUNDUP sz = 0" by (simp add: ROUNDUP_def fm_consts div_eq_0_iff)
  obtain p qm' where m: "fm_malloc sz qm = (p, qm')" by fastforce
  have "fm_search qm (ROUNDUP sz) \<noteq> None"
    using fm_search_ok [OF fs(1) ROUNDUP_mod(2,1), of sz] assms(2) r by (auto split: option.splits)
  then have p: "p \<noteq> 0" using malloc_fail [of sz qm] m by simp
  obtain fs' f where f: "fm_inv qm' fs'" "stats_ok qm' fs'" "f \<in> free_frags qm" "fsize qm' f \<le> fsize qm f"
      "allocated qm' fs' = insert (p, fsize qm' f) B" using malloc_ok [OF fs(1,2) m p] fs(3) by auto
  have "fsize qm f < 2 ^ 63" by (rule fm_inv_size(1) [OF fs(1) free_frags_bucket(1) [OF fs(1) f(3)]])
  then have "fsize qm' f < sz" using f(4) assms(3) by simp
  moreover have "fm_rep qm' (insert (p, fsize qm' f) B)" using f(1,2,5) unfolding fm_rep_def by auto
  ultimately show ?thesis using r p m by auto
qed

theorem fm_malloc_wrap_witness:
  "fm_rep pool {} \<and> fst (fm_malloc (2 ^ 64 - 1) pool) \<noteq> 0 \<and>
   (\<exists>n. n < 2 ^ 64 - 1 \<and> fm_rep (snd (fm_malloc (2 ^ 64 - 1) pool)) {(fst (fm_malloc (2 ^ 64 - 1) pool), n)})"
  using fm_malloc_wrap [OF pool_rep(1), of "2 ^ 64 - 1"] pool_rep(1,2) by simp

end
