(* ===== verification/NonceCount.thy ===== *)
theory NonceCount
  imports BitScan
begin

text \<open>
  Nonce ids, nonce counts and one-time nonces of the digest authentication module:
  \<^verbatim>\<open>src/sip_router/modules/auth\<close>, files \<^verbatim>\<open>nid.c\<close>, \<^verbatim>\<open>nid.h\<close>, \<^verbatim>\<open>nc.c\<close>, \<^verbatim>\<open>nc.h\<close>, \<^verbatim>\<open>ot_nonce.c\<close>, \<^verbatim>\<open>ot_nonce.h\<close>, and the
  part of \<^verbatim>\<open>challenge.c\<close> that takes a new id.

  The arrays in shared memory are lists of 32 bit cells; the empty list is the null pointer.  An
  access outside of an array is the result \<open>None\<close>.  The worker processes share the arrays: besides
  the functions as one process runs them alone, \<open>pc_step\<close> gives them as sequences of atomic
  memory operations, and \<open>auth_step\<close> interleaves the processes.
\<close>

section \<open>Definitions\<close>

record nonce_state =
  nid_crt :: "u32 list"
  nid_pool_no :: nat
  nid_pool_k :: nat
  nid_pool_mask :: u32
  nc_array_k :: nat
  nc_array_size :: nat
  nc_partition_size :: nat
  nc_partition_k :: nat
  nc_partition_mask :: u32
  nc_array :: "u32 list"
  otn_in_flight_k :: nat
  otn_in_flight_no :: nat
  otn_partition_size :: nat
  otn_partition_k :: nat
  otn_partition_mask :: u32
  otn_array :: "u32 list"

subsection \<open>Nonce ids\<close>

definition NID_INC :: nat where "NID_INC = 257"
definition DEFAULT_NID_POOL_SIZE :: nat where "DEFAULT_NID_POOL_SIZE = 1"
definition MAX_NID_POOL_SIZE :: nat where "MAX_NID_POOL_SIZE = 64"

text \<open>The parameters tell whether the shared memory is there and give the random start values.\<close>

definition init_nonce_id :: "bool \<Rightarrow> (nat \<Rightarrow> u32) \<Rightarrow> nonce_state \<Rightarrow> int \<times> nonce_state" where
  "init_nonce_id mal random s =
     (if nid_crt s \<noteq> [] then (0, s)
      else (let no = (if nid_pool_no s = 0 then DEFAULT_NID_POOL_SIZE else nid_pool_no s);
                no = (if no > MAX_NID_POOL_SIZE then MAX_NID_POOL_SIZE else no);
                k = bit_scan_reverse_br32 (of_nat no);
                pool_no = 2 ^ k;
                s = s\<lparr>nid_pool_k := k, nid_pool_mask := push_bit k 1 - 1, nid_pool_no := pool_no\<rparr>
            in if \<not> mal then (-1, s) else (0, s\<lparr>nid_crt := map random [0..<pool_no]\<rparr>)))"

definition destroy_nonce_id :: "nonce_state \<Rightarrow> nonce_state" where
  "destroy_nonce_id s = s\<lparr>nid_crt := []\<rparr>"

definition nid_get :: "nat \<Rightarrow> nonce_state \<Rightarrow> u32 option" where
  "nid_get p s = (if p < length (nid_crt s) then Some (nid_crt s ! p) else None)"

definition nid_get_pool :: "nat \<Rightarrow> nonce_state \<Rightarrow> nat" where
  "nid_get_pool process_no s = unat (of_nat process_no AND nid_pool_mask s)"

definition nid_inc :: "nat \<Rightarrow> nonce_state \<Rightarrow> (u32 \<times> nonce_state) option" where
  "nid_inc pool s = (case nid_get pool s of None \<Rightarrow> None
     | Some v \<Rightarrow> Some (v + of_nat NID_INC, s\<lparr>nid_crt := (nid_crt s)[pool := v + of_nat NID_INC]\<rparr>))"

subsection \<open>Nonce counts\<close>

definition DEFAULT_NC_ARRAY_SIZE :: nat where "DEFAULT_NC_ARRAY_SIZE = 1024 * 1024"

definition ROUND2TYPE :: "nat \<Rightarrow> nat \<Rightarrow> nat" where
  "ROUND2TYPE s sz = (s + (sz - 1)) div sz * sz"

text \<open>The results of the initialisations; \<open>INIT_ABORT\<close> is a failed \<^verbatim>\<open>assert\<close>.\<close>

datatype init_ret = INIT_OK | INIT_ERR | INIT_ABORT

definition init_nonce_count :: "nat \<Rightarrow> bool \<Rightarrow> nonce_state \<Rightarrow> init_ret \<times> nonce_state" where
  "init_nonce_count max_mem mal s =
     (if nid_crt s = [] then (INIT_ERR, s)
      else (let s = (if nc_array_k s = 0
                     then (let s = (if nc_array_size s = 0 then s\<lparr>nc_array_size := DEFAULT_NC_ARRAY_SIZE\<rparr> else s)
                           in s\<lparr>nc_array_k := bit_scan_reverse_br32 (of_nat (nc_array_size s))\<rparr>)
                     else s);
                size = 2 ^ nc_array_k s
            in if size \<ge> max_mem then (INIT_ERR, s)
               else (let s = s\<lparr>nc_array_size := size mod 2 ^ 32\<rparr> in
                 if nid_pool_no s \<ge> nc_array_size s then (INIT_ERR, s)
                 else (let k = nc_array_k s - nid_pool_k s;
                           s = s\<lparr>nc_partition_size := nc_array_size s div 2 ^ nid_pool_k s,
                                 nc_partition_k := k, nc_partition_mask := push_bit k 1 - 1\<rparr>
                       in if nc_partition_size s \<noteq> nc_array_size s div nid_pool_no s \<or>
                             2 ^ (nc_partition_k s + nid_pool_k s) \<noteq> nc_array_size s then (INIT_ABORT, s)
                          else if nc_partition_size s \<ge> (2 ^ 32 - 1) div NID_INC then (INIT_ERR, s)
                          else if \<not> mal then (INIT_ERR, s\<lparr>nc_array := []\<rparr>)
                          else (INIT_OK, s\<lparr>nc_array := replicate (ROUND2TYPE (nc_array_size s) 4 div 4) (- 1)\<rparr>)))))"

definition destroy_nonce_count :: "nonce_state \<Rightarrow> nonce_state" where
  "destroy_nonce_count s = s\<lparr>nc_array := []\<rparr>"

definition get_nc_array_raw_idx :: "u32 \<Rightarrow> nat \<Rightarrow> nonce_state \<Rightarrow> nat" where
  "get_nc_array_raw_idx i p s = (unat (i AND nc_partition_mask s) + p * 2 ^ nc_partition_k s) mod 2 ^ 32"

definition get_nc_array_uint_idx :: "nat \<Rightarrow> nat" where
  "get_nc_array_uint_idx pos = pos div 4"

definition get_nc_int_pos :: "nat \<Rightarrow> nat" where
  "get_nc_int_pos pos = pos mod 4"

definition id_check_overflow :: "nat \<Rightarrow> u32 \<Rightarrow> u32 \<Rightarrow> bool" where
  "id_check_overflow partition_size crt i \<longleftrightarrow> crt - i \<ge> of_nat NID_INC * of_nat partition_size"

text \<open>The nonce count packed at position \<open>r\<close> of a cell, the cell with it cleared, and replaced.\<close>

definition nc_cell_get :: "u32 \<Rightarrow> nat \<Rightarrow> u32" where
  "nc_cell_get v r = drop_bit (r * 8) v AND (push_bit 8 1 - 1)"
definition nc_cell_clear :: "u32 \<Rightarrow> nat \<Rightarrow> u32" where
  "nc_cell_clear v r = v AND NOT (push_bit (r * 8) (push_bit 8 1 - 1))"
definition nc_cell_set :: "u32 \<Rightarrow> nat \<Rightarrow> u32 \<Rightarrow> u32" where
  "nc_cell_set v r nc = nc_cell_clear v r OR push_bit (r * 8) nc"

definition nc_new :: "u32 \<Rightarrow> nat \<Rightarrow> nonce_state \<Rightarrow> (u32 \<times> nonce_state) option" where
  "nc_new i p s =
     (let n = get_nc_array_raw_idx i p s; c = get_nc_array_uint_idx n; r = get_nc_int_pos n
      in if c < length (nc_array s)
         then Some (i, s\<lparr>nc_array := (nc_array s)[c := nc_cell_clear (nc_array s ! c) r]\<rparr>)
         else None)"

datatype nc_check_ret = NC_OK | NC_INV_POOL | NC_ID_OVERFLOW | NC_TOO_BIG | NC_REPLAY

definition nc_check_val :: "u32 \<Rightarrow> nat \<Rightarrow> u32 \<Rightarrow> nonce_state \<Rightarrow> (nc_check_ret \<times> nonce_state) option" where
  "nc_check_val i pool nc s =
     (if pool \<ge> nid_pool_no s then Some (NC_INV_POOL, s)
      else case nid_get pool s of None \<Rightarrow> None
      | Some crt \<Rightarrow>
          if id_check_overflow (nc_partition_size s) crt i then Some (NC_ID_OVERFLOW, s)
          else if nc \<ge> push_bit 8 1 then Some (NC_TOO_BIG, s)
          else (let n = get_nc_array_raw_idx i pool s; c = get_nc_array_uint_idx n; r = get_nc_int_pos n
                in if c \<ge> length (nc_array s) then None
                   else if nc_cell_get (nc_array s ! c) r \<ge> nc then Some (NC_REPLAY, s)
                   else Some (NC_OK, s\<lparr>nc_array := (nc_array s)[c := nc_cell_set (nc_array s ! c) r nc]\<rparr>)))"

subsection \<open>One-time nonces\<close>

definition DEFAULT_OTN_IN_FLIGHT :: nat where "DEFAULT_OTN_IN_FLIGHT = 1024 * 1024"

definition init_ot_nonce :: "nat \<Rightarrow> bool \<Rightarrow> nonce_state \<Rightarrow> init_ret \<times> nonce_state" where
  "init_ot_nonce max_mem mal s =
     (if nid_crt s = [] then (INIT_ERR, s)
      else (let s = (if otn_in_flight_k s = 0
                     then (let s = (if otn_in_flight_no s = 0 then s\<lparr>otn_in_flight_no := DEFAULT_OTN_IN_FLIGHT\<rparr> else s)
                           in s\<lparr>otn_in_flight_k := bit_scan_reverse_br32 (of_nat (otn_in_flight_no s))\<rparr>)
                     else s);
                size = 2 ^ otn_in_flight_k s
            in if size div 8 \<ge> max_mem then (INIT_ERR, s)
               else (let s = s\<lparr>otn_in_flight_no := size mod 2 ^ 32\<rparr> in
                 if nid_pool_no s \<ge> otn_in_flight_no s div (8 * 4) then (INIT_ERR, s)
                 else (let k = otn_in_flight_k s - nid_pool_k s;
                           s = s\<lparr>otn_partition_size := otn_in_flight_no s div 2 ^ nid_pool_k s,
                                 otn_partition_k := k, otn_partition_mask := push_bit k 1 - 1\<rparr>
                       in if otn_partition_size s \<noteq> otn_in_flight_no s div nid_pool_no s \<or>
                             2 ^ (otn_partition_k s + nid_pool_k s) \<noteq> otn_in_flight_no s then (INIT_ABORT, s)
                          else if otn_partition_size s \<ge> (2 ^ 32 - 1) div NID_INC then (INIT_ERR, s)
                          else if \<not> mal then (INIT_ERR, s\<lparr>otn_array := []\<rparr>)
                          else (INIT_OK, s\<lparr>otn_array :=
                                  replicate (ROUND2TYPE ((otn_in_flight_no s + 7) div 8) 4 div 4) (- 1)\<rparr>)))))"

definition destroy_ot_nonce :: "nonce_state \<Rightarrow> nonce_state" where
  "destroy_ot_nonce s = s\<lparr>otn_array := []\<rparr>"

definition get_otn_array_bit_idx :: "u32 \<Rightarrow> nat \<Rightarrow> nonce_state \<Rightarrow> nat" where
  "get_otn_array_bit_idx i p s = (unat (i AND otn_partition_mask s) + p * 2 ^ otn_partition_k s) mod 2 ^ 32"

definition get_otn_array_cell_idx :: "nat \<Rightarrow> nat" where
  "get_otn_array_cell_idx pos = pos div 32"

definition get_otn_cell_bit :: "nat \<Rightarrow> nat" where
  "get_otn_cell_bit pos = pos mod 32"

definition otn_new :: "u32 \<Rightarrow> nat \<Rightarrow> nonce_state \<Rightarrow> (u32 \<times> nonce_state) option" where
  "otn_new i p s =
     (let n = get_otn_array_bit_idx i p s; c = get_otn_array_cell_idx n; b = get_otn_cell_bit n
      in if c < length (otn_array s)
         then Some (i, s\<lparr>otn_array := (otn_array s)[c := otn_array s ! c AND NOT (push_bit b 1)]\<rparr>)
         else None)"

datatype otn_check_ret = OTN_OK | OTN_INV_POOL | OTN_ID_OVERFLOW | OTN_REPLAY

definition otn_check_id :: "u32 \<Rightarrow> nat \<Rightarrow> nonce_state \<Rightarrow> (otn_check_ret \<times> nonce_state) option" where
  "otn_check_id i pool s =
     (if pool \<ge> nid_pool_no s then Some (OTN_INV_POOL, s)
      else case nid_get pool s of None \<Rightarrow> None
      | Some crt \<Rightarrow>
          if id_check_overflow (otn_partition_size s) crt i then Some (OTN_ID_OVERFLOW, s)
          else (let n = get_otn_array_bit_idx i pool s; c = get_otn_array_cell_idx n; b = get_otn_cell_bit n
                in if c \<ge> length (otn_array s) then None
                   else if otn_array s ! c AND push_bit b 1 \<noteq> 0 then Some (OTN_REPLAY, s)
                   else Some (OTN_OK, s\<lparr>otn_array := (otn_array s)[c := otn_array s ! c OR push_bit b 1]\<rparr>)))"

text \<open>
  Taking a new id for a challenge (\<^verbatim>\<open>build_challenge_hf\<close>): the id and the byte with the pool number
  and the flags that go into the nonce.
\<close>

definition NF_VALID_NC_ID :: nat where "NF_VALID_NC_ID = 128"
definition NF_VALID_OT_ID :: nat where "NF_VALID_OT_ID = 64"
definition NF_POOL_NO_MASK :: nat where "NF_POOL_NO_MASK = 63"

definition challenge_id :: "nat \<Rightarrow> bool \<Rightarrow> bool \<Rightarrow> nonce_state \<Rightarrow> ((u32 \<times> nat) \<times> nonce_state) option" where
  "challenge_id process_no nc_enabled otn_enabled s =
     (if nc_enabled \<or> otn_enabled then
        (let pool = nid_get_pool process_no s in
         case nid_inc pool s of None \<Rightarrow> None
         | Some (n_id, s) \<Rightarrow>
             (case (if nc_enabled then nc_new n_id pool s else Some (n_id, s)) of None \<Rightarrow> None
              | Some (_, s) \<Rightarrow>
                  (let pool = (if nc_enabled then pool OR NF_VALID_NC_ID else pool) in
                   case (if otn_enabled then otn_new n_id pool s else Some (n_id, s)) of None \<Rightarrow> None
                   | Some (_, s) \<Rightarrow>
                       Some ((n_id, if otn_enabled then pool OR NF_VALID_OT_ID else pool), s))))
      else Some ((0, 0), s))"

subsection \<open>The processes\<close>

text \<open>
  Where a process is inside one of the functions: before the call reads the current id, in the
  loop before the cell is read, or between the read and the write.  The position \<open>n\<close> is the raw
  index computed at the start.
\<close>

datatype nonce_pc =
    Idle
  | NC_Check u32 nat u32
  | NC_Loop nat u32
  | NC_Cas nat u32 u32
  | NC_New u32 nat
  | NC_NewLoop u32 nat
  | NC_NewCas u32 nat u32
  | OTN_Check u32 nat
  | OTN_Read nat
  | OTN_Or nat
  | OTN_New u32 nat
  | NID_Inc nat
  | Ret_nc nc_check_ret
  | Ret_otn otn_check_ret
  | Ret_id u32

text \<open>What happened, at the moment the shared cell changes.\<close>

datatype nonce_event = Nc_accept nat u32 | Nc_reset nat | Otn_accept nat | Otn_reset nat

text \<open>One atomic memory operation of a process.\<close>

fun pc_step :: "nonce_state \<Rightarrow> nonce_pc \<Rightarrow> (nonce_state \<times> nonce_pc \<times> nonce_event list) option" where
  "pc_step s (NC_Check i pool nc) =
     (if pool \<ge> nid_pool_no s then Some (s, Ret_nc NC_INV_POOL, [])
      else case nid_get pool s of None \<Rightarrow> None
      | Some crt \<Rightarrow>
          if id_check_overflow (nc_partition_size s) crt i then Some (s, Ret_nc NC_ID_OVERFLOW, [])
          else if nc \<ge> push_bit 8 1 then Some (s, Ret_nc NC_TOO_BIG, [])
          else Some (s, NC_Loop (get_nc_array_raw_idx i pool s) nc, []))"
| "pc_step s (NC_Loop n nc) =
     (if get_nc_array_uint_idx n \<ge> length (nc_array s) then None
      else (let v = nc_array s ! get_nc_array_uint_idx n in
        if nc_cell_get v (get_nc_int_pos n) \<ge> nc then Some (s, Ret_nc NC_REPLAY, [])
        else Some (s, NC_Cas n nc v, [])))"
| "pc_step s (NC_Cas n nc v) =
     (let c = get_nc_array_uint_idx n in
      if c \<ge> length (nc_array s) then None
      else if nc_array s ! c = v
      then Some (s\<lparr>nc_array := (nc_array s)[c := nc_cell_set v (get_nc_int_pos n) nc]\<rparr>, Ret_nc NC_OK, [Nc_accept n nc])
      else Some (s, NC_Loop n nc, []))"
| "pc_step s (NC_New i p) = Some (s, NC_NewLoop i (get_nc_array_raw_idx i p s), [])"
| "pc_step s (NC_NewLoop i n) =
     (if get_nc_array_uint_idx n \<ge> length (nc_array s) then None
      else Some (s, NC_NewCas i n (nc_array s ! get_nc_array_uint_idx n), []))"
| "pc_step s (NC_NewCas i n v) =
     (let c = get_nc_array_uint_idx n in
      if c \<ge> length (nc_array s) then None
      else if nc_array s ! c = v
      then Some (s\<lparr>nc_array := (nc_array s)[c := nc_cell_clear v (get_nc_int_pos n)]\<rparr>, Ret_id i, [Nc_reset n])
      else Some (s, NC_NewLoop i n, []))"
| "pc_step s (OTN_Check i pool) =
     (if pool \<ge> nid_pool_no s then Some (s, Ret_otn OTN_INV_POOL, [])
      else case nid_get pool s of None \<Rightarrow> None
      | Some crt \<Rightarrow>
          if id_check_overflow (otn_partition_size s) crt i then Some (s, Ret_otn OTN_ID_OVERFLOW, [])
          else Some (s, OTN_Read (get_otn_array_bit_idx i pool s), []))"
| "pc_step s (OTN_Read n) =
     (let c = get_otn_array_cell_idx n in
      if c \<ge> length (otn_array s) then None
      else if otn_array s ! c AND push_bit (get_otn_cell_bit n) 1 \<noteq> 0 then Some (s, Ret_otn OTN_REPLAY, [])
      else Some (s, OTN_Or n, []))"
| "pc_step s (OTN_Or n) =
     (let c = get_otn_array_cell_idx n in
      if c \<ge> length (otn_array s) then None
      else Some (s\<lparr>otn_array := (otn_array s)[c := otn_array s ! c OR push_bit (get_otn_cell_bit n) 1]\<rparr>,
                 Ret_otn OTN_OK, [Otn_accept n]))"
| "pc_step s (OTN_New i p) =
     (case otn_new i p s of None \<Rightarrow> None
      | Some (i', s') \<Rightarrow> Some (s', Ret_id i', [Otn_reset (get_otn_array_bit_idx i p s)]))"
| "pc_step s (NID_Inc pool) =
     (case nid_inc pool s of None \<Rightarrow> None | Some (i, s') \<Rightarrow> Some (s', Ret_id i, []))"
| "pc_step s pc = None"

text \<open>All processes, and the history of the events, the last one first.\<close>

record auth_sys =
  shm :: nonce_state
  pcs :: "nat \<Rightarrow> nonce_pc"
  hist :: "nonce_event list"

fun returned :: "nonce_pc \<Rightarrow> bool" where
  "returned Idle = True"
| "returned (Ret_nc _) = True"
| "returned (Ret_otn _) = True"
| "returned (Ret_id _) = True"
| "returned _ = False"

text \<open>The calls: a received nonce may name any pool, a new id is taken from a valid pool.\<close>

fun entry_call :: "nonce_state \<Rightarrow> nonce_pc \<Rightarrow> bool" where
  "entry_call s (NC_Check i pool nc) = True"
| "entry_call s (NC_New i p) = (p < nid_pool_no s)"
| "entry_call s (OTN_Check i pool) = True"
| "entry_call s (OTN_New i p) = (p < nid_pool_no s)"
| "entry_call s (NID_Inc p) = (p < nid_pool_no s)"
| "entry_call s _ = False"

inductive auth_step :: "auth_sys \<Rightarrow> auth_sys \<Rightarrow> bool" where
  call: "returned (pcs y p) \<Longrightarrow> entry_call (shm y) pc \<Longrightarrow> auth_step y (y\<lparr>pcs := (pcs y)(p := pc)\<rparr>)"
| exec: "pc_step (shm y) (pcs y p) = Some (s', pc', ev) \<Longrightarrow>
    auth_step y (y\<lparr>shm := s', pcs := (pcs y)(p := pc'), hist := ev @ hist y\<rparr>)"

definition start_sys :: "nonce_state \<Rightarrow> auth_sys" where
  "start_sys s = \<lparr>shm = s, pcs = (\<lambda>_. Idle), hist = []\<rparr>"

section \<open>Specification\<close>

text \<open>A process that runs alone, for at most \<open>n\<close> steps.\<close>

fun pc_run :: "nat \<Rightarrow> nonce_state \<Rightarrow> nonce_pc \<Rightarrow> (nonce_state \<times> nonce_pc) option" where
  "pc_run 0 s pc = Some (s, pc)"
| "pc_run (Suc n) s pc =
     (if returned pc then Some (s, pc)
      else case pc_step s pc of None \<Rightarrow> None | Some (s', pc', ev) \<Rightarrow> pc_run n s' pc')"

text \<open>A schedule: which process calls a function or makes its next step.\<close>

fun sched :: "(nat \<times> nonce_pc option) list \<Rightarrow> auth_sys \<Rightarrow> auth_sys option" where
  "sched [] y = Some y"
| "sched ((p, Some pc) # l) y =
     (if returned (pcs y p) \<and> entry_call (shm y) pc then sched l (y\<lparr>pcs := (pcs y)(p := pc)\<rparr>) else None)"
| "sched ((p, None) # l) y =
     (case pc_step (shm y) (pcs y p) of None \<Rightarrow> None
      | Some (s', pc', ev) \<Rightarrow> sched l (y\<lparr>shm := s', pcs := (pcs y)(p := pc'), hist := ev @ hist y\<rparr>))"

text \<open>A small configuration with one pool: 64 counts and 64 one-time nonces.\<close>

definition nonce_conf :: nonce_state where
  "nonce_conf = \<lparr>nid_crt = [], nid_pool_no = 1, nid_pool_k = 0, nid_pool_mask = 0,
     nc_array_k = 6, nc_array_size = 0, nc_partition_size = 0, nc_partition_k = 0, nc_partition_mask = 0, nc_array = [],
     otn_in_flight_k = 6, otn_in_flight_no = 0, otn_partition_size = 0, otn_partition_k = 0, otn_partition_mask = 0,
     otn_array = []\<rparr>"

definition nonce_start :: nonce_state where
  "nonce_start = snd (init_ot_nonce 1000 True (snd (init_nonce_count 1000 True (snd (init_nonce_id True (\<lambda>_. 0) nonce_conf)))))"

text \<open>What the initialisations establish.\<close>

definition nid_wf :: "nonce_state \<Rightarrow> bool" where
  "nid_wf s \<longleftrightarrow> nid_pool_k s \<le> 6 \<and> nid_pool_no s = 2 ^ nid_pool_k s \<and>
     nid_pool_mask s = mask (nid_pool_k s) \<and> length (nid_crt s) = nid_pool_no s"

definition nc_wf :: "nonce_state \<Rightarrow> bool" where
  "nc_wf s \<longleftrightarrow> nid_wf s \<and> nc_partition_mask s = mask (nc_partition_k s) \<and>
     nc_partition_size s = 2 ^ nc_partition_k s \<and> 257 * 2 ^ nc_partition_k s < (2 :: nat) ^ 32 \<and>
     nid_pool_no s * 2 ^ nc_partition_k s < 2 ^ 32 \<and>
     nid_pool_no s * 2 ^ nc_partition_k s \<le> 4 * length (nc_array s)"

definition otn_wf :: "nonce_state \<Rightarrow> bool" where
  "otn_wf s \<longleftrightarrow> nid_wf s \<and> otn_partition_mask s = mask (otn_partition_k s) \<and>
     otn_partition_size s = 2 ^ otn_partition_k s \<and> 257 * 2 ^ otn_partition_k s < (2 :: nat) ^ 32 \<and>
     nid_pool_no s * 2 ^ otn_partition_k s < 2 ^ 32 \<and>
     nid_pool_no s * 2 ^ otn_partition_k s = 32 * length (otn_array s)"

text \<open>The count stored at position \<open>n\<close>, and the one the history gives for it.\<close>

definition nc_at :: "nonce_state \<Rightarrow> nat \<Rightarrow> u32" where
  "nc_at s n = nc_cell_get (nc_array s ! (n div 4)) (n mod 4)"

fun last_nc :: "nonce_event list \<Rightarrow> nat \<Rightarrow> u32" where
  "last_nc [] n = 255"
| "last_nc (Nc_accept m nc # l) n = (if m = n then nc else last_nc l n)"
| "last_nc (Nc_reset m # l) n = (if m = n then 0 else last_nc l n)"
| "last_nc (_ # l) n = last_nc l n"

text \<open>Every accepted count is above the one stored before.\<close>

fun increasing :: "nonce_event list \<Rightarrow> bool" where
  "increasing [] \<longleftrightarrow> True"
| "increasing (Nc_accept m nc # l) \<longleftrightarrow> last_nc l m < nc \<and> nc < 256 \<and> increasing l"
| "increasing (_ # l) \<longleftrightarrow> increasing l"

text \<open>What holds at each point of a process.\<close>

fun pc_ok :: "nonce_state \<Rightarrow> nonce_pc \<Rightarrow> bool" where
  "pc_ok s (NC_Loop n nc) \<longleftrightarrow> n < 4 * length (nc_array s) \<and> nc < 256"
| "pc_ok s (NC_Cas n nc v) \<longleftrightarrow> n < 4 * length (nc_array s) \<and> nc < 256 \<and> nc_cell_get v (n mod 4) < nc"
| "pc_ok s (NC_New i p) \<longleftrightarrow> p < nid_pool_no s"
| "pc_ok s (NC_NewLoop i n) \<longleftrightarrow> n < 4 * length (nc_array s)"
| "pc_ok s (NC_NewCas i n v) \<longleftrightarrow> n < 4 * length (nc_array s)"
| "pc_ok s _ \<longleftrightarrow> True"

definition sys_inv :: "auth_sys \<Rightarrow> bool" where
  "sys_inv y \<longleftrightarrow> nc_wf (shm y) \<and> (\<forall>p. pc_ok (shm y) (pcs y p)) \<and> increasing (hist y) \<and>
     (\<forall>n<4 * length (nc_array (shm y)). nc_at (shm y) n = last_nc (hist y) n)"

section \<open>Lemmas\<close>

subsection \<open>Counts packed in a cell\<close>

lemma byte_mask: "push_bit 8 1 - 1 = (mask 8 :: u32)"
  by (simp add: mask_eq_exp_minus_1 push_bit_of_1)

lemma byte_take: "nc < 256 \<Longrightarrow> take_bit 8 nc = (nc :: u32)"
  by (simp add: word_unat_eq_iff unsigned_take_bit_eq take_bit_nat_eq_self word_less_nat_alt)

lemma bit_cell_get: "bit (nc_cell_get v r) j \<longleftrightarrow> j < 8 \<and> bit v (r * 8 + j)"
  unfolding nc_cell_get_def byte_mask by (auto simp: bit_simps dest: bit_imp_le_length)

lemma bit_cell_clear: "j < 8 \<Longrightarrow> bit (nc_cell_clear v r) (s * 8 + j) \<longleftrightarrow> bit v (s * 8 + j) \<and> s \<noteq> r"
proof -
  assume j: "j < 8"
  have "r * 8 \<le> s * 8 + j \<and> s * 8 + j - r * 8 < 8 \<longleftrightarrow> s = r" using j by (cases "s < r"; cases "s = r") auto
  then show ?thesis unfolding nc_cell_clear_def byte_mask by (auto simp: bit_simps dest: bit_imp_le_length)
qed

lemma nc_cell_get_clear: "nc_cell_get (nc_cell_clear v r) s = (if s = r then 0 else nc_cell_get v s)"
  by (intro bit_eqI) (auto simp: bit_cell_get bit_cell_clear)

lemma nc_cell_get_set:
  assumes "nc < 256" "r < 4"
  shows "nc_cell_get (nc_cell_set v r nc) s = (if s = r then nc else nc_cell_get v s)"
proof (intro bit_eqI)
  fix j
  have nc: "bit nc k \<Longrightarrow> k < 8" for k
  proof -
    have "take_bit 8 nc = nc" using assms(1) by (rule byte_take)
    then show "bit nc k \<Longrightarrow> k < 8" by (metis bit_take_bit_iff)
  qed
  have "j < 8 \<Longrightarrow> bit (push_bit (r * 8) nc) (s * 8 + j) \<longleftrightarrow> s = r \<and> bit nc j"
  proof -
    assume j: "j < 8"
    show ?thesis
    proof (cases "s = r")
      case True
      then show ?thesis using assms(2) j by (auto simp: bit_simps)
    next
      case False
      have "\<not> bit nc (s * 8 + j - r * 8)" if "r * 8 \<le> s * 8 + j"
        using that False j nc [of "s * 8 + j - r * 8"] by (cases "s < r") auto
      then show ?thesis using False by (auto simp: bit_simps)
    qed
  qed
  then show "bit (nc_cell_get (nc_cell_set v r nc) s) j = bit (if s = r then nc else nc_cell_get v s) j"
    using nc [of j] by (auto simp: bit_cell_get nc_cell_set_def bit_or_iff bit_cell_clear)
qed

lemma nc_cell_get_less: "nc_cell_get v r < 256"
proof -
  have "nc_cell_get v r = take_bit 8 (drop_bit (r * 8) v)"
    unfolding nc_cell_get_def byte_mask take_bit_eq_mask ..
  then have "unat (nc_cell_get v r) = take_bit 8 (unat (drop_bit (r * 8) v))" by (simp add: unsigned_take_bit_eq)
  then have "unat (nc_cell_get v r) < 2 ^ 8" by (metis take_bit_nat_less_exp)
  then show ?thesis by (simp add: word_less_nat_alt)
qed

lemma nc_at_update:
  assumes "n < 4 * length (nc_array s)"
  shows "nc_at (s\<lparr>nc_array := (nc_array s)[n div 4 := w]\<rparr>) m =
    (if m div 4 = n div 4 then nc_cell_get w (m mod 4) else nc_at s m)"
proof -
  have "n div 4 < length (nc_array s)" using assms by (simp add: less_mult_imp_div_less mult.commute)
  then show ?thesis by (auto simp: nc_at_def)
qed

lemma div_mod_4_eq: "(a :: nat) div 4 = b div 4 \<Longrightarrow> (a mod 4 = b mod 4) = (a = b)"
  by (metis div_mult_mod_eq)

lemma nc_at_set:
  assumes "n < 4 * length (nc_array s)" "nc < 256"
  shows "nc_at (s\<lparr>nc_array := (nc_array s)[n div 4 := nc_cell_set (nc_array s ! (n div 4)) (n mod 4) nc]\<rparr>) m =
    (if m = n then nc else nc_at s m)"
  unfolding nc_at_update [OF assms(1)] using nc_cell_get_set [OF assms(2)]
  by (auto simp: div_mod_4_eq nc_at_def)

lemma nc_at_clear:
  assumes "n < 4 * length (nc_array s)"
  shows "nc_at (s\<lparr>nc_array := (nc_array s)[n div 4 := nc_cell_clear (nc_array s ! (n div 4)) (n mod 4)]\<rparr>) m =
    (if m = n then 0 else nc_at s m)"
  unfolding nc_at_update [OF assms(1)] by (auto simp: nc_cell_get_clear div_mod_4_eq nc_at_def)

subsection \<open>Initialisation\<close>

lemma bit_scan_reverse32_bounds:
  assumes "0 < n" "n < 2 ^ 32"
  shows "2 ^ bit_scan_reverse_br32 (of_nat n) \<le> n" "bit_scan_reverse_br32 (of_nat n) < 32"
proof -
  let ?v = "of_nat n :: u32"
  have u: "unat ?v = n" using assms(2) by (simp add: unsigned_of_nat take_bit_nat_eq_self)
  then have "?v \<noteq> 0" using assms(1) by auto
  then obtain m where m: "is_msb ?v m" using is_msb_ex by blast
  have "drop_bit m ?v \<noteq> 0"
    using m by (auto simp: is_msb_def bit_drop_bit_eq dest: arg_cong [where f = "\<lambda>w. bit w 0"])
  then have "n div 2 ^ m \<noteq> 0" using u by (metis unat_drop_bit unat_eq_0)
  then have "2 ^ m \<le> n" by (metis div_less linorder_not_less)
  then show "2 ^ bit_scan_reverse_br32 (of_nat n) \<le> n" "bit_scan_reverse_br32 (of_nat n) < 32"
    using m is_msb_less [OF m] by (simp_all add: br32.reverse_msb [OF m])
qed

lemma shift_mask: "push_bit k 1 - 1 = (mask k :: u32)"
  by (simp add: mask_eq_exp_minus_1 push_bit_of_1)

lemma init_nonce_id_wf:
  assumes "init_nonce_id mal random s = (0, s')" "nid_crt s = []"
  shows "nid_wf s'"
proof -
  define no where "no = min (if nid_pool_no s = 0 then 1 else nid_pool_no s) 64"
  define k where "k = bit_scan_reverse_br32 (of_nat no :: u32)"
  have no: "0 < no" "no \<le> 64" by (auto simp: no_def)
  have "2 ^ k \<le> (2 :: nat) ^ 6" using bit_scan_reverse32_bounds(1) [of no] no unfolding k_def by simp
  then have k6: "k \<le> 6" by (simp only: power_increasing_iff) 
  have e: "(if 64 < (if nid_pool_no s = 0 then 1 else nid_pool_no s) then 64
      else if nid_pool_no s = 0 then 1 else nid_pool_no s) = no" by (auto simp: no_def)
  have mal: "mal" using assms by (auto simp: init_nonce_id_def Let_def split: if_splits)
  then have "s' = s\<lparr>nid_pool_k := k, nid_pool_mask := mask k, nid_pool_no := 2 ^ k, nid_crt := map random [0..<2 ^ k]\<rparr>"
    using assms unfolding init_nonce_id_def Let_def DEFAULT_NID_POOL_SIZE_def MAX_NID_POOL_SIZE_def e shift_mask
      k_def [symmetric] by simp
  then show ?thesis using k6 by (simp add: nid_wf_def)
qed

text \<open>The two arrays are set up alike: the size is a power of two above the number of pools.\<close>

lemma pow_div_sub: "P < K \<Longrightarrow> (2 :: nat) ^ K div 2 ^ P = 2 ^ (K - P)"
  by (simp add: power_diff)

lemma pow_mod_32: "(2 :: nat) ^ P < 2 ^ K mod 2 ^ 32 \<Longrightarrow> K < 32 \<and> P < K \<and> 2 ^ K mod 2 ^ 32 = (2 :: nat) ^ K"
proof -
  assume a: "(2 :: nat) ^ P < 2 ^ K mod 2 ^ 32"
  have K: "K < 32"
  proof (rule ccontr)
    assume "\<not> K < 32"
    then have "(2 :: nat) ^ K = 2 ^ (K - 32) * 2 ^ 32" by (subst power_add [symmetric]) simp
    then have "(2 :: nat) ^ K mod 2 ^ 32 = 0" by (simp only: mod_mult_self2_is_0)
    then show False using a by simp
  qed
  then have e: "(2 :: nat) ^ K mod 2 ^ 32 = 2 ^ K" by (intro mod_less power_strict_increasing) auto
  then have "P < K" using a by (simp only: e power_strict_increasing_iff)
  then show ?thesis using K e by simp
qed

lemma partition_limit: "(n :: nat) < (2 ^ 32 - 1) div NID_INC \<Longrightarrow> 257 * n < 2 ^ 32"
  by (simp add: NID_INC_def)

lemma init_nonce_count_wf:
  assumes wf: "nid_wf s" and i: "init_nonce_count max_mem mal s = (r, s')"
  shows "r \<noteq> INIT_ABORT \<and> (r = INIT_OK \<longrightarrow> nc_wf s' \<and> nid_crt s' = nid_crt s \<and>
    (\<forall>n<4 * length (nc_array s'). nc_at s' n = 255))"
proof -
  define s1 where "s1 = (if nc_array_k s = 0
     then (let s = (if nc_array_size s = 0 then s\<lparr>nc_array_size := DEFAULT_NC_ARRAY_SIZE\<rparr> else s)
           in s\<lparr>nc_array_k := bit_scan_reverse_br32 (of_nat (nc_array_size s))\<rparr>) else s)"
  define K where "K = nc_array_k s1"
  define P where "P = nid_pool_k s"
  have s1: "nid_crt s1 = nid_crt s" "nid_pool_k s1 = P" "nid_pool_no s1 = 2 ^ P" "nid_pool_mask s1 = nid_pool_mask s"
    using wf by (simp_all add: s1_def Let_def nid_wf_def P_def)
  have ne: "nid_crt s \<noteq> []" using wf by (auto simp: nid_wf_def)
  show ?thesis
  proof (cases "2 ^ K \<ge> max_mem \<or> 2 ^ P \<ge> (2 :: nat) ^ K mod 2 ^ 32")
    case True
    then have "r = INIT_ERR" using i ne unfolding init_nonce_count_def s1_def [symmetric]
      by (auto simp: Let_def K_def s1 split: if_splits)
    then show ?thesis by simp
  next
    case False
    note K = pow_mod_32 [of P K]
    define s2 where "s2 = s1\<lparr>nc_array_size := 2 ^ K, nc_partition_size := 2 ^ (K - P), nc_partition_k := K - P,
      nc_partition_mask := mask (K - P)\<rparr>"
    have e: "init_nonce_count max_mem mal s = (if 2 ^ (K - P) \<ge> (2 ^ 32 - 1) div NID_INC then (INIT_ERR, s2)
        else if \<not> mal then (INIT_ERR, s2\<lparr>nc_array := []\<rparr>)
        else (INIT_OK, s2\<lparr>nc_array := replicate (ROUND2TYPE (2 ^ K) 4 div 4) (- 1)\<rparr>))"
      using ne False K unfolding init_nonce_count_def s1_def [symmetric]
      by (simp add: Let_def K_def [symmetric] s1 s2_def pow_div_sub mask_eq_exp_minus_1 del: power_numeral)
    have "r \<noteq> INIT_ABORT" using i unfolding e by (auto split: if_splits)
    moreover have "nc_wf s' \<and> nid_crt s' = nid_crt s \<and> (\<forall>n<4 * length (nc_array s'). nc_at s' n = 255)"
      if "r = INIT_OK"
    proof -
      have s': "s' = s2\<lparr>nc_array := replicate (ROUND2TYPE (2 ^ K) 4 div 4) (- 1)\<rparr>"
        "(2 :: nat) ^ (K - P) < (2 ^ 32 - 1) div NID_INC" using i that unfolding e by (auto split: if_splits)
      have "(2 :: nat) ^ P * 2 ^ (K - P) = 2 ^ K" using K False by (simp flip: power_add)
      moreover have "(2 :: nat) ^ K \<le> 4 * (ROUND2TYPE (2 ^ K) 4 div 4)" by (simp add: ROUND2TYPE_def)
      moreover have "(2 :: nat) ^ K < 2 ^ 32" using K False by (intro power_strict_increasing) auto
      ultimately have "nc_wf s'" using wf s1 partition_limit [OF s'(2)]
        unfolding nc_wf_def s'(1) by (simp add: nid_wf_def s2_def P_def)
      moreover have "nc_cell_get (- 1) r = 255" if "r < 4" for r
      proof -
        have "nc_cell_get (- 1) r = mask 8" using that by (intro bit_eqI) (auto simp: bit_cell_get bit_simps)
        then show ?thesis by (simp add: mask_eq_exp_minus_1)
      qed
      ultimately show ?thesis by (auto simp: s'(1) nc_at_def s2_def s1 less_mult_imp_div_less mult.commute)
    qed
    ultimately show ?thesis by blast
  qed
qed

subsection \<open>The processes keep the counts\<close>

lemma raw_idx_bound:
  assumes "nc_wf s" "p < nid_pool_no s"
  shows "get_nc_array_raw_idx i p s < 4 * length (nc_array s)"
    "get_nc_array_raw_idx i p s = unat i mod 2 ^ nc_partition_k s + p * 2 ^ nc_partition_k s"
proof -
  let ?k = "nc_partition_k s"
  have m: "unat (i AND nc_partition_mask s) = unat i mod 2 ^ ?k" using assms(1) by (simp add: nc_wf_def unat_and_mask)
  have "unat i mod 2 ^ ?k + p * 2 ^ ?k < (p + 1) * 2 ^ ?k" by simp
  also have "\<dots> \<le> nid_pool_no s * 2 ^ ?k" using assms(2) by (intro mult_le_mono1) simp
  finally have lt: "unat i mod 2 ^ ?k + p * 2 ^ ?k < nid_pool_no s * 2 ^ ?k" .
  then show e: "get_nc_array_raw_idx i p s = unat i mod 2 ^ ?k + p * 2 ^ ?k"
    using assms(1) unfolding get_nc_array_raw_idx_def m by (simp add: nc_wf_def)
  show "get_nc_array_raw_idx i p s < 4 * length (nc_array s)"
    using lt assms(1) unfolding e nc_wf_def by linarith
qed

lemma nc_wf_update:
  "length a = length (nc_array s) \<Longrightarrow> nc_wf (s\<lparr>nc_array := a\<rparr>) = nc_wf s"
  "nc_wf (s\<lparr>otn_array := b\<rparr>) = nc_wf s"
  "length c = length (nid_crt s) \<Longrightarrow> nc_wf (s\<lparr>nid_crt := c\<rparr>) = nc_wf s"
  by (simp_all add: nc_wf_def nid_wf_def)

text \<open>A step of one process: the configuration stays, the other processes are not disturbed, and the
  counts change as the events say.\<close>

lemma pc_ok_cong:
  "length (nc_array s') = length (nc_array s) \<Longrightarrow> nid_pool_no s' = nid_pool_no s \<Longrightarrow> pc_ok s' pc = pc_ok s pc"
  by (cases pc) auto

lemma nc_at_cong: "nc_array s' = nc_array s \<Longrightarrow> nc_at s' n = nc_at s n"
  by (simp add: nc_at_def)

definition step_effect :: "nonce_state \<Rightarrow> nonce_state \<Rightarrow> nonce_event list \<Rightarrow> bool" where
  "step_effect s s' ev \<longleftrightarrow> nc_wf s' \<and> length (nc_array s') = length (nc_array s) \<and> nid_pool_no s' = nid_pool_no s \<and>
     (\<forall>h. (\<forall>n<4 * length (nc_array s). nc_at s n = last_nc h n) \<longrightarrow> increasing h \<longrightarrow>
       (\<forall>n<4 * length (nc_array s). nc_at s' n = last_nc (ev @ h) n) \<and> increasing (ev @ h))"

lemma step_effect_refl: "nc_wf s \<Longrightarrow> step_effect s s []"
  by (simp add: step_effect_def)

lemma step_effect_other:
  assumes "nc_wf s'" "nc_array s' = nc_array s" "nid_pool_no s' = nid_pool_no s"
    "\<And>h n. last_nc (ev @ h) n = last_nc h n" "\<And>h. increasing (ev @ h) = increasing h"
  shows "step_effect s s' ev"
  using assms nc_at_cong [OF assms(2)] by (simp add: step_effect_def)

lemma pc_step_effect:
  assumes wf: "nc_wf s" and ok: "pc_ok s pc" and st: "pc_step s pc = Some (s', pc', ev)"
  shows "step_effect s s' ev \<and> pc_ok s' pc'"
proof (cases pc)
  case (NC_Check i pool nc)
  have "nc < 256" if "\<not> nc \<ge> push_bit 8 1" using that by (simp add: push_bit_of_1 not_le)
  then show ?thesis using st wf raw_idx_bound(1) [OF wf, of pool i] unfolding NC_Check
    by (auto simp: step_effect_refl split: if_splits option.splits)
next
  case (NC_Loop n nc)
  then show ?thesis using st wf ok
    by (auto simp: step_effect_refl Let_def get_nc_array_uint_idx_def get_nc_int_pos_def not_le split: if_splits)
next
  case (NC_Cas n nc v)
  have n: "n < 4 * length (nc_array s)" "nc < 256" "nc_cell_get v (n mod 4) < nc" using ok NC_Cas by auto
  show ?thesis
  proof (cases "nc_array s ! (n div 4) = v")
    case True
    then have s': "s' = s\<lparr>nc_array := (nc_array s)[n div 4 := nc_cell_set (nc_array s ! (n div 4)) (n mod 4) nc]\<rparr>"
        "pc' = Ret_nc NC_OK" "ev = [Nc_accept n nc]"
      using st unfolding NC_Cas by (auto simp: Let_def get_nc_array_uint_idx_def get_nc_int_pos_def split: if_splits)
    have "last_nc h n < nc" if "\<forall>m<4 * length (nc_array s). nc_at s m = last_nc h m" for h
      using that [rule_format, OF n(1)] n(3) True by (simp add: nc_at_def)
    then have "step_effect s s' ev"
      using wf n(2) nc_at_set [OF n(1,2)] unfolding step_effect_def s' by (auto simp: nc_wf_update)
    then show ?thesis using s'(2) by simp
  next
    case False
    then show ?thesis using st wf n unfolding NC_Cas
      by (auto simp: step_effect_refl Let_def get_nc_array_uint_idx_def split: if_splits)
  qed
next
  case (NC_New i p)
  then show ?thesis using st wf ok raw_idx_bound(1) [OF wf] by (auto simp: step_effect_refl)
next
  case (NC_NewLoop i n)
  then show ?thesis using st wf ok by (auto simp: step_effect_refl split: if_splits)
next
  case (NC_NewCas i n v)
  have n: "n < 4 * length (nc_array s)" using ok NC_NewCas by auto
  show ?thesis
  proof (cases "nc_array s ! (n div 4) = v")
    case True
    then have s': "s' = s\<lparr>nc_array := (nc_array s)[n div 4 := nc_cell_clear (nc_array s ! (n div 4)) (n mod 4)]\<rparr>"
        "pc' = Ret_id i" "ev = [Nc_reset n]"
      using st unfolding NC_NewCas by (auto simp: Let_def get_nc_array_uint_idx_def get_nc_int_pos_def split: if_splits)
    then have "step_effect s s' ev"
      using wf nc_at_clear [OF n] unfolding step_effect_def s' by (auto simp: nc_wf_update)
    then show ?thesis using s'(2) by simp
  next
    case False
    then show ?thesis using st wf n unfolding NC_NewCas
      by (auto simp: step_effect_refl Let_def get_nc_array_uint_idx_def split: if_splits)
  qed
next
  case (OTN_Check i pool)
  then show ?thesis using st wf by (auto simp: step_effect_refl split: if_splits option.splits)
next
  case (OTN_Read n)
  then show ?thesis using st wf by (auto simp: step_effect_refl Let_def split: if_splits)
next
  case (OTN_Or n)
  then show ?thesis using st wf by (auto simp: Let_def nc_wf_update split: if_splits intro!: step_effect_other)
next
  case (OTN_New i p)
  then show ?thesis using st wf
    by (auto simp: otn_new_def Let_def nc_wf_update split: if_splits intro!: step_effect_other)
next
  case (NID_Inc p)
  then show ?thesis using st wf
    by (auto simp: nid_inc_def nid_get_def nc_wf_update split: if_splits option.splits intro!: step_effect_other)
qed (use st in auto)

lemma auth_step_inv:
  assumes "auth_step y y'" "sys_inv y"
  shows "sys_inv y'"
  using assms
proof cases
  case (call p pc)
  then have "pc_ok (shm y) pc" by (cases pc) auto
  then show ?thesis using assms(2) call by (auto simp: sys_inv_def)
next
  case (exec p s' pc' ev)
  have "step_effect (shm y) s' ev \<and> pc_ok s' pc'"
    using assms(2) by (intro pc_step_effect [OF _ _ exec(2)]) (auto simp: sys_inv_def)
  then have eff: "step_effect (shm y) s' ev" "pc_ok s' pc'" by auto
  have inv: "\<forall>p. pc_ok (shm y) (pcs y p)" "increasing (hist y)"
    "\<forall>n<4 * length (nc_array (shm y)). nc_at (shm y) n = last_nc (hist y) n"
    using assms(2) by (auto simp: sys_inv_def)
  have s': "nc_wf s'" "length (nc_array s') = length (nc_array (shm y))" "nid_pool_no s' = nid_pool_no (shm y)"
    using eff(1) by (auto simp: step_effect_def)
  have h: "(\<forall>n<4 * length (nc_array (shm y)). nc_at s' n = last_nc (ev @ hist y) n) \<and> increasing (ev @ hist y)"
    using eff(1) inv(2,3) unfolding step_effect_def by blast
  have "\<forall>q. pc_ok s' (((pcs y)(p := pc')) q)" using eff(2) inv(1) pc_ok_cong [OF s'(2,3)] by simp
  then show ?thesis using h s' unfolding sys_inv_def exec(1) by simp
qed

lemma reach_inv: "auth_step\<^sup>*\<^sup>* y y' \<Longrightarrow> sys_inv y \<Longrightarrow> sys_inv y'"
  by (induction rule: rtranclp_induct) (auto intro: auth_step_inv)

lemma last_nc_mono: "Nc_reset n \<notin> set mid \<Longrightarrow> increasing (mid @ l) \<Longrightarrow> last_nc l n \<le> last_nc (mid @ l) n"
proof (induction mid)
  case (Cons e mid)
  then show ?case by (cases e) (auto intro: less_imp_le le_less_trans)
qed simp

lemma increasing_tail: "increasing (xs @ ys) \<Longrightarrow> increasing ys"
  by (induction xs rule: increasing.induct) auto

lemma increasing_accept: "increasing (late @ Nc_accept n a # early) \<Longrightarrow> last_nc early n < a \<and> a < 256"
  using increasing_tail [of late "Nc_accept n a # early"] by simp

lemma last_nc_start: "Nc_reset n \<notin> set l \<Longrightarrow> increasing l \<Longrightarrow> 255 \<le> last_nc l n"
  using last_nc_mono [of n l "[]"] by simp

subsection \<open>Ids and cells\<close>

lemma unat_mod_pow: "k \<le> 32 \<Longrightarrow> unat ((i :: u32) + of_nat n) mod 2 ^ k = (unat i + n) mod 2 ^ k"
proof -
  assume "k \<le> 32"
  then have d: "(2 :: nat) ^ k dvd 2 ^ 32" by (rule le_imp_power_dvd)
  have "unat (i + of_nat n) = (unat i + n) mod 2 ^ 32" by (simp add: unat_word_ariths unsigned_of_nat take_bit_eq_mod mod_add_right_eq)
  then show ?thesis using d by (simp only: mod_mod_cancel)
qed

lemma odd_stride:
  assumes "(a + 257 * j) mod 2 ^ k = a mod (2 :: nat) ^ k" "0 < j"
  shows "2 ^ k \<le> j"
proof -
  have "2 ^ k dvd (a + 257 * j) - a" using assms(1) by (subst (asm) mod_eq_dvd_iff_nat) auto
  then have "2 ^ k dvd 257 * j" by simp
  moreover have "coprime ((2 :: nat) ^ k) 257" by simp
  ultimately have "2 ^ k dvd j" by (simp add: coprime_dvd_mult_right_iff)
  then show ?thesis using assms(2) by (rule dvd_imp_le)
qed

lemma unat_small: "n < 2 ^ 32 \<Longrightarrow> unat (of_nat n :: u32) = n"
  by (simp add: unsigned_of_nat take_bit_nat_eq_self)

lemma not_overflow:
  assumes "\<not> id_check_overflow (2 ^ k) (i + of_nat (257 * m)) i" "257 * m < 2 ^ 32" "257 * 2 ^ k < (2 :: nat) ^ 32"
  shows "m < 2 ^ k"
proof -
  have "of_nat NID_INC * of_nat (2 ^ k) = (of_nat (257 * 2 ^ k) :: u32)" by (simp add: NID_INC_def)
  then have "(of_nat (257 * m) :: u32) < of_nat (257 * 2 ^ k)"
    using assms(1) unfolding id_check_overflow_def by (simp add: not_le)
  moreover have "unat (of_nat (257 * m) :: u32) = 257 * m" "unat (of_nat (257 * 2 ^ k) :: u32) = 257 * 2 ^ k"
    using unat_small [OF assms(2)] unat_small [OF assms(3)] by simp_all
  ultimately show ?thesis by (simp add: word_less_nat_alt)
qed

lemma partition_k: "257 * 2 ^ k < (2 :: nat) ^ 32 \<Longrightarrow> k < 24"
proof (rule ccontr)
  assume a: "257 * 2 ^ k < (2 :: nat) ^ 32" "\<not> k < 24"
  then have "(2 :: nat) ^ 24 \<le> 2 ^ k" by (intro power_increasing) auto
  then show False using a(1) by simp
qed

subsection \<open>The small configuration\<close>

lemma bit_scan_1: "bit_scan_reverse_br32 1 = 0"
  by (rule br32.reverse_msb) (simp add: is_msb_def bit_1_iff)

lemma nonce_start1: "init_nonce_id True (\<lambda>_. 0) nonce_conf = (0, nonce_conf\<lparr>nid_crt := [0]\<rparr>)"
  by (simp add: init_nonce_id_def nonce_conf_def Let_def MAX_NID_POOL_SIZE_def bit_scan_1)

lemma nonce_start2:
  "init_nonce_count 1000 True (nonce_conf\<lparr>nid_crt := [0]\<rparr>) = (INIT_OK, nonce_conf\<lparr>nid_crt := [0],
     nc_array_size := 64, nc_partition_size := 64, nc_partition_k := 6, nc_partition_mask := 63, nc_array := replicate 16 (- 1)\<rparr>)"
  by (simp add: init_nonce_count_def nonce_conf_def Let_def NID_INC_def ROUND2TYPE_def)

lemma nonce_start3:
  "init_ot_nonce 1000 True (snd (init_nonce_count 1000 True (nonce_conf\<lparr>nid_crt := [0]\<rparr>))) = (INIT_OK, nonce_start)"
  unfolding nonce_start_def nonce_start1 snd_conv nonce_start2
  by (simp add: init_ot_nonce_def nonce_conf_def Let_def NID_INC_def ROUND2TYPE_def)

lemma nonce_start_eq:
  "nonce_start = nonce_conf\<lparr>nid_crt := [0],
     nc_array_size := 64, nc_partition_size := 64, nc_partition_k := 6, nc_partition_mask := 63, nc_array := replicate 16 (- 1),
     otn_in_flight_no := 64, otn_partition_size := 64, otn_partition_k := 6, otn_partition_mask := 63, otn_array := replicate 2 (- 1)\<rparr>"
  unfolding nonce_start_def nonce_start1 snd_conv nonce_start2
  by (simp add: init_ot_nonce_def nonce_conf_def Let_def NID_INC_def ROUND2TYPE_def)

lemma sched_reach: "sched l y = Some y' \<Longrightarrow> auth_step\<^sup>*\<^sup>* y y'"
proof (induction l y rule: sched.induct)
  case (2 p pc l y)
  then have "returned (pcs y p)" "entry_call (shm y) pc" "auth_step\<^sup>*\<^sup>* (y\<lparr>pcs := (pcs y)(p := pc)\<rparr>) y'"
    by (auto split: if_splits)
  then show ?case using auth_step.call by (metis converse_rtranclp_into_rtranclp)
next
  case (3 p l y)
  obtain s' pc' ev where st: "pc_step (shm y) (pcs y p) = Some (s', pc', ev)"
    using 3(2) by (auto split: option.splits)
  then show ?case using 3 auth_step.exec [OF st]
    by (auto intro: converse_rtranclp_into_rtranclp)
qed simp

lemma sched_obs: "map_option f (sched l y) = Some v \<Longrightarrow> \<exists>y'. auth_step\<^sup>*\<^sup>* y y' \<and> f y' = v"
  using sched_reach [of l y] unfolding map_option_eq_Some by blast

lemmas nonce_eval = start_sys_def nonce_conf_def nid_inc_def nid_get_def NID_INC_def id_check_overflow_def
  get_nc_array_raw_idx_def get_nc_array_uint_idx_def get_nc_int_pos_def nc_cell_get_def nc_cell_clear_def nc_cell_set_def
  get_otn_array_bit_idx_def get_otn_array_cell_idx_def get_otn_cell_bit_def otn_new_def nc_new_def Let_def

lemma sched_nc:
  "map_option hist (sched [(0, Some (NID_Inc 0)), (0, None), (0, Some (NC_New 257 0)), (0, None), (0, None), (0, None),
      (1, Some (NC_Check 257 0 1)), (1, None), (2, Some (NC_Check 257 0 2)), (2, None), (1, None), (2, None), (1, None),
      (2, None), (2, None), (2, None)] (start_sys (snd (init_nonce_count 1000 True (nonce_conf\<lparr>nid_crt := [0]\<rparr>))))) =
   Some [Nc_accept 1 2, Nc_accept 1 1, Nc_reset 1]"
  unfolding nonce_start2 by (simp add: nonce_eval) (simp add: word_le_nat_alt)

text \<open>Two processes that check the same one-time nonce at the same time.\<close>

lemma sched_otn:
  "map_option (\<lambda>y. (hist y, pcs y 1, pcs y 2)) (sched [(0, Some (NID_Inc 0)), (0, None), (0, Some (OTN_New 257 0)), (0, None),
      (1, Some (OTN_Check 257 0)), (2, Some (OTN_Check 257 0)), (1, None), (2, None), (1, None), (2, None), (1, None), (2, None)]
      (start_sys nonce_start)) =
   Some ([Otn_accept 1, Otn_accept 1, Otn_reset 1], Ret_otn OTN_OK, Ret_otn OTN_OK)"
  unfolding nonce_start_eq by (simp add: nonce_eval)

lemma nonce_start_wf: "nc_wf nonce_start" "otn_wf nonce_start"
  by (simp_all add: nonce_start_eq nonce_conf_def nc_wf_def otn_wf_def nid_wf_def mask_eq_exp_minus_1)

subsection \<open>Taking a new id\<close>

lemma pool_bound: "nid_wf s \<Longrightarrow> nid_get_pool q s < nid_pool_no s \<and> nid_get_pool q s < 64"
proof -
  assume wf: "nid_wf s"
  have "nid_get_pool q s = unat (of_nat q :: u32) mod 2 ^ nid_pool_k s"
    using wf by (simp add: nid_get_pool_def nid_wf_def unat_and_mask)
  then have a: "nid_get_pool q s < 2 ^ nid_pool_k s" by simp
  also have "(2 :: nat) ^ nid_pool_k s \<le> 2 ^ 6" using wf by (intro power_increasing) (auto simp: nid_wf_def)
  finally show ?thesis using a wf by (simp add: nid_wf_def)
qed

lemma idx_cong [simp]:
  "get_nc_array_raw_idx i p (s\<lparr>nid_crt := c\<rparr>) = get_nc_array_raw_idx i p s"
  "get_nc_array_raw_idx i p (s\<lparr>nc_array := a\<rparr>) = get_nc_array_raw_idx i p s"
  "get_otn_array_bit_idx i p (s\<lparr>nid_crt := c\<rparr>) = get_otn_array_bit_idx i p s"
  "get_otn_array_bit_idx i p (s\<lparr>nc_array := a\<rparr>) = get_otn_array_bit_idx i p s"
  "get_otn_array_bit_idx i p (s\<lparr>otn_array := b\<rparr>) = get_otn_array_bit_idx i p s"
  by (simp_all add: get_nc_array_raw_idx_def get_otn_array_bit_idx_def)

lemma nid_get_cong [simp]:
  "nid_get p (s\<lparr>nc_array := a\<rparr>) = nid_get p s" "nid_get p (s\<lparr>otn_array := b\<rparr>) = nid_get p s"
  by (simp_all add: nid_get_def)

lemma pool_flag: "p < 64 \<Longrightarrow> (p :: nat) OR 128 = p + 128"
proof -
  assume "p < 64"
  then have "p = take_bit 6 p" by (simp add: take_bit_nat_eq_self)
  then have "bit p n \<Longrightarrow> n < 6" for n by (metis bit_take_bit_iff)
  then have "\<not> bit p 7" by fastforce
  moreover have "bit (128 :: nat) n \<longleftrightarrow> n = 7" for n
    using bit_exp_iff [of 7 n, where ?'a = nat] by simp
  ultimately have "p AND 128 = 0" by (intro bit_eqI) (auto simp: bit_and_iff)
  then show ?thesis by (simp add: disjunctive_add_eq_or)
qed

lemma no_overflow_self: "257 * 2 ^ k < (2 :: nat) ^ 32 \<Longrightarrow> \<not> id_check_overflow (2 ^ k) i i"
proof -
  assume a: "257 * 2 ^ k < (2 :: nat) ^ 32"
  have "of_nat NID_INC * of_nat (2 ^ k) = (of_nat (257 * 2 ^ k) :: u32)" by (simp add: NID_INC_def)
  moreover have "unat (of_nat (257 * 2 ^ k) :: u32) = 257 * 2 ^ k" by (rule unat_small [OF a])
  ultimately have "unat (of_nat NID_INC * of_nat (2 ^ k) :: u32) > 0" by simp
  then show ?thesis by (simp add: id_check_overflow_def word_le_nat_alt)
qed

lemma otn_idx:
  assumes "otn_wf s" "q < 256"
  shows "get_otn_array_bit_idx i q s = unat i mod 2 ^ otn_partition_k s + q * 2 ^ otn_partition_k s"
    "q < nid_pool_no s \<Longrightarrow> get_otn_array_bit_idx i q s div 32 < length (otn_array s)"
    "nid_pool_no s \<le> q \<Longrightarrow> length (otn_array s) \<le> get_otn_array_bit_idx i q s div 32"
proof -
  let ?k = "otn_partition_k s"
  have k: "?k < 24" using assms(1) partition_k by (auto simp: otn_wf_def)
  have m: "unat (i AND otn_partition_mask s) = unat i mod 2 ^ ?k" using assms(1) by (simp add: otn_wf_def unat_and_mask)
  have lt: "unat i mod 2 ^ ?k + q * 2 ^ ?k < (q + 1) * 2 ^ ?k" by simp
  also have "\<dots> \<le> 256 * 2 ^ ?k" using assms(2) by (intro mult_le_mono1) simp
  also have "(256 :: nat) * 2 ^ ?k \<le> 256 * 2 ^ 23" using k by (intro mult_le_mono2 power_increasing) auto
  also have "(256 :: nat) * 2 ^ 23 < 2 ^ 32" by simp
  finally show e: "get_otn_array_bit_idx i q s = unat i mod 2 ^ ?k + q * 2 ^ ?k"
    unfolding get_otn_array_bit_idx_def m by simp
  have len: "nid_pool_no s * 2 ^ ?k = 32 * length (otn_array s)" using assms(1) by (simp add: otn_wf_def)
  show "get_otn_array_bit_idx i q s div 32 < length (otn_array s)" if "q < nid_pool_no s"
  proof -
    have "(q + 1) * 2 ^ ?k \<le> nid_pool_no s * 2 ^ ?k" using that by (intro mult_le_mono1) simp
    then have "get_otn_array_bit_idx i q s < length (otn_array s) * 32" using lt len unfolding e by linarith
    then show ?thesis by (rule less_mult_imp_div_less)
  qed
  show "length (otn_array s) \<le> get_otn_array_bit_idx i q s div 32" if "nid_pool_no s \<le> q"
  proof -
    have "nid_pool_no s * 2 ^ ?k \<le> q * 2 ^ ?k" using that by (intro mult_le_mono1)
    then have "length (otn_array s) * 32 \<le> get_otn_array_bit_idx i q s" using len unfolding e by linarith
    then show ?thesis by (metis div_le_mono div_mult_self_is_m zero_less_numeral)
  qed
qed

lemma nid_inc_ok:
  assumes "nid_wf s" "p < nid_pool_no s"
  shows "\<exists>i s'. nid_inc p s = Some (i, s') \<and> s' = s\<lparr>nid_crt := nid_crt s'\<rparr> \<and> length (nid_crt s') = length (nid_crt s) \<and>
    nid_get p s' = Some i"
  using assms by (auto simp: nid_inc_def nid_get_def nid_wf_def)

lemma nc_new_check:
  assumes wf: "nc_wf s" and p: "p < nid_pool_no s" and g: "nid_get p s = Some i"
  shows "\<exists>s' s''. nc_new i p s = Some (i, s') \<and> nc_check_val i p 1 s' = Some (NC_OK, s'')"
proof -
  define n where "n = get_nc_array_raw_idx i p s"
  have n: "n < 4 * length (nc_array s)" using raw_idx_bound(1) [OF wf p] by (simp add: n_def)
  then have c: "n div 4 < length (nc_array s)" by (simp add: less_mult_imp_div_less mult.commute)
  define s' where "s' = s\<lparr>nc_array := (nc_array s)[n div 4 := nc_cell_clear (nc_array s ! (n div 4)) (n mod 4)]\<rparr>"
  have new: "nc_new i p s = Some (i, s')"
    using c by (simp add: nc_new_def Let_def n_def [symmetric] get_nc_array_uint_idx_def get_nc_int_pos_def s'_def)
  have k: "257 * 2 ^ nc_partition_k s < (2 :: nat) ^ 32" "nc_partition_size s = 2 ^ nc_partition_k s"
    using wf by (simp_all add: nc_wf_def)
  have "nid_get p s' = Some i" "nid_pool_no s' = nid_pool_no s" "nc_partition_size s' = 2 ^ nc_partition_k s"
    "get_nc_array_raw_idx i p s' = n" "length (nc_array s') = length (nc_array s)"
    using g k(2) by (simp_all add: s'_def n_def)
  moreover have "nc_at s' n = 0" using nc_at_clear [OF n] by (simp add: s'_def)
  ultimately have "\<exists>s''. nc_check_val i p 1 s' = Some (NC_OK, s'')"
    using p c no_overflow_self [OF k(1), of i]
    by (simp add: nc_check_val_def Let_def nc_at_def get_nc_array_uint_idx_def get_nc_int_pos_def) (simp add: word_le_nat_alt)
  then show ?thesis using new by blast
qed

lemma otn_new_check:
  assumes wf: "otn_wf s" and p: "p < nid_pool_no s" "p < 64" and g: "nid_get p s = Some i"
  shows "\<exists>s' s''. otn_new i p s = Some (i, s') \<and> otn_check_id i p s' = Some (OTN_OK, s'') \<and>
    otn_check_id i p s'' = Some (OTN_REPLAY, s'')"
proof -
  define n where "n = get_otn_array_bit_idx i p s"
  have c: "n div 32 < length (otn_array s)" using otn_idx(2) [OF wf _ p(1)] p(2) by (simp add: n_def)
  define b where "b = (push_bit (n mod 32) 1 :: u32)"
  have b: "(v AND NOT b) AND b = 0" "((v AND NOT b) OR b) AND b \<noteq> 0" for v
  proof -
    show "(v AND NOT b) AND b = 0" by (intro bit_eqI) (auto simp: bit_simps)
    have "bit (((v AND NOT b) OR b) AND b) (n mod 32)" by (simp add: b_def bit_simps)
    then show "((v AND NOT b) OR b) AND b \<noteq> 0" by auto
  qed
  define s' where "s' = s\<lparr>otn_array := (otn_array s)[n div 32 := otn_array s ! (n div 32) AND NOT b]\<rparr>"
  define s'' where "s'' = s'\<lparr>otn_array := (otn_array s')[n div 32 := otn_array s' ! (n div 32) OR b]\<rparr>"
  have new: "otn_new i p s = Some (i, s')"
    using c by (simp add: otn_new_def Let_def n_def [symmetric] get_otn_array_cell_idx_def get_otn_cell_bit_def s'_def b_def)
  have k: "257 * 2 ^ otn_partition_k s < (2 :: nat) ^ 32" "otn_partition_size s = 2 ^ otn_partition_k s"
    using wf by (simp_all add: otn_wf_def)
  note nov = no_overflow_self [OF k(1), of i]
  have f: "nid_get p t = Some i" "nid_pool_no t = nid_pool_no s" "otn_partition_size t = 2 ^ otn_partition_k s"
    "get_otn_array_bit_idx i p t = n" "length (otn_array t) = length (otn_array s)" if "t = s' \<or> t = s''" for t
    using that g k(2) by (auto simp: s''_def s'_def n_def)
  have eval: "otn_check_id i p t = (if otn_array t ! (n div 32) AND b \<noteq> 0 then Some (OTN_REPLAY, t)
      else Some (OTN_OK, t\<lparr>otn_array := (otn_array t)[n div 32 := otn_array t ! (n div 32) OR b]\<rparr>))"
    if "t = s' \<or> t = s''" for t
    unfolding otn_check_id_def Let_def f [OF that] get_otn_array_cell_idx_def get_otn_cell_bit_def b_def [symmetric]
    using p c nov by simp
  have a: "otn_array s' ! (n div 32) = otn_array s ! (n div 32) AND NOT b"
    "otn_array s'' ! (n div 32) = otn_array s ! (n div 32) AND NOT b OR b"
    using c by (simp_all add: s''_def s'_def)
  have ok: "otn_check_id i p s' = Some (OTN_OK, s'')" using eval [OF disjI1 [OF refl]] by (simp add: a(1) b(1) s''_def)
  moreover have "otn_check_id i p s'' = Some (OTN_REPLAY, s'')"
    using eval [OF disjI2 [OF refl]] b(2) unfolding a(2) by simp
  ultimately show ?thesis using new by blast
qed

section \<open>Properties\<close>

text \<open>C14: Whatever the interleaving of the processes, of the nonce counts accepted for one array
  position between two resets each is above the one before, so no count is accepted twice; and after
  a restart nothing is accepted at a position before it is reset for a new nonce.\<close>

theorem nc_no_replay:
  assumes "nid_crt s0 = []" "init_nonce_id m1 random s0 = (0, s1)" "init_nonce_count max_mem m2 s1 = (INIT_OK, s)"
    and "auth_step\<^sup>*\<^sup>* (start_sys s) y"
  shows "(\<forall>n a b late mid early. hist y = late @ Nc_accept n b # mid @ Nc_accept n a # early \<longrightarrow>
      Nc_reset n \<notin> set mid \<longrightarrow> a < b) \<and>
    (\<forall>n a late early. hist y = late @ Nc_accept n a # early \<longrightarrow> Nc_reset n \<in> set early)"
proof -
  have "nc_wf s \<and> (\<forall>n<4 * length (nc_array s). nc_at s n = 255)"
    using init_nonce_count_wf [OF init_nonce_id_wf [OF assms(2,1)] assms(3)] by simp
  then have "sys_inv (start_sys s)" by (simp add: sys_inv_def start_sys_def)
  then have inc: "increasing (hist y)" using reach_inv [OF assms(4)] by (simp add: sys_inv_def)
  have "a < b" if h: "hist y = late @ Nc_accept n b # mid @ Nc_accept n a # early" "Nc_reset n \<notin> set mid" for n a b late mid early
  proof -
    have "last_nc (mid @ Nc_accept n a # early) n < b" using increasing_accept inc h(1) by metis
    moreover have "increasing (mid @ Nc_accept n a # early)"
      using increasing_tail [of "late @ [Nc_accept n b]"] inc h(1) by simp
    ultimately show ?thesis using last_nc_mono [OF h(2), of "Nc_accept n a # early"] by simp
  qed
  moreover have "Nc_reset n \<in> set early" if h: "hist y = late @ Nc_accept n a # early" for n a late early
  proof (rule ccontr)
    assume "Nc_reset n \<notin> set early"
    moreover have "increasing early" using increasing_tail [of "late @ [Nc_accept n a]"] inc h by simp
    ultimately have "255 \<le> last_nc early n" by (rule last_nc_start)
    moreover have "last_nc early n < a \<and> a < 256" using increasing_accept inc h by metis
    ultimately show False by (simp add: word_le_nat_alt word_less_nat_alt)
  qed
  ultimately show ?thesis by blast
qed

theorem nc_no_replay_witness:
  "\<exists>s y. init_nonce_id True (\<lambda>_. 0) nonce_conf = (0, nonce_conf\<lparr>nid_crt := [0]\<rparr>) \<and>
     init_nonce_count 1000 True (nonce_conf\<lparr>nid_crt := [0]\<rparr>) = (INIT_OK, s) \<and> auth_step\<^sup>*\<^sup>* (start_sys s) y \<and>
     hist y = [] @ Nc_accept 1 2 # [] @ Nc_accept 1 1 # [Nc_reset 1] \<and> (1 :: u32) < 2"
proof -
  obtain s where s: "init_nonce_count 1000 True (nonce_conf\<lparr>nid_crt := [0]\<rparr>) = (INIT_OK, s)"
    using nonce_start2 by blast
  obtain y where y: "auth_step\<^sup>*\<^sup>* (start_sys s) y" "hist y = [] @ Nc_accept 1 2 # [] @ Nc_accept 1 1 # [Nc_reset 1]"
    using sched_obs [OF sched_nc] unfolding s snd_conv by auto
  have e: "nid_crt nonce_conf = []" by (simp add: nonce_conf_def)
  have "Nc_reset 1 \<notin> set ([] :: nonce_event list)" by simp
  then have "(1 :: u32) < 2" using nc_no_replay [OF e nonce_start1 s y(1)] y(2) by blast
  then show ?thesis using nonce_start1 s y by blast
qed

text \<open>As long as the current id of a pool has not run a whole partition ahead of a nonce id, no id
  issued after it maps to its array position, so its count is not disturbed.\<close>

theorem nid_own_cell:
  assumes "nc_wf s" "p < nid_pool_no s" "257 * m < 2 ^ 32" "0 < j" "j \<le> m"
    and "\<not> id_check_overflow (nc_partition_size s) (i + of_nat (257 * m)) i"
  shows "get_nc_array_raw_idx (i + of_nat (NID_INC * j)) p s \<noteq> get_nc_array_raw_idx i p s"
proof
  let ?k = "nc_partition_k s"
  have k: "nc_partition_size s = 2 ^ ?k" "257 * 2 ^ ?k < (2 :: nat) ^ 32" using assms(1) by (auto simp: nc_wf_def)
  have m: "m < 2 ^ ?k" using not_overflow [OF _ assms(3) k(2)] assms(6) k(1) by simp
  assume "get_nc_array_raw_idx (i + of_nat (NID_INC * j)) p s = get_nc_array_raw_idx i p s"
  then have "unat (i + of_nat (257 * j)) mod 2 ^ ?k = unat i mod 2 ^ ?k"
    unfolding raw_idx_bound(2) [OF assms(1,2)] by (simp add: NID_INC_def)
  then have "(unat i + 257 * j) mod 2 ^ ?k = unat i mod 2 ^ ?k"
    using unat_mod_pow [of ?k i "257 * j"] partition_k [OF k(2)] by simp
  then have "2 ^ ?k \<le> j" using assms(4) by (rule odd_stride)
  then show False using m assms(5) by simp
qed

theorem nid_own_cell_witness:
  "nc_wf nonce_start \<and> \<not> id_check_overflow (nc_partition_size nonce_start) (0 + of_nat (257 * 63)) 0 \<and>
   get_nc_array_raw_idx (0 + of_nat (NID_INC * 63)) 0 nonce_start \<noteq> get_nc_array_raw_idx 0 0 nonce_start"
proof -
  have "\<not> id_check_overflow (nc_partition_size nonce_start) (0 + of_nat (257 * 63)) 0"
    by (simp add: nonce_start_eq nonce_conf_def id_check_overflow_def NID_INC_def word_le_nat_alt)
  moreover have "nid_pool_no nonce_start = 1" by (simp add: nonce_start_eq nonce_conf_def)
  ultimately show ?thesis using nid_own_cell [of nonce_start 0 63 63 0] nonce_start_wf(1) by simp
qed

text \<open>Each function computes what the atomic steps of a process give when no other process
  interferes.\<close>

theorem nonce_calls_refine:
  "pc_run 3 s (NC_Check i pool nc) = map_option (\<lambda>(r, s'). (s', Ret_nc r)) (nc_check_val i pool nc s) \<and>
   pc_run 3 s (NC_New i p) = map_option (\<lambda>(r, s'). (s', Ret_id r)) (nc_new i p s) \<and>
   pc_run 3 s (OTN_Check i pool) = map_option (\<lambda>(r, s'). (s', Ret_otn r)) (otn_check_id i pool s) \<and>
   pc_run 1 s (OTN_New i p) = map_option (\<lambda>(r, s'). (s', Ret_id r)) (otn_new i p s)"
proof -
  have r: "(3 :: nat) = Suc (Suc (Suc 0))" by simp
  have "pc_run 3 s (NC_Check i pool nc) = map_option (\<lambda>(r, s'). (s', Ret_nc r)) (nc_check_val i pool nc s)"
    unfolding r by (cases "nid_get pool s") (simp_all add: nc_check_val_def Let_def)
  moreover have "pc_run 3 s (NC_New i p) = map_option (\<lambda>(r, s'). (s', Ret_id r)) (nc_new i p s)"
    unfolding r by (simp add: nc_new_def Let_def)
  moreover have "pc_run 3 s (OTN_Check i pool) = map_option (\<lambda>(r, s'). (s', Ret_otn r)) (otn_check_id i pool s)"
    unfolding r by (cases "nid_get pool s") (simp_all add: otn_check_id_def Let_def)
  moreover have "pc_run 1 s (OTN_New i p) = map_option (\<lambda>(r, s'). (s', Ret_id r)) (otn_new i p s)"
    by (simp split: option.split)
  ultimately show ?thesis by blast
qed


lemma nc_check_again:
  assumes wf: "nc_wf s" and p: "p < nid_pool_no s" and ok: "nc_check_val i p nc s = Some (NC_OK, s')"
  shows "nc_check_val i p nc s' = Some (NC_REPLAY, s')"
proof -
  define n where "n = get_nc_array_raw_idx i p s"
  have n: "n < 4 * length (nc_array s)" using raw_idx_bound(1) [OF wf p] by (simp add: n_def)
  then have c: "n div 4 < length (nc_array s)" by (simp add: less_mult_imp_div_less mult.commute)
  have s': "s' = s\<lparr>nc_array := (nc_array s)[n div 4 := nc_cell_set (nc_array s ! (n div 4)) (n mod 4) nc]\<rparr>"
    and nc: "\<not> push_bit 8 1 \<le> nc" and o: "\<not> id_check_overflow (nc_partition_size s) (nid_crt s ! p) i" and g: "p < length (nid_crt s)"
    using ok p c by (auto simp: nc_check_val_def nid_get_def Let_def n_def [symmetric] get_nc_array_uint_idx_def get_nc_int_pos_def split: if_splits)
  have "nc < 256" using nc by (simp add: not_le)
  then have a: "nc_at s' n = nc" using nc_at_set [OF n] unfolding s' by simp
  have "get_nc_array_raw_idx i p s' = n" by (simp add: s' n_def)
  moreover have "nid_get p s' = Some (nid_crt s ! p)" "nid_pool_no s' = nid_pool_no s" "nc_partition_size s' = nc_partition_size s"
      "length (nc_array s') = length (nc_array s)"
    using g by (simp_all add: s' nid_get_def)
  ultimately show ?thesis
    using p c o nc a by (simp add: nc_check_val_def Let_def nc_at_def get_nc_array_uint_idx_def get_nc_int_pos_def)
qed

lemma challenge_id_ok:
  assumes "nc_wf s" "otn_wf s" and p_def: "p = nid_get_pool process_no s"
  shows "\<exists>i s' s''. challenge_id process_no True False s = Some ((i, p OR NF_VALID_NC_ID), s') \<and>
      nc_check_val i p 1 s' = Some (NC_OK, s'') \<and> nc_check_val i p 1 s'' = Some (NC_REPLAY, s'')"
    "\<exists>i s' s''. challenge_id process_no False True s = Some ((i, p OR NF_VALID_OT_ID), s') \<and>
      otn_check_id i p s' = Some (OTN_OK, s'') \<and> otn_check_id i p s'' = Some (OTN_REPLAY, s'')"
    "challenge_id process_no True True s = None"
proof -
  have wf: "nid_wf s" using assms(1) by (simp add: nc_wf_def)
  have p: "p < nid_pool_no s" "p < 64" using pool_bound [OF wf] by (auto simp: p_def)
  obtain i t where t: "nid_inc p s = Some (i, t)" "t = s\<lparr>nid_crt := nid_crt t\<rparr>" "length (nid_crt t) = length (nid_crt s)"
      "nid_get p t = Some i" using nid_inc_ok [OF wf p(1)] by blast
  have nwf: "nc_wf t" "nid_pool_no t = nid_pool_no s" using assms(1) t(2,3) nc_wf_update(3) by (metis, metis nonce_state.select_convs(2) nonce_state.surjective nonce_state.update_convs(1))
  have owf: "otn_wf t" using assms(2) t(3) by (subst t(2)) (auto simp: otn_wf_def nid_wf_def)
  obtain u u' where u: "nc_new i p t = Some (i, u)" "nc_check_val i p 1 u = Some (NC_OK, u')"
    using nc_new_check [OF nwf(1) _ t(4)] p(1) nwf(2) by auto
  have uwf: "nc_wf u" "nid_pool_no u = nid_pool_no s"
    using u(1) nwf by (auto simp: nc_new_def Let_def nc_wf_def nid_wf_def split: if_splits)
  have u2: "nc_check_val i p 1 u' = Some (NC_REPLAY, u')" using nc_check_again [OF uwf(1) _ u(2)] p(1) uwf(2) by simp
  obtain v v' where v: "otn_new i p t = Some (i, v)" "otn_check_id i p v = Some (OTN_OK, v')"
      "otn_check_id i p v' = Some (OTN_REPLAY, v')"
    using otn_new_check [OF owf _ p(2) t(4)] p(1) nwf(2) by auto
  show "\<exists>i s' s''. challenge_id process_no True False s = Some ((i, p OR NF_VALID_NC_ID), s') \<and>
      nc_check_val i p 1 s' = Some (NC_OK, s'') \<and> nc_check_val i p 1 s'' = Some (NC_REPLAY, s'')"
    using t(1) u u2 by (intro exI [of _ i] exI [of _ u] exI [of _ u']) (simp add: challenge_id_def Let_def p_def)
  show "\<exists>i s' s''. challenge_id process_no False True s = Some ((i, p OR NF_VALID_OT_ID), s') \<and>
      otn_check_id i p s' = Some (OTN_OK, s'') \<and> otn_check_id i p s'' = Some (OTN_REPLAY, s'')"
    using t(1) v by (intro exI [of _ i] exI [of _ v] exI [of _ v']) (simp add: challenge_id_def Let_def p_def)
  have uo: "otn_wf u" using u(1) owf by (auto simp: nc_new_def Let_def otn_wf_def nid_wf_def split: if_splits)
  have "nid_pool_no s \<le> 64" using wf power_increasing [of "nid_pool_k s" 6 "2 :: nat"] by (simp add: nid_wf_def)
  then have "otn_new i (p + 128) u = None"
    using otn_idx(3) [OF uo, of "p + 128" i] p(2) uwf(2) by (simp add: otn_new_def Let_def get_otn_array_cell_idx_def)
  then show "challenge_id process_no True True s = None"
    using t(1) u(1) pool_flag [OF p(2)] by (simp add: challenge_id_def Let_def p_def NF_VALID_NC_ID_def)
qed

text \<open>C15: With nonce counts or with one-time nonces alone, an id taken for a challenge names its pool,
  its first use is accepted and its second use is a replay.  With both
  enabled, the flag of the first is already in the pool number when the bit of the second is
  cleared, and the access lies outside of the array.\<close>

theorem challenge_id_spec:
  assumes "nc_wf s" "otn_wf s"
  shows "(\<exists>i s' s''. challenge_id process_no True False s = Some ((i, nid_get_pool process_no s OR NF_VALID_NC_ID), s') \<and>
      nc_check_val i (nid_get_pool process_no s) 1 s' = Some (NC_OK, s'') \<and>
      nc_check_val i (nid_get_pool process_no s) 1 s'' = Some (NC_REPLAY, s'')) \<and>
    (\<exists>i s' s''. challenge_id process_no False True s = Some ((i, nid_get_pool process_no s OR NF_VALID_OT_ID), s') \<and>
      otn_check_id i (nid_get_pool process_no s) s' = Some (OTN_OK, s'') \<and>
      otn_check_id i (nid_get_pool process_no s) s'' = Some (OTN_REPLAY, s'')) \<and>
    challenge_id process_no True True s = None"
  using challenge_id_ok [OF assms refl, of process_no] by blast

theorem challenge_id_spec_witness:
  "nc_wf nonce_start \<and> otn_wf nonce_start \<and> challenge_id 0 True True nonce_start = None"
  using challenge_id_spec [OF nonce_start_wf, of 0] nonce_start_wf by simp

end
