(* ===== verification/BaseX.thy ===== *)
theory BaseX
  imports SerPrelude
begin

text \<open>
  Conversion of bytes to text: \<^verbatim>\<open>src/sip_router/basex.h\<close> and \<^verbatim>\<open>basex.c\<close>, in the default
  configuration (large hexadecimal tables, the 8k table for base64) on a little endian machine.

  A result \<open>Inl n\<close> is the return value \<^verbatim>\<open>-n\<close> (a buffer of \<open>n\<close> bytes is needed, or a bad string for 0),
  a result \<open>Inr xs\<close> means that the bytes \<open>xs\<close> are written and their number returned.
\<close>

type_synonym u8 = "8 word"
type_synonym u16 = "16 word"

section \<open>Definitions\<close>

subsection \<open>Base 16\<close>

definition hexdig :: "u8 list" where
  "hexdig = map of_nat ([48..<58] @ [65..<71])"

definition bx_hexdig_hi :: "u8 list" where
  "bx_hexdig_hi = concat (map (replicate 16) hexdig)"

definition bx_hexdig_low :: "u8 list" where
  "bx_hexdig_low = concat (replicate 16 hexdig)"

definition bx_unhexdig256 :: "u8 list" where
  "bx_unhexdig256 = replicate 48 255 @ map of_nat [0..<10] @ replicate 7 255 @ map of_nat [10..<16] @
     replicate 26 255 @ map of_nat [10..<16] @ replicate 153 255"

definition HEX_HI :: "u8 \<Rightarrow> u8" where "HEX_HI h = bx_hexdig_hi ! unat h"
definition HEX_LOW :: "u8 \<Rightarrow> u8" where "HEX_LOW h = bx_hexdig_low ! unat h"
definition UNHEX :: "u8 \<Rightarrow> u8" where "UNHEX h = bx_unhexdig256 ! unat h"

definition base16_enc_len :: "nat \<Rightarrow> nat" where "base16_enc_len l = l * 2"
definition base16_max_dec_len :: "nat \<Rightarrow> nat" where "base16_max_dec_len l = l div 2"

fun base16_enc_loop :: "u8 list \<Rightarrow> u8 list" where
  "base16_enc_loop [] = []"
| "base16_enc_loop (x # src) = HEX_HI x # HEX_LOW x # base16_enc_loop src"

definition base16_enc :: "u8 list \<Rightarrow> nat \<Rightarrow> nat + u8 list" where
  "base16_enc src dlen =
     (let osize = 2 * length src in if dlen < osize then Inl osize else Inr (base16_enc_loop src))"

text \<open>An odd last character is ignored.\<close>

fun base16_dec_loop :: "u8 list \<Rightarrow> u8 list" where
  "base16_dec_loop (a # b # src) = (push_bit 4 (UNHEX a) OR UNHEX b) # base16_dec_loop src"
| "base16_dec_loop _ = []"

definition base16_dec :: "u8 list \<Rightarrow> nat \<Rightarrow> nat + u8 list" where
  "base16_dec src dlen =
     (let osize = length src div 2 in if dlen < osize then Inl osize else Inr (base16_dec_loop src))"

text \<open>The variant that reads whole integers (\<^verbatim>\<open>BASE16_READ_WHOLE_INTS\<close>), for a source at an address that
  is \<open>a\<close> modulo 4. The macros take the low byte of their argument.\<close>

definition le16 :: "u8 \<Rightarrow> u8 \<Rightarrow> u16" where "le16 x y = ucast x OR push_bit 8 (ucast y)"
definition le32 :: "u8 \<Rightarrow> u8 \<Rightarrow> u8 \<Rightarrow> u8 \<Rightarrow> u32" where
  "le32 x y z w = ucast x OR push_bit 8 (ucast y) OR push_bit 16 (ucast z) OR push_bit 24 (ucast w)"

definition hex_byte :: "u8 \<Rightarrow> u8 list" where "hex_byte x = [HEX_HI x, HEX_LOW x]"
definition hex_short :: "u16 \<Rightarrow> u8 list" where
  "hex_short us = [HEX_HI (ucast us), HEX_LOW (ucast us), HEX_HI (ucast (drop_bit 8 us)), HEX_LOW (ucast (drop_bit 8 us))]"
definition hex_int :: "u32 \<Rightarrow> u8 list" where
  "hex_int p =
     [HEX_HI (ucast p), HEX_LOW (ucast p), HEX_HI (ucast (drop_bit 8 p)), HEX_LOW (ucast (drop_bit 8 p)),
      HEX_HI (ucast (drop_bit 16 p)), HEX_LOW (ucast (drop_bit 16 p)), HEX_HI (ucast (drop_bit 24 p)), HEX_LOW (ucast (drop_bit 24 p))]"

fun base16_tail_aligned :: "u8 list \<Rightarrow> u8 list" where
  "base16_tail_aligned [x, y, z] = hex_short (le16 x y) @ hex_byte z"
| "base16_tail_aligned [x, y] = hex_short (le16 x y)"
| "base16_tail_aligned [x] = hex_byte x"
| "base16_tail_aligned _ = []"

fun base16_tail_odd :: "u8 list \<Rightarrow> u8 list" where
  "base16_tail_odd [x, y, z] = hex_byte x @ hex_short (le16 y z)"
| "base16_tail_odd [x, y] = hex_short (le16 x y)"
| "base16_tail_odd [x] = hex_byte x"
| "base16_tail_odd _ = []"

fun base16_ints_loop :: "u8 list \<Rightarrow> u8 list" where
  "base16_ints_loop (x # y # z # w # src) = hex_int (le32 x y z w) @ base16_ints_loop src"
| "base16_ints_loop src = base16_tail_aligned src"

definition base16_enc_ints :: "nat \<Rightarrow> u8 list \<Rightarrow> nat \<Rightarrow> nat + u8 list" where
  "base16_enc_ints a src dlen =
     (let osize = 2 * length src; k = (4 - a mod 4) mod 4 in
      if dlen < osize then Inl osize
      else Inr (if k < length src then
                  (if k = 3 then hex_byte (src ! 0) @ hex_short (le16 (src ! 1) (src ! 2))
                   else if k = 2 then hex_short (le16 (src ! 0) (src ! 1))
                   else if k = 1 then hex_byte (src ! 0) else []) @ base16_ints_loop (drop k src)
                else if odd a then base16_tail_odd src else base16_tail_aligned src))"

text \<open>The macros of the two other configurations: small tables, and no tables.\<close>

definition HEX_4BITS :: "u8 \<Rightarrow> u8" where "HEX_4BITS h = hexdig ! unat h"
definition HEX_HI_small :: "u8 \<Rightarrow> u8" where "HEX_HI_small h = HEX_4BITS (drop_bit 4 h)"
definition HEX_LOW_small :: "u8 \<Rightarrow> u8" where "HEX_LOW_small h = HEX_4BITS (h AND 0xf)"

definition HEX_4BITS_none :: "u8 \<Rightarrow> u8" where
  "HEX_4BITS_none hc =
     ucast (((if hc \<ge> 10 then 0 else - 1) AND (ucast hc + 48)) OR ((if hc < 10 then 0 else - 1) AND (ucast hc + 65)) :: u32)"
definition UNHEX_none :: "u8 \<Rightarrow> u8" where
  "UNHEX_none c =
     ucast (((if c > 57 then 0 else - 1) AND (ucast c - 48)) OR ((if c \<le> 57 then 0 else - 1) AND (ucast c - 65)) :: u32)"

subsection \<open>Base 64\<close>

definition base64_enc_char :: "u8 \<Rightarrow> u8" where
  "base64_enc_char v =
     (if v = 0x3f then 47 else if v = 0x3e then 43
      else if v \<le> 25 then v + 65 else if v \<le> 51 then v - 26 + 97 else if v \<le> 61 then v - 52 + 48 else 0xff)"

definition base64_dec_char :: "u8 \<Rightarrow> u8" where
  "base64_dec_char v =
     (if v = 47 then 0x3f else if v = 43 then 0x3e
      else if v \<in> {58, 59, 60, 61, 62, 63, 64, 91, 92, 93, 94, 95, 96} then 0xff
      else if v < 48 then 0xff else if v \<le> 57 then v - 48 + 0x34 else if v \<le> 90 then v - 65
      else if v \<le> 122 then v - 97 + 0x1a else 0xff)"

text \<open>The tables \<^verbatim>\<open>init_basex\<close> fills in.\<close>

definition bx_b64_12 :: "u16 list" where
  "bx_b64_12 = map (\<lambda>r. ucast (base64_enc_char (of_nat (drop_bit 6 r))) OR
     push_bit 8 (ucast (base64_enc_char (of_nat (r AND 0x3f))))) [0..<4096]"

definition bx_ub64 :: "u8 list" where
  "bx_ub64 = map (\<lambda>r. base64_dec_char (of_nat r)) [0..<256]"

definition BASE64_12 :: "u8 \<Rightarrow> u8 \<Rightarrow> u16" where
  "BASE64_12 a b = bx_b64_12 ! unat (push_bit 4 (ucast a) OR drop_bit 4 (ucast b) :: u32)"
definition BASE64_34 :: "u8 \<Rightarrow> u8 \<Rightarrow> u16" where
  "BASE64_34 b c = bx_b64_12 ! unat (push_bit 8 (ucast b AND 0xf) OR ucast c :: u32)"
definition FIRST_8B :: "u16 \<Rightarrow> u8" where "FIRST_8B s = ucast s"
definition LAST_8B :: "u16 \<Rightarrow> u8" where "LAST_8B s = ucast (drop_bit 8 s)"

definition UNBASE64 :: "u8 \<Rightarrow> u32" where "UNBASE64 v = ucast (bx_ub64 ! unat v)"

definition base64_enc_len :: "nat \<Rightarrow> nat" where "base64_enc_len l = (l + 2) div 3 * 4"
definition base64_max_dec_len :: "nat \<Rightarrow> nat" where "base64_max_dec_len l = l div 4 * 3"

text \<open>A 16 bit store on a little endian machine, and the two single stores.\<close>

definition put_short :: "u16 \<Rightarrow> u8 list" where "put_short s = [ucast s, ucast (drop_bit 8 s)]"
definition put_bytes :: "u16 \<Rightarrow> u8 list" where "put_bytes s = [FIRST_8B s, LAST_8B s]"

text \<open>The loop over groups of three bytes and the rest, with one of the two kinds of stores.\<close>

fun base64_enc_loop :: "(u16 \<Rightarrow> u8 list) \<Rightarrow> u8 list \<Rightarrow> u8 list" where
  "base64_enc_loop put (x # y # z # src) = put (BASE64_12 x y) @ put (BASE64_34 y z) @ base64_enc_loop put src"
| "base64_enc_loop put [x, y] = put (BASE64_12 x y) @ take 1 (put (BASE64_34 y 0)) @ [61]"
| "base64_enc_loop put [x] = put (BASE64_12 x 0) @ [61, 61]"
| "base64_enc_loop put [] = []"

definition base64_enc :: "bool \<Rightarrow> u8 list \<Rightarrow> nat \<Rightarrow> nat + u8 list" where
  "base64_enc odd_dst src dlen =
     (let osize = (length src + 2) div 3 * 4 in
      if dlen < osize then Inl osize
      else Inr (if odd_dst then base64_enc_loop put_bytes src else base64_enc_loop put_short src))"

text \<open>The other configurations: large tables, a small table, or no table, with one byte written at a
  time by four macros.\<close>

definition bx_b64 :: "u8 list" where
  "bx_b64 = map of_nat ([65..<91] @ [97..<123] @ [48..<58] @ [43, 47])"

definition bx_b64_first :: "u8 list" where
  "bx_b64_first = map (\<lambda>r. base64_enc_char (drop_bit 2 (of_nat r))) [0..<256]"
definition bx_b64_second :: "u8 list list" where
  "bx_b64_second = map (\<lambda>i. map (\<lambda>r. base64_enc_char (of_nat (push_bit 4 i OR drop_bit 4 r))) [0..<256]) [0..<4]"
definition bx_b64_third :: "u8 list list" where
  "bx_b64_third = map (\<lambda>i. map (\<lambda>r. base64_enc_char (of_nat ((push_bit 2 r AND 0x3f) OR i))) [0..<256]) [0..<4]"
definition bx_b64_fourth :: "u8 list" where
  "bx_b64_fourth = map (\<lambda>r. base64_enc_char (of_nat r AND 0x3f)) [0..<256]"

record b64_macros =
  BASE64_1 :: "u8 \<Rightarrow> u8"
  BASE64_2 :: "u8 \<Rightarrow> u8 \<Rightarrow> u8"
  BASE64_3 :: "u8 \<Rightarrow> u8 \<Rightarrow> u8"
  BASE64_4 :: "u8 \<Rightarrow> u8"

definition b64_large :: b64_macros where
  "b64_large = \<lparr>BASE64_1 = \<lambda>a. bx_b64_first ! unat a, BASE64_2 = \<lambda>a b. bx_b64_second ! unat (a AND 3) ! unat b,
     BASE64_3 = \<lambda>b c. bx_b64_third ! unat (drop_bit 6 c) ! unat b, BASE64_4 = \<lambda>c. bx_b64_fourth ! unat c\<rparr>"

definition b64_digits :: "(u8 \<Rightarrow> u8) \<Rightarrow> b64_macros" where
  "b64_digits dig = \<lparr>BASE64_1 = \<lambda>a. dig (drop_bit 2 a),
     BASE64_2 = \<lambda>a b. dig (ucast ((push_bit 4 (ucast a) AND 0x3f) OR drop_bit 4 (ucast b) :: u32)),
     BASE64_3 = \<lambda>b c. dig (ucast ((push_bit 2 (ucast b) AND 0x3f) OR drop_bit 6 (ucast c) :: u32)),
     BASE64_4 = \<lambda>c. dig (c AND 0x3f)\<rparr>"

definition b64_small :: b64_macros where "b64_small = b64_digits (\<lambda>v. bx_b64 ! unat v)"
definition b64_none :: b64_macros where "b64_none = b64_digits base64_enc_char"

fun base64_enc4_loop :: "b64_macros \<Rightarrow> u8 list \<Rightarrow> u8 list" where
  "base64_enc4_loop m (x # y # z # src) =
     [BASE64_1 m x, BASE64_2 m x y, BASE64_3 m y z, BASE64_4 m z] @ base64_enc4_loop m src"
| "base64_enc4_loop m [x, y] = [BASE64_1 m x, BASE64_2 m x y, BASE64_3 m y 0, 61]"
| "base64_enc4_loop m [x] = [BASE64_1 m x, BASE64_2 m x 0, 61, 61]"
| "base64_enc4_loop m [] = []"

definition base64_enc4 :: "b64_macros \<Rightarrow> u8 list \<Rightarrow> nat \<Rightarrow> nat + u8 list" where
  "base64_enc4 m src dlen =
     (let osize = (length src + 2) div 3 * 4 in if dlen < osize then Inl osize else Inr (base64_enc4_loop m src))"

definition dec_quad :: "u32 \<Rightarrow> u32 \<Rightarrow> u32 \<Rightarrow> u32 \<Rightarrow> u8 list" where
  "dec_quad a b c d =
     [ucast (push_bit 2 a OR drop_bit 4 b), ucast (push_bit 4 b OR drop_bit 2 c), ucast (push_bit 6 c OR d)]"

text \<open>All groups but the last one, then the last one by the number of bytes it gives.\<close>

fun dec_loop :: "(u8 \<Rightarrow> u32) \<Rightarrow> nat \<Rightarrow> u8 list \<Rightarrow> u8 list" where
  "dec_loop un osize [a, b, c, d] =
     (case osize mod 3 of
        0 \<Rightarrow> dec_quad (un a) (un b) (un c) (un d)
      | Suc 0 \<Rightarrow> take 1 (dec_quad (un a) (un b) 0 0)
      | _ \<Rightarrow> take 2 (dec_quad (un a) (un b) (un c) 0))"
| "dec_loop un osize (a # b # c # d # src) = dec_quad (un a) (un b) (un c) (un d) @ dec_loop un osize src"
| "dec_loop un osize _ = []"

definition b64_dec :: "(u8 \<Rightarrow> u32) \<Rightarrow> u8 \<Rightarrow> u8 list \<Rightarrow> nat \<Rightarrow> nat + u8 list" where
  "b64_dec un pad src dlen =
     (let slen = length src in
      if slen < 4 \<or> slen mod 4 \<noteq> 0 \<or> (src ! (slen - 2) = pad \<and> src ! (slen - 1) \<noteq> pad) then Inl 0
      else (let osize = slen div 4 * 3 - (if src ! (slen - 2) = pad then 1 else 0) - (if src ! (slen - 1) = pad then 1 else 0)
            in if dlen < osize then Inl osize else Inr (dec_loop un osize src)))"

definition base64_dec :: "u8 list \<Rightarrow> nat \<Rightarrow> nat + u8 list" where
  "base64_dec src dlen = b64_dec UNBASE64 61 src dlen"

subsection \<open>The quick alphabet\<close>

definition q_b64_base :: u8 where "q_b64_base = 48"
definition q_b64_pad :: u8 where "q_b64_pad = 122"
definition Q_BASE64 :: "u32 \<Rightarrow> u8" where "Q_BASE64 v = ucast (v + ucast q_b64_base)"
definition Q_UNBASE64 :: "u8 \<Rightarrow> u32" where "Q_UNBASE64 v = ucast (v - q_b64_base)"

fun q_base64_enc_loop :: "u8 list \<Rightarrow> u8 list" where
  "q_base64_enc_loop (x # y # z # src) =
     [Q_BASE64 (drop_bit 2 (ucast x)),
      Q_BASE64 (push_bit 4 (ucast x) AND 0x3f) OR drop_bit 4 y,
      Q_BASE64 (push_bit 2 (ucast y) AND 0x3f) OR drop_bit 6 z,
      Q_BASE64 (ucast z AND 0x3f)] @ q_base64_enc_loop src"
| "q_base64_enc_loop [x, y] =
     [Q_BASE64 (drop_bit 2 (ucast x)),
      Q_BASE64 (push_bit 4 (ucast x) AND 0x3f) OR drop_bit 4 y,
      Q_BASE64 (push_bit 2 (ucast y) AND 0x3f), q_b64_pad]"
| "q_base64_enc_loop [x] =
     [Q_BASE64 (drop_bit 2 (ucast x)), Q_BASE64 (push_bit 4 (ucast x) AND 0x3f), q_b64_pad, q_b64_pad]"
| "q_base64_enc_loop [] = []"

definition q_base64_enc :: "u8 list \<Rightarrow> nat \<Rightarrow> nat + u8 list" where
  "q_base64_enc src dlen =
     (let osize = (length src + 2) div 3 * 4 in if dlen < osize then Inl osize else Inr (q_base64_enc_loop src))"

definition q_base64_dec :: "u8 list \<Rightarrow> nat \<Rightarrow> nat + u8 list" where
  "q_base64_dec src dlen = b64_dec Q_UNBASE64 q_b64_pad src dlen"

section \<open>Lemmas\<close>

subsection \<open>Bytes and bits\<close>

lemma byte_eqI:
  fixes a b :: u8
  assumes "bit a 0 = bit b 0" "bit a 1 = bit b 1" "bit a 2 = bit b 2" "bit a 3 = bit b 3"
    "bit a 4 = bit b 4" "bit a 5 = bit b 5" "bit a 6 = bit b 6" "bit a 7 = bit b 7"
  shows "a = b"
proof (rule bit_word_eqI)
  fix n assume "n < LENGTH(8)"
  then have "n = 0 \<or> n = 1 \<or> n = 2 \<or> n = 3 \<or> n = 4 \<or> n = 5 \<or> n = 6 \<or> n = 7" by auto
  then show "bit a n = bit b n" using assms by blast
qed

lemma bit_byte_high [simp]: "8 \<le> n \<Longrightarrow> \<not> bit (x :: u8) n"
  by (auto dest: bit_imp_le_length)

text \<open>The four groups of six bits of three bytes.\<close>

definition sextets :: "u8 \<Rightarrow> u8 \<Rightarrow> u8 \<Rightarrow> u8 list" where
  "sextets x y z = [drop_bit 2 x, push_bit 4 (take_bit 2 x) OR drop_bit 4 y, push_bit 2 (take_bit 4 y) OR drop_bit 6 z, take_bit 6 z]"

lemma dec_quad_sextets:
  "dec_quad (ucast (sextets x y z ! 0)) (ucast (sextets x y z ! 1)) (ucast (sextets x y z ! 2)) (ucast (sextets x y z ! 3)) = [x, y, z]"
  unfolding dec_quad_def sextets_def by (auto intro!: byte_eqI simp: bit_simps)

lemma dec_quad_sextets2:
  "take 2 (dec_quad (ucast (sextets x y 0 ! 0)) (ucast (sextets x y 0 ! 1)) (ucast (sextets x y 0 ! 2)) 0) = [x, y]"
  unfolding dec_quad_def sextets_def by (auto intro!: byte_eqI simp: bit_simps)

lemma dec_quad_sextets1: "take 1 (dec_quad (ucast (sextets x 0 0 ! 0)) (ucast (sextets x 0 0 ! 1)) 0 0) = [x]"
  unfolding dec_quad_def sextets_def by (auto intro!: byte_eqI simp: bit_simps)

lemma unat_take_bit_less: "take_bit n v = v \<Longrightarrow> unat (v :: 'a :: len word) < 2 ^ n"
  by (metis unsigned_take_bit_eq take_bit_nat_less_exp)

lemma take_bit_6_less: "take_bit 6 v = v \<Longrightarrow> (v :: u8) < 64"
  using unat_take_bit_less [of 6 v] by (simp add: word_less_nat_alt)

lemma bits_less: "take_bit 2 x < (4 :: u8)" "take_bit 4 x < (16 :: u8)" "drop_bit 4 x < (16 :: u8)" "drop_bit 6 x < (4 :: u8)"
proof -
  have *: "take_bit 2 (take_bit 2 x) = take_bit 2 x" "take_bit 4 (take_bit 4 x) = take_bit 4 x"
    "take_bit 4 (drop_bit 4 x) = drop_bit 4 x" "take_bit 2 (drop_bit 6 x) = drop_bit 6 x"
    by (auto intro!: byte_eqI simp: bit_simps)
  show "take_bit 2 x < (4 :: u8)" "take_bit 4 x < (16 :: u8)" "drop_bit 4 x < (16 :: u8)" "drop_bit 6 x < (4 :: u8)"
    using *[THEN unat_take_bit_less] by (simp_all add: word_less_nat_alt)
qed

lemma sextets_less: "v \<in> set (sextets x y z) \<Longrightarrow> v < 64"
  by (rule take_bit_6_less) (auto simp: sextets_def bit_simps intro!: byte_eqI)

subsection \<open>Six bit alphabets\<close>

text \<open>What base 64 means for an alphabet and a padding character.\<close>

fun b64_spec :: "(u8 \<Rightarrow> u8) \<Rightarrow> u8 \<Rightarrow> u8 list \<Rightarrow> u8 list" where
  "b64_spec dig pad (x # y # z # src) = map dig (sextets x y z) @ b64_spec dig pad src"
| "b64_spec dig pad [x, y] = map dig (take 3 (sextets x y 0)) @ [pad]"
| "b64_spec dig pad [x] = map dig (take 2 (sextets x 0 0)) @ [pad, pad]"
| "b64_spec dig pad [] = []"

lemma groups3_induct [case_names 1 2 3 4]:
  assumes "\<And>x y z src. P src \<Longrightarrow> P (x # y # z # src)" "\<And>x y. P [x, y]" "\<And>x. P [x]" "P []"
  shows "P (src :: u8 list)"
  by (rule b64_spec.induct [of "\<lambda>_ _. P"]) (use assms in blast)+

lemma length_b64_spec: "length (b64_spec dig pad src) = (length src + 2) div 3 * 4"
proof (induction src rule: groups3_induct)
  case (1 x y z src)
  have "(length (x # y # z # src) + 2) div 3 = (length src + 2 + 3) div 3" by (rule arg_cong [of _ _ "\<lambda>n. n div 3"]) simp
  also have "\<dots> = Suc ((length src + 2) div 3)" by simp
  finally have "(length (x # y # z # src) + 2) div 3 = Suc ((length src + 2) div 3)" .
  then show ?case using 1 by (simp add: sextets_def)
qed (auto simp: sextets_def)

lemma dec_loop_Cons: "t \<noteq> [] \<Longrightarrow> dec_loop un osize (a # b # c # d # t) = dec_quad (un a) (un b) (un c) (un d) @ dec_loop un osize t"
  by (cases t) auto

lemma length_dec_loop: "length src = 4 * Suc k \<Longrightarrow> length (dec_loop un osize src) = 3 * k + (if osize mod 3 = 0 then 3 else osize mod 3)"
proof (induction k arbitrary: src)
  case 0
  then obtain a b c d where "src = [a, b, c, d]" by (auto simp: length_Suc_conv numeral_eq_Suc)
  moreover have "osize mod 3 = 0 \<or> osize mod 3 = 1 \<or> osize mod 3 = 2" by auto
  ultimately show ?case by (auto simp: dec_quad_def numeral_2_eq_2)
next
  case (Suc k)
  have "length src = Suc (Suc (Suc (Suc (4 * Suc k))))" using Suc.prems by simp
  then obtain a b c d t where s: "src = a # b # c # d # t" and t: "length t = 4 * Suc k"
    unfolding length_Suc_conv by blast
  then have "t \<noteq> []" by auto
  then show ?case unfolding s using Suc.IH [OF t] by (simp add: dec_loop_Cons dec_quad_def)
qed

lemma b64_dec_length: "b64_dec un pad src dlen = Inr b \<Longrightarrow> length b \<le> dlen"
proof -
  assume d: "b64_dec un pad src dlen = Inr b"
  define p :: nat where "p = (if src ! (length src - 2) = pad then 1 else 0) + (if src ! (length src - 1) = pad then 1 else 0)"
  have g: "4 \<le> length src" "length src mod 4 = 0" "length src div 4 * 3 - p \<le> dlen"
    and b: "b = dec_loop un (length src div 4 * 3 - p) src"
    using d unfolding p_def by (auto simp: b64_dec_def Let_def diff_diff_left split: if_splits)
  obtain k where k: "length src = 4 * Suc k"
  proof (cases "length src div 4")
    case (Suc k)
    then show ?thesis using that [of k] g(2) mult_div_mod_eq [of 4 "length src"] by simp
  qed (use g(1) in auto)
  have o: "length src div 4 * 3 = 3 * k + 3" unfolding k by simp
  have "p = 0 \<or> p = 1 \<or> p = 2" unfolding p_def by auto
  then consider "p = 0" | "p = 1" | "p = 2" by blast
  then have "3 * k + (if (3 * k + 3 - p) mod 3 = 0 then 3 else (3 * k + 3 - p) mod 3) = 3 * k + 3 - p"
  proof cases
    case 1
    then show ?thesis unfolding 1 by simp
  next
    case 2
    have "3 * k + 3 - 1 = 2 + 3 * k" by simp
    then show ?thesis unfolding 2 by (simp only: mod_mult_self2) simp
  next
    case 3
    have "3 * k + 3 - 2 = 1 + 3 * k" by simp
    then show ?thesis unfolding 3 by (simp only: mod_mult_self2) simp
  qed
  then show ?thesis using g(3) unfolding b length_dec_loop [OF k] o by linarith
qed

locale b64_alphabet =
  fixes dig :: "u8 \<Rightarrow> u8" and un :: "u8 \<Rightarrow> u32" and pad :: u8
  assumes un_dig: "v < 64 \<Longrightarrow> un (dig v) = ucast v"
    and dig_pad: "v < 64 \<Longrightarrow> dig v \<noteq> pad"
begin

lemma un_sextets: "un (dig (sextets x y z ! 0)) = ucast (sextets x y z ! 0)" "un (dig (sextets x y z ! 1)) = ucast (sextets x y z ! 1)"
  "un (dig (sextets x y z ! 2)) = ucast (sextets x y z ! 2)" "un (dig (sextets x y z ! 3)) = ucast (sextets x y z ! 3)"
  by (rule un_dig, rule sextets_less [of _ x y z], simp add: sextets_def)+

lemma sextets_pad: "dig (sextets x y z ! 2) \<noteq> pad" "dig (sextets x y z ! 3) \<noteq> pad"
  by (rule dig_pad, rule sextets_less [of _ x y z], simp add: sextets_def)+

lemma sextets_nth: "sextets x y z = [sextets x y z ! 0, sextets x y z ! 1, sextets x y z ! 2, sextets x y z ! 3]"
  by (simp add: sextets_def)

lemma spec_Cons3: "b64_spec dig pad (x # y # z # src) =
    dig (sextets x y z ! 0) # dig (sextets x y z ! 1) # dig (sextets x y z ! 2) # dig (sextets x y z ! 3) # b64_spec dig pad src"
  by (simp add: sextets_def)

lemma spec_last:
  "src \<noteq> [] \<Longrightarrow> \<exists>pre a b c d. b64_spec dig pad src = pre @ [a, b, c, d] \<and>
     (c = pad \<longleftrightarrow> length src mod 3 = 1) \<and> (d = pad \<longleftrightarrow> length src mod 3 \<noteq> 0)"
proof (induction src rule: groups3_induct)
  case (1 x y z src)
  show ?case
  proof (cases "src = []")
    case True
    then show ?thesis using sextets_pad [of x y z] by (intro exI [of _ "[]"]) (simp add: sextets_def)
  next
    case False
    then obtain pre a b c d where *: "b64_spec dig pad src = pre @ [a, b, c, d]"
      "(c = pad \<longleftrightarrow> length src mod 3 = 1)" "(d = pad \<longleftrightarrow> length src mod 3 \<noteq> 0)" using 1 by blast
    have "length (x # y # z # src) mod 3 = (length src + 3) mod 3" by (rule arg_cong [of _ _ "\<lambda>n. n mod 3"]) simp
    then have "length (x # y # z # src) mod 3 = length src mod 3" by simp
    then show ?thesis using * by (intro exI [of _ "map dig (sextets x y z) @ pre"]) auto
  qed
next
  case (2 x y)
  show ?case using sextets_pad(1) [of x y 0] by (intro exI [of _ "[]"]) (simp add: sextets_def)
next
  case (3 x)
  show ?case by (intro exI [of _ "[]"]) (simp add: sextets_def)
qed simp

lemmas un_sextets_simps = un_sextets un_sextets [unfolded One_nat_def] un_sextets [unfolded numeral_2_eq_2] dec_quad_sextets [unfolded One_nat_def]

lemma dec_loop_spec: "src \<noteq> [] \<Longrightarrow> osize mod 3 = length src mod 3 \<Longrightarrow> dec_loop un osize (b64_spec dig pad src) = src"
proof (induction src rule: groups3_induct)
  case (1 x y z src)
  have "length (x # y # z # src) mod 3 = (length src + 3) mod 3" by (rule arg_cong [of _ _ "\<lambda>n. n mod 3"]) simp
  then have m: "osize mod 3 = length src mod 3" using 1 by simp
  show ?case
  proof (cases "src = []")
    case True
    then show ?thesis using m unfolding spec_Cons3 by (simp add: un_sextets_simps)
  next
    case False
    then have "b64_spec dig pad src \<noteq> []" using spec_last by fastforce
    then show ?thesis using 1(1) [OF False m] unfolding spec_Cons3 by (simp add: un_sextets_simps dec_loop_Cons)
  qed
next
  case (2 x y)
  have "b64_spec dig pad [x, y] = [dig (sextets x y 0 ! 0), dig (sextets x y 0 ! 1), dig (sextets x y 0 ! 2), pad]"
    by (simp add: sextets_def)
  moreover have "osize mod 3 = Suc (Suc 0)" using 2 by simp
  ultimately show ?case using dec_quad_sextets2 [of x y] by (simp add: un_sextets_simps numeral_2_eq_2 del: b64_spec.simps)
next
  case (3 x)
  have "b64_spec dig pad [x] = [dig (sextets x 0 0 ! 0), dig (sextets x 0 0 ! 1), pad, pad]"
    by (simp add: sextets_def)
  then show ?case using 3 dec_quad_sextets1 [of x] by (simp add: un_sextets_simps del: b64_spec.simps)
qed simp

lemma osize_eq:
  assumes "n \<noteq> 0"
  shows "(n + 2) div 3 * 4 div 4 * 3 - (if n mod 3 = 1 then 1 else 0) - (if n mod 3 \<noteq> 0 then 1 else 0) = (n :: nat)"
  using assms by auto presburger+

lemma decode:
  assumes "src \<noteq> []"
  shows "b64_dec un pad (b64_spec dig pad src) dlen = (if dlen < length src then Inl (length src) else Inr src)"
proof -
  let ?e = "b64_spec dig pad src"
  obtain pre a b c d where e: "?e = pre @ [a, b, c, d]" and c: "c = pad \<longleftrightarrow> length src mod 3 = 1"
    and d: "d = pad \<longleftrightarrow> length src mod 3 \<noteq> 0" using spec_last [OF assms] by blast
  have l: "length ?e = (length src + 2) div 3 * 4" by (rule length_b64_spec)
  have le: "length ?e = length pre + 4" using e by simp
  have n2: "?e ! (length ?e - 2) = c" "?e ! (length ?e - 1) = d" using e by (simp_all add: nth_append)
  have m: "length ?e mod 4 = 0" using l by simp
  have o: "length ?e div 4 * 3 - (if c = pad then 1 else 0) - (if d = pad then 1 else 0) = length src"
    using osize_eq [of "length src"] assms c d l by simp
  show ?thesis unfolding b64_dec_def Let_def n2 o using le m c d dec_loop_spec [OF assms refl] by auto
qed

end

lemma all_below:
  assumes "k < 256"
  shows "(\<forall>v < (of_nat k :: u8). P v) \<longleftrightarrow> list_all P (map of_nat [0..<k])"
proof -
  have k: "unat (of_nat k :: u8) = k" using assms by (simp add: unsigned_of_nat take_bit_nat_eq_self)
  have "v < of_nat k \<longleftrightarrow> v \<in> of_nat ` {0..<k}" for v :: u8
  proof
    assume "v < of_nat k"
    then have "v = of_nat (unat v)" "unat v < k" using k by (simp_all add: word_less_nat_alt)
    then show "v \<in> of_nat ` {0..<k}" by (metis atLeastLessThan_iff imageI zero_le)
  qed (use assms k in \<open>auto simp: word_less_nat_alt unsigned_of_nat take_bit_nat_eq_self\<close>)
  then show ?thesis by (auto simp: list_all_iff)
qed

lemmas all4 = all_below [of 4, simplified of_nat_numeral, simplified]
lemmas all16 = all_below [of 16, simplified of_nat_numeral, simplified]
lemmas all64 = all_below [of 64, simplified of_nat_numeral, simplified]

lemma UNBASE64_eq: "UNBASE64 v = ucast (base64_dec_char v)"
proof -
  have "unat v < 256" using unsigned_less [of v, where ?'a = nat] by simp
  then show ?thesis by (simp add: UNBASE64_def bx_ub64_def)
qed

lemma dec_enc_char: "v < 64 \<Longrightarrow> base64_dec_char (base64_enc_char v) = v \<and> base64_enc_char v \<noteq> 61"
proof -
  have "\<forall>v < 64. base64_dec_char (base64_enc_char v) = v \<and> base64_enc_char v \<noteq> 61"
    unfolding all64 by code_simp
  then show "v < 64 \<Longrightarrow> ?thesis" by blast
qed

lemma q_dec_enc: "v < 64 \<Longrightarrow> Q_UNBASE64 (v + q_b64_base) = ucast v \<and> v + q_b64_base \<noteq> q_b64_pad"
proof -
  have "\<forall>v < 64. Q_UNBASE64 (v + q_b64_base) = ucast v \<and> v + q_b64_base \<noteq> q_b64_pad"
    unfolding all64 by code_simp
  then show "v < 64 \<Longrightarrow> ?thesis" by blast
qed

interpretation std: b64_alphabet base64_enc_char UNBASE64 61
  by unfold_locales (simp_all add: UNBASE64_eq dec_enc_char)

interpretation quick: b64_alphabet "\<lambda>v. v + q_b64_base" Q_UNBASE64 q_b64_pad
  by unfold_locales (simp_all add: q_dec_enc)

subsection \<open>The encoders implement the specification\<close>

lemma bx_b64_12_nth:
  assumes "w < (4096 :: u32)"
  shows "bx_b64_12 ! unat w = ucast (base64_enc_char (ucast (drop_bit 6 w))) OR push_bit 8 (ucast (base64_enc_char (ucast (w AND 0x3f))))"
proof -
  have l: "unat w < 4096" using assms by (simp add: word_less_nat_alt)
  have d: "of_nat (drop_bit 6 (unat w)) = (ucast (drop_bit 6 w) :: u8)"
    by (rule bit_word_eqI) (simp add: bit_of_nat_iff bit_simps bit_unsigned_iff)
  have a: "of_nat (unat w AND 0x3f) = (ucast (w AND 0x3f) :: u8)"
    by (rule byte_eqI) (auto simp: bit_of_nat_iff bit_simps bit_unsigned_iff)
  show ?thesis using l by (simp add: bx_b64_12_def d a)
qed

lemma put_entry: "put_bytes (ucast a OR push_bit 8 (ucast b)) = [a, b]" "put_short = put_bytes"
  by (auto simp: put_bytes_def put_short_def FIRST_8B_def LAST_8B_def fun_eq_iff bit_simps intro!: byte_eqI)

lemma put_BASE64_12: "put_bytes (BASE64_12 x y) = [base64_enc_char (sextets x y z ! 0), base64_enc_char (sextets x y z ! 1)]"
proof -
  let ?w = "push_bit 4 (ucast x) OR drop_bit 4 (ucast y) :: u32"
  have "take_bit 12 ?w = ?w" by (rule bit_word_eqI) (auto simp: bit_simps)
  then have "?w < 4096" using unat_take_bit_less [of 12 ?w] by (simp only: word_less_nat_alt) simp
  moreover have "ucast (drop_bit 6 ?w) = sextets x y z ! 0" "ucast (?w AND 0x3f) = sextets x y z ! 1"
    by (auto simp: sextets_def bit_simps intro!: byte_eqI)
  ultimately show ?thesis by (simp add: BASE64_12_def bx_b64_12_nth put_entry)
qed

lemma put_BASE64_34: "put_bytes (BASE64_34 y z) = [base64_enc_char (sextets x y z ! 2), base64_enc_char (sextets x y z ! 3)]"
proof -
  let ?w = "push_bit 8 (ucast y AND 0xf) OR ucast z :: u32"
  have m: "ucast y AND 0xf = (take_bit 4 (ucast y) :: u32)" by (simp add: take_bit_eq_mask mask_eq_exp_minus_1)
  have "take_bit 12 ?w = ?w" unfolding m by (rule bit_word_eqI) (auto simp: bit_simps)
  then have "?w < 4096" using unat_take_bit_less [of 12 ?w] by (simp only: word_less_nat_alt) simp
  moreover have "ucast (drop_bit 6 ?w) = sextets x y z ! 2" "ucast (?w AND 0x3f) = sextets x y z ! 3"
    by (auto simp: sextets_def bit_simps intro!: byte_eqI)
  ultimately show ?thesis by (simp add: BASE64_34_def bx_b64_12_nth put_entry)
qed

lemma base64_enc_loop_spec: "base64_enc_loop put_bytes src = b64_spec base64_enc_char 61 src"
proof (induction src rule: groups3_induct)
  case (1 x y z src)
  show ?case unfolding base64_enc_loop.simps 1 std.spec_Cons3 put_BASE64_12 [of x y z] put_BASE64_34 [of y z x] by simp
next
  case (2 x y)
  show ?case unfolding base64_enc_loop.simps put_BASE64_12 [of x y 0] put_BASE64_34 [of y 0 x] by (simp add: sextets_def)
next
  case (3 x)
  show ?case unfolding base64_enc_loop.simps put_BASE64_12 [of x 0 0] by (simp add: sextets_def)
qed simp

definition b64_macros_ok :: "b64_macros \<Rightarrow> bool" where
  "b64_macros_ok m \<longleftrightarrow> (\<forall>x y z. BASE64_1 m x = base64_enc_char (sextets x y z ! 0) \<and>
     BASE64_2 m x y = base64_enc_char (sextets x y z ! 1) \<and> BASE64_3 m y z = base64_enc_char (sextets x y z ! 2) \<and>
     BASE64_4 m z = base64_enc_char (sextets x y z ! 3))"

lemma base64_enc4_loop_spec:
  assumes "b64_macros_ok m"
  shows "base64_enc4_loop m src = b64_spec base64_enc_char 61 src"
proof (induction src rule: groups3_induct)
  case (1 x y z src)
  show ?case using assms unfolding base64_enc4_loop.simps 1 std.spec_Cons3 b64_macros_ok_def by simp
qed (use assms in \<open>auto simp: b64_macros_ok_def sextets_def\<close>)

lemma enc_char_table: "v < 64 \<Longrightarrow> bx_b64 ! unat v = base64_enc_char v"
proof -
  have "\<forall>v < 64. bx_b64 ! unat v = base64_enc_char v" unfolding all64 by code_simp
  then show "v < 64 \<Longrightarrow> ?thesis" by blast
qed

lemma digit_sextets:
  "ucast ((push_bit 4 (ucast x) AND 0x3f) OR drop_bit 4 (ucast y) :: u32) = sextets x y z ! 1"
  "ucast ((push_bit 2 (ucast y) AND 0x3f) OR drop_bit 6 (ucast z) :: u32) = sextets x y z ! 2"
  "z AND 0x3f = sextets x y z ! 3"
  by (auto simp: sextets_def bit_simps intro!: byte_eqI)

lemma b64_digits_ok:
  assumes "\<And>v. v < 64 \<Longrightarrow> dig v = base64_enc_char v"
  shows "b64_macros_ok (b64_digits dig)"
proof -
  have "dig (sextets x y z ! i) = base64_enc_char (sextets x y z ! i)" if "i < 4" for x y z i
  proof (rule assms, rule sextets_less)
    show "sextets x y z ! i \<in> set (sextets x y z)" using that by (intro nth_mem) (simp add: sextets_def)
  qed
  then have d: "dig (sextets x y z ! 0) = base64_enc_char (sextets x y z ! 0)" "dig (sextets x y z ! 1) = base64_enc_char (sextets x y z ! 1)"
    "dig (sextets x y z ! 2) = base64_enc_char (sextets x y z ! 2)" "dig (sextets x y z ! 3) = base64_enc_char (sextets x y z ! 3)" for x y z
    by simp_all
  have z: "drop_bit 2 x = sextets x y z ! 0" for x y z by (simp add: sextets_def)
  show ?thesis unfolding b64_macros_ok_def
  proof (intro allI)
    fix x y z
    show "BASE64_1 (b64_digits dig) x = base64_enc_char (sextets x y z ! 0) \<and>
     BASE64_2 (b64_digits dig) x y = base64_enc_char (sextets x y z ! 1) \<and>
     BASE64_3 (b64_digits dig) y z = base64_enc_char (sextets x y z ! 2) \<and>
     BASE64_4 (b64_digits dig) z = base64_enc_char (sextets x y z ! 3)"
      unfolding b64_digits_def b64_macros.simps z [of x y z] digit_sextets(1) [of x y z] digit_sextets(2) [of y z x] digit_sextets(3) [of z x y] d
      by simp
  qed
qed

lemma b64_small_ok: "b64_macros_ok b64_small" and b64_none_ok: "b64_macros_ok b64_none"
  unfolding b64_small_def b64_none_def by (rule b64_digits_ok, simp add: enc_char_table)+

lemma unat_byte: "unat (b :: u8) < 256"
  using unsigned_less [of b, where ?'a = nat] by simp

lemma and3: "(a :: u8) AND 3 = take_bit 2 a"
  by (simp add: take_bit_eq_mask mask_eq_exp_minus_1)

lemma large_indices:
  "of_nat (push_bit 4 (unat (take_bit 2 a)) OR drop_bit 4 (unat b)) = sextets a b z ! 1"
  "of_nat ((push_bit 2 (unat b) AND 0x3f) OR unat (drop_bit 6 c)) = sextets x b c ! 2"
  by (auto simp: sextets_def bit_simps bit_of_nat_iff bit_unsigned_iff intro!: byte_eqI)

lemma b64_large_ok: "b64_macros_ok b64_large"
proof -
  have b: "unat (take_bit 2 a) < 4" "unat (drop_bit 6 a) < 4" for a :: u8
    using bits_less(1,4) [of a] by (simp_all add: word_less_nat_alt)
  show ?thesis
    unfolding b64_macros_ok_def b64_large_def b64_macros.simps and3
  proof (intro allI conjI)
    fix x y z
    show "bx_b64_first ! unat x = base64_enc_char (sextets x y z ! 0)"
      by (simp add: bx_b64_first_def unat_byte sextets_def)
    show "bx_b64_second ! unat (take_bit 2 x) ! unat y = base64_enc_char (sextets x y z ! 1)"
      using b(1) [of x] unat_byte [of y] large_indices(1) [of x y z] unfolding bx_b64_second_def by simp
    show "bx_b64_third ! unat (drop_bit 6 z) ! unat y = base64_enc_char (sextets x y z ! 2)"
      using b(2) [of z] unat_byte [of y] large_indices(2) [of y z x] unfolding bx_b64_third_def by simp
    show "bx_b64_fourth ! unat z = base64_enc_char (sextets x y z ! 3)"
      using digit_sextets(3) [of z x y] by (simp add: bx_b64_fourth_def unat_byte)
  qed
qed

lemma quick_digits:
  "Q_BASE64 (drop_bit 2 (ucast x)) = sextets x y z ! 0 + q_b64_base"
  "Q_BASE64 (push_bit 4 (ucast x) AND 0x3f) OR drop_bit 4 y = sextets x y z ! 1 + q_b64_base"
  "Q_BASE64 (push_bit 2 (ucast y) AND 0x3f) OR drop_bit 6 z = sextets x y z ! 2 + q_b64_base"
  "Q_BASE64 (ucast z AND 0x3f) = sextets x y z ! 3 + q_b64_base"
proof -
  have "w mod 4294967296 mod 256 = w mod 256" for w :: int by (rule mod_mod_cancel) simp
  then have "(w mod 4294967296 + 48) mod 256 = (w + 48) mod 256" for w :: int by (metis mod_add_left_eq)
  then have "ucast (w + 48 :: u32) = (ucast w + 48 :: u8)" for w
    by transfer (simp add: take_bit_eq_mod mod_simps mod_mod_cancel)
  then have q: "Q_BASE64 w = ucast w + 48" for w by (simp add: Q_BASE64_def q_b64_base_def)
  have "\<forall>a < 4. \<forall>b < 16. (push_bit 4 a + 48) OR b = (push_bit 4 a OR b) + (48 :: u8)" unfolding all4 all16 by code_simp
  then have o1: "(push_bit 4 (take_bit 2 x) + 48) OR drop_bit 4 y = (push_bit 4 (take_bit 2 x) OR drop_bit 4 y) + (48 :: u8)"
    using bits_less(1) [of x] bits_less(3) [of y] by blast
  have "\<forall>a < 16. \<forall>b < 4. (push_bit 2 a + 48) OR b = (push_bit 2 a OR b) + (48 :: u8)" unfolding all4 all16 by code_simp
  then have o2: "(push_bit 2 (take_bit 4 y) + 48) OR drop_bit 6 z = (push_bit 2 (take_bit 4 y) OR drop_bit 6 z) + (48 :: u8)"
    using bits_less(2) [of y] bits_less(4) [of z] by blast
  have c: "ucast (drop_bit 2 (ucast x :: u32)) = drop_bit 2 x" "ucast (push_bit 4 (ucast x) AND 0x3f :: u32) = push_bit 4 (take_bit 2 x)"
    "ucast (push_bit 2 (ucast y) AND 0x3f :: u32) = push_bit 2 (take_bit 4 y)" "ucast (ucast z AND 0x3f :: u32) = take_bit 6 z"
    by (auto simp: bit_simps intro!: byte_eqI)
  show "Q_BASE64 (drop_bit 2 (ucast x)) = sextets x y z ! 0 + q_b64_base"
    "Q_BASE64 (push_bit 4 (ucast x) AND 0x3f) OR drop_bit 4 y = sextets x y z ! 1 + q_b64_base"
    "Q_BASE64 (push_bit 2 (ucast y) AND 0x3f) OR drop_bit 6 z = sextets x y z ! 2 + q_b64_base"
    "Q_BASE64 (ucast z AND 0x3f) = sextets x y z ! 3 + q_b64_base"
    unfolding q c o1 o2 by (simp_all add: sextets_def q_b64_base_def)
qed

lemma q_base64_enc_loop_spec: "q_base64_enc_loop src = b64_spec (\<lambda>v. v + q_b64_base) q_b64_pad src"
proof (induction src rule: groups3_induct)
  case (1 x y z src)
  show ?case unfolding q_base64_enc_loop.simps 1 quick.spec_Cons3 quick_digits [of x y z] quick_digits(3) [of y z x] quick_digits(4) [of z x y] by simp
next
  case (2 x y)
  show ?case using quick_digits [of x y 0] quick_digits(3) [of y 0 x] by (simp add: sextets_def)
next
  case (3 x)
  show ?case using quick_digits(1,2) [of x 0 0] by (simp add: sextets_def)
qed simp

subsection \<open>Hexadecimal\<close>

lemma nth_concat_replicate: "n < k * length xs \<Longrightarrow> concat (map (replicate k) xs) ! n = xs ! (n div k)"
proof (induction xs arbitrary: n)
  case (Cons x xs)
  show ?case
  proof (cases "n < k")
    case False
    then have "n div k = Suc ((n - k) div k)" using Cons.prems by (subst le_div_geq) (cases k; auto)+
    then show ?thesis using Cons False by (simp add: nth_append)
  qed (simp add: nth_append)
qed simp

lemma nth_concat_repeat: "n < k * length xs \<Longrightarrow> concat (replicate k xs) ! n = xs ! (n mod length xs)"
proof (induction k arbitrary: n)
  case (Suc k)
  show ?case
  proof (cases "n < length xs")
    case False
    then have "n mod length xs = (n - length xs) mod length xs" by (simp add: le_mod_geq)
    then show ?thesis using Suc False by (simp add: nth_append)
  qed (simp add: nth_append)
qed simp

lemma length_hexdig: "length hexdig = 16"
  by (simp add: hexdig_def)

lemma nibbles: "unat (x :: u8) div 16 = unat (drop_bit 4 x)" "unat x mod 16 = unat (take_bit 4 x)"
proof -
  show "unat x div 16 = unat (drop_bit 4 x)"
    using unsigned_drop_bit_eq [of 4 x, where ?'a = nat] unat_byte [of x] by (simp add: drop_bit_eq_div take_bit_nat_eq_self)
  show "unat x mod 16 = unat (take_bit 4 x)"
    using unsigned_take_bit_eq [of 4 x, where ?'a = nat] unfolding take_bit_eq_mod [of 4 "unat x"] by simp
qed

lemma hex_digits: "HEX_HI x = hexdig ! unat (drop_bit 4 x)" "HEX_LOW x = hexdig ! unat (take_bit 4 x)"
  unfolding HEX_HI_def HEX_LOW_def bx_hexdig_hi_def bx_hexdig_low_def nibbles [symmetric]
  using nth_concat_replicate [of "unat x" 16 hexdig] nth_concat_repeat [of "unat x" 16 hexdig] unat_byte [of x]
  by (simp_all add: length_hexdig)

lemma UNHEX_hexdig: "v < 16 \<Longrightarrow> UNHEX (hexdig ! unat v) = v"
proof -
  have "\<forall>v < 16. UNHEX (hexdig ! unat v) = v" unfolding all16 by code_simp
  then show "v < 16 \<Longrightarrow> ?thesis" by blast
qed

lemma hex_roundtrip: "push_bit 4 (UNHEX (HEX_HI x)) OR UNHEX (HEX_LOW x) = x"
  unfolding hex_digits UNHEX_hexdig [OF bits_less(3)] UNHEX_hexdig [OF bits_less(2)]
  by (rule byte_eqI) (auto simp: bit_simps)

lemma hex_small: "HEX_HI_small x = HEX_HI x" "HEX_LOW_small x = HEX_LOW x"
proof -
  have "x AND 0xf = take_bit 4 x" by (simp add: take_bit_eq_mask mask_eq_exp_minus_1)
  then show "HEX_HI_small x = HEX_HI x" "HEX_LOW_small x = HEX_LOW x"
    by (simp_all add: HEX_HI_small_def HEX_LOW_small_def HEX_4BITS_def hex_digits)
qed

lemma length_base16_enc_loop: "length (base16_enc_loop src) = 2 * length src"
  by (induction src) auto

lemma base16_dec_enc_loop: "base16_dec_loop (base16_enc_loop src) = src"
  by (induction src) (auto simp: hex_roundtrip)

lemma hex_chunks: "hex_short (le16 x y) = base16_enc_loop [x, y]" "hex_int (le32 x y z w) = base16_enc_loop [x, y, z, w]"
  "hex_byte x = base16_enc_loop [x]"
proof -
  have "ucast (le16 x y) = x" "ucast (drop_bit 8 (le16 x y)) = y"
    "ucast (le32 x y z w) = x" "ucast (drop_bit 8 (le32 x y z w)) = y"
    "ucast (drop_bit 16 (le32 x y z w)) = z" "ucast (drop_bit 24 (le32 x y z w)) = w"
    by (auto simp: le16_def le32_def bit_simps intro!: byte_eqI)
  then show "hex_short (le16 x y) = base16_enc_loop [x, y]" "hex_int (le32 x y z w) = base16_enc_loop [x, y, z, w]"
    "hex_byte x = base16_enc_loop [x]" by (simp_all add: hex_short_def hex_int_def hex_byte_def)
qed

lemma base16_enc_loop_append: "base16_enc_loop (xs @ ys) = base16_enc_loop xs @ base16_enc_loop ys"
  by (induction xs) auto

lemma base16_tails:
  "length src \<le> 3 \<Longrightarrow> base16_tail_aligned src = base16_enc_loop src"
  "length src \<le> 3 \<Longrightarrow> base16_tail_odd src = base16_enc_loop src"
  by (cases src rule: base16_tail_aligned.cases; simp add: hex_chunks)
     (cases src rule: base16_tail_odd.cases; simp add: hex_chunks)

lemma base16_ints_loop_spec: "base16_ints_loop src = base16_enc_loop src"
  by (induction src rule: base16_ints_loop.induct) (auto simp: hex_chunks base16_tails)

lemma take_small: "k < length src \<Longrightarrow> k \<le> 3 \<Longrightarrow>
    take k (src :: u8 list) = (if k = 3 then [src ! 0, src ! 1, src ! 2] else if k = 2 then [src ! 0, src ! 1] else if k = 1 then [src ! 0] else [])"
  by (cases src rule: base16_ints_loop.cases) (auto simp: take_Cons' less_Suc_eq numeral_2_eq_2 numeral_3_eq_3)

lemma base16_enc_ints_spec: "base16_enc_ints a src dlen = base16_enc src dlen"
proof -
  let ?k = "(4 - a mod 4) mod 4"
  let ?h = "if ?k = 3 then hex_byte (src ! 0) @ hex_short (le16 (src ! 1) (src ! 2))
      else if ?k = 2 then hex_short (le16 (src ! 0) (src ! 1)) else if ?k = 1 then hex_byte (src ! 0) else []"
  have k: "?k \<le> 3" by (simp add: Suc_leI less_Suc_eq_le)
  have "?h = base16_enc_loop (take ?k src)" if "?k < length src"
    unfolding take_small [OF that k] by (simp add: hex_chunks)
  then have "?h @ base16_ints_loop (drop ?k src) = base16_enc_loop src" if "?k < length src"
    using that base16_enc_loop_append [of "take ?k src" "drop ?k src"] by (simp only: base16_ints_loop_spec append_take_drop_id)
  moreover have "base16_tail_odd src = base16_enc_loop src" "base16_tail_aligned src = base16_enc_loop src" if "\<not> ?k < length src"
    using that k by (simp_all add: base16_tails)
  ultimately show ?thesis unfolding base16_enc_ints_def base16_enc_def Let_def by simp
qed

text \<open>Without tables the digits above 9 are not hexadecimal ones, though the decoding macro undoes them.\<close>

lemma hex_none: "v < 16 \<Longrightarrow> HEX_4BITS_none v = (if v < 10 then hexdig ! unat v else v + 65) \<and> UNHEX_none (HEX_4BITS_none v) = v"
proof -
  have "\<forall>v < 16. HEX_4BITS_none v = (if v < 10 then hexdig ! unat v else v + 65) \<and> UNHEX_none (HEX_4BITS_none v) = v"
    unfolding all16 by code_simp
  then show "v < 16 \<Longrightarrow> ?thesis" by blast
qed

section \<open>Properties\<close>

text \<open>C13: for every string of bytes and every buffer, \<^verbatim>\<open>base16_enc\<close>, \<^verbatim>\<open>base64_enc\<close> and \<^verbatim>\<open>q_base64_enc\<close> either
  ask for the exact size that is missing or produce exactly that many characters, from which the decoding
  function recovers the bytes in any buffer that can hold them; in a smaller one it asks for their number.\<close>

theorem basex_roundtrip:
  assumes "src \<noteq> []"
  shows "(dlen < base16_enc_len (length src) \<longrightarrow> base16_enc src dlen = Inl (base16_enc_len (length src))) \<and>
     (dlen \<ge> base16_enc_len (length src) \<longrightarrow> (\<exists>e. base16_enc src dlen = Inr e \<and> length e = base16_enc_len (length src) \<and>
        (\<forall>dl. base16_dec e dl = (if dl < length src then Inl (length src) else Inr src)))) \<and>
     (dlen < base64_enc_len (length src) \<longrightarrow> base64_enc odd_dst src dlen = Inl (base64_enc_len (length src)) \<and>
        q_base64_enc src dlen = Inl (base64_enc_len (length src))) \<and>
     (dlen \<ge> base64_enc_len (length src) \<longrightarrow> (\<exists>e q. base64_enc odd_dst src dlen = Inr e \<and> q_base64_enc src dlen = Inr q \<and>
        length e = base64_enc_len (length src) \<and> length q = base64_enc_len (length src) \<and>
        (\<forall>dl. base64_dec e dl = (if dl < length src then Inl (length src) else Inr src) \<and>
              q_base64_dec q dl = (if dl < length src then Inl (length src) else Inr src))))"
proof -
  have h: "base16_dec (base16_enc_loop src) dl = (if dl < length src then Inl (length src) else Inr src)" for dl
    by (simp add: base16_dec_def length_base16_enc_loop base16_dec_enc_loop)
  show ?thesis
    using std.decode [OF assms] quick.decode [OF assms] h
    by (auto simp: base16_enc_def base16_enc_len_def base64_enc_len_def base64_enc_def q_base64_enc_def base64_dec_def
        q_base64_dec_def put_entry base64_enc_loop_spec q_base64_enc_loop_spec length_b64_spec length_base16_enc_loop)
qed

text \<open>Witness: the bytes of "ser" in a buffer of eight.\<close>

theorem basex_roundtrip_witness:
  "base64_enc True [115, 101, 114] 8 = Inr [99, 50, 86, 121] \<and> base64_dec [99, 50, 86, 121] 3 = Inr [115, 101, 114]"
proof -
  have "base64_enc True [115, 101, 114] 8 = Inr [99, 50, 86, 121]"
    by (simp add: base64_enc_def put_entry base64_enc_loop_spec sextets_def base64_enc_char_def del: base64_enc_loop.simps)
  moreover have "(8 :: nat) \<ge> base64_enc_len (length [115, 101, 114 :: u8])" by (simp add: base64_enc_len_def)
  ultimately show ?thesis
    using basex_roundtrip [of "[115, 101, 114]" 8 True] by auto
qed


end
