(* ===== verification/Md5.thy ===== *)
theory Md5
  imports BaseX Ut
begin

text \<open>
  The MD5 digest: \<^verbatim>\<open>src/sip_router/md5.c\<close>, \<^verbatim>\<open>md5.h\<close> and \<^verbatim>\<open>md5utils.c\<close>.

  The context holds the four words of the state, the number of bits as two words and the buffer of 64 bytes.
  The input of \<^verbatim>\<open>MD5Update\<close> is the list of its bytes, shorter than \<open>2 ^ 32\<close>; \<open>None\<close> is a read behind its end,
  which the 32 bit loop index allows for lengths close to that bound.
\<close>

section \<open>Definitions\<close>

record md5_ctx =
  state :: "u32 list"
  count :: "u32 \<times> u32"
  buffer :: "u8 list"

abbreviation (input) S11 :: nat where "S11 \<equiv> 7"
abbreviation (input) S12 :: nat where "S12 \<equiv> 12"
abbreviation (input) S13 :: nat where "S13 \<equiv> 17"
abbreviation (input) S14 :: nat where "S14 \<equiv> 22"
abbreviation (input) S21 :: nat where "S21 \<equiv> 5"
abbreviation (input) S22 :: nat where "S22 \<equiv> 9"
abbreviation (input) S23 :: nat where "S23 \<equiv> 14"
abbreviation (input) S24 :: nat where "S24 \<equiv> 20"
abbreviation (input) S31 :: nat where "S31 \<equiv> 4"
abbreviation (input) S32 :: nat where "S32 \<equiv> 11"
abbreviation (input) S33 :: nat where "S33 \<equiv> 16"
abbreviation (input) S34 :: nat where "S34 \<equiv> 23"
abbreviation (input) S41 :: nat where "S41 \<equiv> 6"
abbreviation (input) S42 :: nat where "S42 \<equiv> 10"
abbreviation (input) S43 :: nat where "S43 \<equiv> 15"
abbreviation (input) S44 :: nat where "S44 \<equiv> 21"

definition PADDING :: "u8 list" where "PADDING = 0x80 # replicate 63 0"

definition F_md :: "u32 \<Rightarrow> u32 \<Rightarrow> u32 \<Rightarrow> u32" where "F_md x y z = (x AND y) OR (NOT x AND z)"
definition G_md :: "u32 \<Rightarrow> u32 \<Rightarrow> u32 \<Rightarrow> u32" where "G_md x y z = (x AND z) OR (y AND NOT z)"
definition H_md :: "u32 \<Rightarrow> u32 \<Rightarrow> u32 \<Rightarrow> u32" where "H_md x y z = x XOR y XOR z"
definition I_md :: "u32 \<Rightarrow> u32 \<Rightarrow> u32 \<Rightarrow> u32" where "I_md x y z = y XOR (x OR NOT z)"

definition ROTATE_LEFT :: "u32 \<Rightarrow> nat \<Rightarrow> u32" where
  "ROTATE_LEFT x n = push_bit n x OR drop_bit (32 - n) x"

text \<open>An operation of a round: its function, the positions in the list \<open>[a, b, c, d]\<close> of the variable it changes
  and of the three it reads, the index of the input word, the rotation and the constant.\<close>

type_synonym md5_op = "(u32 \<Rightarrow> u32 \<Rightarrow> u32 \<Rightarrow> u32) \<times> nat \<times> nat \<times> nat \<times> nat \<times> nat \<times> nat \<times> u32"

abbreviation (input) ra :: nat where "ra \<equiv> 0"
abbreviation (input) rb :: nat where "rb \<equiv> 1"
abbreviation (input) rc :: nat where "rc \<equiv> 2"
abbreviation (input) rd :: nat where "rd \<equiv> 3"

fun md5_op :: "u32 list \<Rightarrow> md5_op \<Rightarrow> u32 list \<Rightarrow> u32 list" where
  "md5_op x (f, a, b, c, d, k, s, ac) v =
     v[a := ROTATE_LEFT (v ! a + (f (v ! b) (v ! c) (v ! d) + x ! k + ac)) s + v ! b]"

definition round1 :: "md5_op list" where
  "round1 =
    [(F_md, ra, rb, rc, rd, 0, S11, 0xd76aa478), (F_md, rd, ra, rb, rc, 1, S12, 0xe8c7b756),
     (F_md, rc, rd, ra, rb, 2, S13, 0x242070db), (F_md, rb, rc, rd, ra, 3, S14, 0xc1bdceee),
     (F_md, ra, rb, rc, rd, 4, S11, 0xf57c0faf), (F_md, rd, ra, rb, rc, 5, S12, 0x4787c62a),
     (F_md, rc, rd, ra, rb, 6, S13, 0xa8304613), (F_md, rb, rc, rd, ra, 7, S14, 0xfd469501),
     (F_md, ra, rb, rc, rd, 8, S11, 0x698098d8), (F_md, rd, ra, rb, rc, 9, S12, 0x8b44f7af),
     (F_md, rc, rd, ra, rb, 10, S13, 0xffff5bb1), (F_md, rb, rc, rd, ra, 11, S14, 0x895cd7be),
     (F_md, ra, rb, rc, rd, 12, S11, 0x6b901122), (F_md, rd, ra, rb, rc, 13, S12, 0xfd987193),
     (F_md, rc, rd, ra, rb, 14, S13, 0xa679438e), (F_md, rb, rc, rd, ra, 15, S14, 0x49b40821)]"

definition round2 :: "md5_op list" where
  "round2 =
    [(G_md, ra, rb, rc, rd, 1, S21, 0xf61e2562), (G_md, rd, ra, rb, rc, 6, S22, 0xc040b340),
     (G_md, rc, rd, ra, rb, 11, S23, 0x265e5a51), (G_md, rb, rc, rd, ra, 0, S24, 0xe9b6c7aa),
     (G_md, ra, rb, rc, rd, 5, S21, 0xd62f105d), (G_md, rd, ra, rb, rc, 10, S22, 0x2441453),
     (G_md, rc, rd, ra, rb, 15, S23, 0xd8a1e681), (G_md, rb, rc, rd, ra, 4, S24, 0xe7d3fbc8),
     (G_md, ra, rb, rc, rd, 9, S21, 0x21e1cde6), (G_md, rd, ra, rb, rc, 14, S22, 0xc33707d6),
     (G_md, rc, rd, ra, rb, 3, S23, 0xf4d50d87), (G_md, rb, rc, rd, ra, 8, S24, 0x455a14ed),
     (G_md, ra, rb, rc, rd, 13, S21, 0xa9e3e905), (G_md, rd, ra, rb, rc, 2, S22, 0xfcefa3f8),
     (G_md, rc, rd, ra, rb, 7, S23, 0x676f02d9), (G_md, rb, rc, rd, ra, 12, S24, 0x8d2a4c8a)]"

definition round3 :: "md5_op list" where
  "round3 =
    [(H_md, ra, rb, rc, rd, 5, S31, 0xfffa3942), (H_md, rd, ra, rb, rc, 8, S32, 0x8771f681),
     (H_md, rc, rd, ra, rb, 11, S33, 0x6d9d6122), (H_md, rb, rc, rd, ra, 14, S34, 0xfde5380c),
     (H_md, ra, rb, rc, rd, 1, S31, 0xa4beea44), (H_md, rd, ra, rb, rc, 4, S32, 0x4bdecfa9),
     (H_md, rc, rd, ra, rb, 7, S33, 0xf6bb4b60), (H_md, rb, rc, rd, ra, 10, S34, 0xbebfbc70),
     (H_md, ra, rb, rc, rd, 13, S31, 0x289b7ec6), (H_md, rd, ra, rb, rc, 0, S32, 0xeaa127fa),
     (H_md, rc, rd, ra, rb, 3, S33, 0xd4ef3085), (H_md, rb, rc, rd, ra, 6, S34, 0x4881d05),
     (H_md, ra, rb, rc, rd, 9, S31, 0xd9d4d039), (H_md, rd, ra, rb, rc, 12, S32, 0xe6db99e5),
     (H_md, rc, rd, ra, rb, 15, S33, 0x1fa27cf8), (H_md, rb, rc, rd, ra, 2, S34, 0xc4ac5665)]"

definition round4 :: "md5_op list" where
  "round4 =
    [(I_md, ra, rb, rc, rd, 0, S41, 0xf4292244), (I_md, rd, ra, rb, rc, 7, S42, 0x432aff97),
     (I_md, rc, rd, ra, rb, 14, S43, 0xab9423a7), (I_md, rb, rc, rd, ra, 5, S44, 0xfc93a039),
     (I_md, ra, rb, rc, rd, 12, S41, 0x655b59c3), (I_md, rd, ra, rb, rc, 3, S42, 0x8f0ccc92),
     (I_md, rc, rd, ra, rb, 10, S43, 0xffeff47d), (I_md, rb, rc, rd, ra, 1, S44, 0x85845dd1),
     (I_md, ra, rb, rc, rd, 8, S41, 0x6fa87e4f), (I_md, rd, ra, rb, rc, 15, S42, 0xfe2ce6e0),
     (I_md, rc, rd, ra, rb, 6, S43, 0xa3014314), (I_md, rb, rc, rd, ra, 13, S44, 0x4e0811a1),
     (I_md, ra, rb, rc, rd, 4, S41, 0xf7537e82), (I_md, rd, ra, rb, rc, 11, S42, 0xbd3af235),
     (I_md, rc, rd, ra, rb, 2, S43, 0x2ad7d2bb), (I_md, rb, rc, rd, ra, 9, S44, 0xeb86d391)]"

definition MD5Init :: "u8 list \<Rightarrow> md5_ctx" where
  "MD5Init buf = \<lparr>state = [0x67452301, 0xefcdab89, 0x98badcfe, 0x10325476], count = (0, 0), buffer = buf\<rparr>"

fun Encode :: "u32 list \<Rightarrow> u8 list" where
  "Encode [] = []"
| "Encode (w # ws) =
     [ucast (w AND 0xff), ucast (drop_bit 8 w AND 0xff), ucast (drop_bit 16 w AND 0xff), ucast (drop_bit 24 w AND 0xff)] @ Encode ws"

fun Decode :: "u8 list \<Rightarrow> u32 list" where
  "Decode (a # b # c # d # input) =
     (ucast a OR push_bit 8 (ucast b) OR push_bit 16 (ucast c) OR push_bit 24 (ucast d)) # Decode input"
| "Decode _ = []"

definition MD5Transform :: "u32 list \<Rightarrow> u8 list \<Rightarrow> u32 list" where
  "MD5Transform st block =
     (let x = Decode block; v = fold (md5_op x) (round1 @ round2 @ round3 @ round4) st
      in map2 (+) st v)"

text \<open>Copies into the buffer and reads of the input are bounds checked.\<close>

definition MD5_memcpy :: "u8 list \<Rightarrow> nat \<Rightarrow> u8 list \<Rightarrow> u8 list option" where
  "MD5_memcpy buf k xs =
     (if k + length xs \<le> length buf then Some (take k buf @ xs @ drop (k + length xs) buf) else None)"

lemma loop_index: "unat i + 64 \<le> unat (inputLen :: u32) \<Longrightarrow> unat (i + 64 :: u32) = unat i + 64"
  using unat32_less [of inputLen] by (subst unat_add_lem [THEN iffD1]) auto

function update_loop :: "u8 list \<Rightarrow> u32 \<Rightarrow> u32 \<Rightarrow> u32 list \<Rightarrow> (u32 \<times> u32 list) option" where
  "update_loop input inputLen i st =
     (if i + 63 < inputLen
      then (if unat i + 64 \<le> unat inputLen
            then update_loop input inputLen (i + 64) (MD5Transform st (take 64 (drop (unat i) input)))
            else None)
      else Some (i, st))"
  by pat_completeness auto
termination
  by (relation "measure (\<lambda>(input, inputLen, i, st). unat inputLen - unat i)") (auto simp: loop_index)

declare update_loop.simps [simp del]

definition MD5Update :: "md5_ctx \<Rightarrow> u8 list \<Rightarrow> md5_ctx option" where
  "MD5Update ctx input =
     (let inputLen = of_nat (length input) :: u32;
          c0 = fst (count ctx); c1 = snd (count ctx);
          index = drop_bit 3 c0 AND 0x3f;
          c0' = c0 + push_bit 3 inputLen;
          c1' = (if c0' < push_bit 3 inputLen then c1 + 1 else c1) + drop_bit 29 inputLen;
          partLen = 64 - index
      in if inputLen \<ge> partLen
         then Option.bind (MD5_memcpy (buffer ctx) (unat index) (take (unat partLen) input)) (\<lambda>buf.
              Option.bind (update_loop input inputLen partLen (MD5Transform (state ctx) buf)) (\<lambda>(i, st).
              Option.bind (MD5_memcpy buf 0 (take (unat (inputLen - i)) (drop (unat i) input))) (\<lambda>buf'.
              Some \<lparr>state = st, count = (c0', c1'), buffer = buf'\<rparr>)))
         else Option.bind (MD5_memcpy (buffer ctx) (unat index) input) (\<lambda>buf'.
              Some \<lparr>state = state ctx, count = (c0', c1'), buffer = buf'\<rparr>))"

text \<open>The digest and the zeroed context.\<close>

definition MD5Final :: "md5_ctx \<Rightarrow> (u8 list \<times> md5_ctx) option" where
  "MD5Final ctx =
     (let bits = Encode [fst (count ctx), snd (count ctx)];
          index = drop_bit 3 (fst (count ctx)) AND 0x3f;
          padLen = (if index < 56 then 56 - index else 120 - index)
      in Option.bind (MD5Update ctx (take (unat padLen) PADDING)) (\<lambda>ctx1.
         Option.bind (MD5Update ctx1 bits) (\<lambda>ctx2.
         Some (Encode (state ctx2), \<lparr>state = replicate 4 0, count = (0, 0), buffer = replicate 64 0\<rparr>))))"

subsection \<open>Digests of string arrays\<close>

definition byte_of :: "char \<Rightarrow> u8" where "byte_of c = of_nat (ord_of c)"
definition char_of_byte :: "u8 \<Rightarrow> char" where "char_of_byte b = chr_of (unat b)"

fun mds_loop :: "md5_ctx \<Rightarrow> string list \<Rightarrow> md5_ctx option" where
  "mds_loop ctx [] = Some ctx"
| "mds_loop ctx (s # src) =
     (let t = trim_len s in
      if length t > 0 then Option.bind (MD5Update ctx (map byte_of t)) (\<lambda>ctx'. mds_loop ctx' src)
      else mds_loop ctx src)"

definition MDStringArray :: "u8 list \<Rightarrow> string list \<Rightarrow> string option" where
  "MDStringArray buf src =
     Option.bind (mds_loop (MD5Init buf) src) (\<lambda>ctx.
     Option.bind (MD5Final ctx) (\<lambda>(digest, _).
     Some (snd (string2hex (map char_of_byte digest)))))"

section \<open>The one-shot digest\<close>

function md5_blocks :: "u32 list \<Rightarrow> u8 list \<Rightarrow> u32 list" where
  "md5_blocks st m = (if length m < 64 then st else md5_blocks (MD5Transform st (take 64 m)) (drop 64 m))"
  by pat_completeness auto
termination
  by (relation "measure (\<lambda>(st, m). length m)") auto

declare md5_blocks.simps [simp del]

text \<open>A set bit, zeroes up to 8 bytes below a multiple of 64, and the number of bits modulo \<open>2 ^ 64\<close>, little endian.\<close>

fun le_bytes :: "nat \<Rightarrow> nat \<Rightarrow> u8 list" where
  "le_bytes 0 n = []"
| "le_bytes (Suc k) n = of_nat n # le_bytes k (n div 256)"

definition md5_pad :: "nat \<Rightarrow> u8 list" where
  "md5_pad n = 0x80 # replicate ((119 - n mod 64) mod 64) 0 @ le_bytes 8 (8 * n)"

definition md5_init :: "u32 list" where "md5_init = [0x67452301, 0xefcdab89, 0x98badcfe, 0x10325476]"

definition md5 :: "u8 list \<Rightarrow> u8 list" where
  "md5 m = Encode (md5_blocks md5_init (m @ md5_pad (length m)))"

section \<open>Lemmas\<close>

subsection \<open>Blocks\<close>

definition rest :: "u8 list \<Rightarrow> u8 list" where "rest m = drop (length m - length m mod 64) m"

lemma rest_short: "length m < 64 \<Longrightarrow> rest m = m"
  by (simp add: rest_def)

lemma length_rest [simp]: "length (rest m) = length m mod 64"
  by (simp add: rest_def mod_less_eq_dividend)

lemma md5_blocks_short: "length m < 64 \<Longrightarrow> md5_blocks st m = st"
  by (subst md5_blocks.simps) simp

lemma md5_blocks_long: "64 \<le> length m \<Longrightarrow> md5_blocks st m = md5_blocks (MD5Transform st (take 64 m)) (drop 64 m)"
  by (subst md5_blocks.simps) simp

lemma rest_step: "64 \<le> length m \<Longrightarrow> rest (drop 64 m) = rest m"
proof -
  assume "64 \<le> length m"
  then have "(length m - 64) mod 64 = length m mod 64" by (simp add: le_mod_geq)
  moreover have "length m mod 64 \<le> length m - 64"
    using \<open>64 \<le> length m\<close> calculation by (metis mod_less_eq_dividend)
  ultimately show ?thesis using \<open>64 \<le> length m\<close> by (simp add: rest_def)
qed

lemma md5_blocks_append: "md5_blocks st (m @ n) = md5_blocks (md5_blocks st m) (rest m @ n)"
proof (induction st m rule: md5_blocks.induct)
  case (1 st m)
  show ?case
  proof (cases "length m < 64")
    case True
    then show ?thesis by (simp add: md5_blocks_short rest_short)
  next
    case False
    then have "md5_blocks st (m @ n) = md5_blocks (MD5Transform st (take 64 m)) (drop 64 m @ n)"
      using md5_blocks_long [of "m @ n" st] by simp
    moreover have "md5_blocks st m = md5_blocks (MD5Transform st (take 64 m)) (drop 64 m)"
      using False by (intro md5_blocks_long) simp
    ultimately show ?thesis using False 1(1) [OF False] rest_step [of m] by simp
  qed
qed

lemma length_md5_op: "length (md5_op x a v) = length v"
  by (induction x a v rule: md5_op.induct) simp

lemma length_MD5Transform: "length (MD5Transform st b) = length st"
proof -
  have "length (fold (md5_op x) ops v) = length v" for x ops v
    by (induction ops arbitrary: v) (simp_all add: length_md5_op)
  then show ?thesis by (simp add: MD5Transform_def Let_def)
qed

lemma update_loop_spec:
  "length input = unat inputLen \<Longrightarrow> unat inputLen + 63 < 2 ^ 32 \<Longrightarrow> unat i \<le> unat inputLen \<Longrightarrow>
   \<exists>i'. update_loop input inputLen i st = Some (i', md5_blocks st (drop (unat i) input)) \<and>
        unat i' \<le> unat inputLen \<and> drop (unat i') input = rest (drop (unat i) input)"
proof (induction input inputLen i st rule: update_loop.induct)
  case (1 input inputLen i st)
  have "unat (i + 63) = unat i + 63" using "1.prems" by (subst unat_add_lem [THEN iffD1]) auto
  then have c: "i + 63 < inputLen \<longleftrightarrow> unat i + 64 \<le> unat inputLen" by (simp add: word_less_nat_alt) linarith
  show ?case
  proof (cases "unat i + 64 \<le> unat inputLen")
    case True
    let ?m = "drop (unat i) input"
    have l: "64 \<le> length ?m" "unat (i + 64) = unat i + 64" using True 1 loop_index [OF True] by auto
    have "md5_blocks st ?m = md5_blocks (MD5Transform st (take 64 ?m)) (drop 64 ?m)"
      using l(1) by (rule md5_blocks_long)
    moreover have "rest (drop 64 ?m) = rest ?m" using l(1) by (rule rest_step)
    ultimately show ?thesis
      using 1(1) [OF _ True] c True 1(2-4) l by (subst update_loop.simps) (simp add: add.commute)
  next
    case False
    then have "length (drop (unat i) input) < 64" using 1 by auto
    then show ?thesis using c False 1 by (subst update_loop.simps) (simp add: md5_blocks_short rest_short)
  qed
qed

subsection \<open>The bit count\<close>

definition count64 :: "u32 \<times> u32 \<Rightarrow> nat" where "count64 c = unat (fst c) + 2 ^ 32 * unat (snd c)"

lemma two_words: "x < 2 ^ 32 \<Longrightarrow> x + 2 ^ 32 * (y mod 2 ^ 32) = (x + 2 ^ 32 * y) mod (2 ^ 64 :: nat)"
proof -
  assume x: "x < 2 ^ 32"
  have "(x + 2 ^ 32 * y) div 2 ^ 32 = y" "(x + 2 ^ 32 * y) mod 2 ^ 32 = x"
    using div_mult_self2 [of "2 ^ 32" x y] mod_mult_self2 [of x "2 ^ 32" y] x by (simp_all only: div_less mod_less)
  then show ?thesis using mod_mult2_eq [of "x + 2 ^ 32 * y" "2 ^ 32" "2 ^ 32"] by simp
qed

lemma carry_add:
  fixes c0 a :: u32
  shows "unat (c0 + a) = (unat c0 + unat a) mod 2 ^ 32" "c0 + a < a \<longleftrightarrow> (unat c0 + unat a) div 2 ^ 32 = 1"
    "(unat c0 + unat a) div 2 ^ 32 \<in> {0, 1}"
proof -
  have b: "unat c0 < 2 ^ 32" "unat a < 2 ^ 32" by (rule unat32_less)+
  show m: "unat (c0 + a) = (unat c0 + unat a) mod 2 ^ 32" by (simp add: unat_word_ariths)
  have s: "unat c0 + unat a < 2 * 2 ^ 32" using b by linarith
  then show d: "(unat c0 + unat a) div 2 ^ 32 \<in> {0, 1}" using less_mult_imp_div_less [of "unat c0 + unat a" 2 "2 ^ 32"] by auto
  show "c0 + a < a \<longleftrightarrow> (unat c0 + unat a) div 2 ^ 32 = 1"
  proof (cases "unat c0 + unat a < 2 ^ 32")
    case True
    then show ?thesis using m by (simp add: word_less_nat_alt)
  next
    case False
    then have "(unat c0 + unat a) mod 2 ^ 32 = unat c0 + unat a - 2 ^ 32" "(unat c0 + unat a) div 2 ^ 32 = 1"
      using s by (simp_all add: le_mod_geq le_div_geq)
    then show ?thesis using m b(1) False by (simp add: word_less_nat_alt)
  qed
qed

lemma count_update:
  fixes l :: u32
  shows "count64 (c0 + push_bit 3 l, (if c0 + push_bit 3 l < push_bit 3 l then c1 + 1 else c1) + drop_bit 29 l)
     = (count64 (c0, c1) + 8 * unat l) mod 2 ^ 64"
proof -
  let ?a = "push_bit 3 l" let ?X = "unat c0 + unat ?a" let ?k = "?X div 2 ^ 32" let ?h = "unat l div 2 ^ 29"
  have a: "unat ?a = 8 * unat l mod 2 ^ 32" by (simp add: push_bit_eq_mult unat_word_ariths mult.commute)
  have "8 * unat l div 2 ^ 32 = ?h" using div_mult_mult1 [of 8 "unat l" "2 ^ 29"] by simp
  then have l8: "8 * unat l = unat ?a + 2 ^ 32 * ?h" using a mod_mult_div_eq [of "8 * unat l" "2 ^ 32"] by simp
  have "unat ((if c0 + ?a < ?a then c1 + 1 else c1) + drop_bit 29 l) = (unat c1 + ?k + ?h) mod 2 ^ 32"
  proof (cases "c0 + ?a < ?a")
    case True
    then have k: "?k = 1" using carry_add(2) by blast
    show ?thesis using True unfolding k by (simp add: carry_add(1) unat_drop_bit mod_add_left_eq)
  next
    case False
    then have k: "?k = 0" using carry_add(2,3) by blast
    show ?thesis using False unfolding k by (simp add: carry_add(1) unat_drop_bit)
  qed
  then have "count64 (c0 + ?a, (if c0 + ?a < ?a then c1 + 1 else c1) + drop_bit 29 l)
      = ?X mod 2 ^ 32 + 2 ^ 32 * ((unat c1 + ?k + ?h) mod 2 ^ 32)"
    using carry_add(1) [of c0 ?a] by (simp only: count64_def fst_conv snd_conv)
  also have "\<dots> = (?X mod 2 ^ 32 + 2 ^ 32 * (unat c1 + ?k + ?h)) mod 2 ^ 64" by (rule two_words) simp
  also have "?X mod 2 ^ 32 + 2 ^ 32 * (unat c1 + ?k + ?h) = count64 (c0, c1) + 8 * unat l"
    using mod_mult_div_eq [of ?X "2 ^ 32"] l8 by (simp add: count64_def algebra_simps)
  finally show ?thesis .
qed

lemma index_count:
  assumes "count64 c = 8 * n mod 2 ^ 64"
  shows "unat (drop_bit 3 (fst c) AND 0x3f) = n mod 64"
proof -
  have "unat (fst c) = count64 c mod 2 ^ 32"
    using mod_mult_self2 [of "unat (fst c)" "2 ^ 32" "unat (snd c)"] unat32_less [of "fst c"] by (simp only: count64_def mod_less)
  also have "\<dots> = 8 * n mod 2 ^ 32" unfolding assms by (rule mod_mod_cancel) simp
  also have "\<dots> = 8 * (n mod 2 ^ 29)" using mod_mult_mult1 [of 8 n "2 ^ 29"] by simp
  finally have "unat (drop_bit 3 (fst c)) = n mod 2 ^ 29" by (simp add: unat_drop_bit)
  moreover have "drop_bit 3 (fst c) AND 0x3f = drop_bit 3 (fst c) AND mask 6" by (simp add: mask_eq_exp_minus_1)
  moreover have "n mod 2 ^ 29 mod 64 = n mod 64" by (rule mod_mod_cancel) simp
  ultimately show ?thesis by (simp add: unat_and_mask)
qed

subsection \<open>The context of a message\<close>

text \<open>What a context holds after the message \<open>m\<close>.\<close>

definition md5_inv :: "md5_ctx \<Rightarrow> u8 list \<Rightarrow> bool" where
  "md5_inv ctx m \<longleftrightarrow> length (buffer ctx) = 64 \<and> count64 (count ctx) = 8 * length m mod 2 ^ 64 \<and>
     state ctx = md5_blocks md5_init m \<and> take (length m mod 64) (buffer ctx) = rest m"

lemma md5_inv_init: "length buf = 64 \<Longrightarrow> md5_inv (MD5Init buf) []"
  by (simp add: md5_inv_def MD5Init_def md5_init_def count64_def md5_blocks_short rest_short)

lemma rest_append_blocks:
  assumes "64 dvd length p"
  shows "rest (p @ x) = rest x"
proof -
  obtain k where k: "length p = 64 * k" using assms by (auto elim: dvdE)
  have "length (p @ x) mod 64 = length x mod 64" by (simp add: k)
  moreover have "length (p @ x) - length x mod 64 = length p + (length x - length x mod 64)"
    by (simp add: mod_less_eq_dividend)
  ultimately show ?thesis unfolding rest_def by (simp only: drop_append) simp
qed

lemma rest_append: "rest (m @ n) = rest (rest m @ n)"
proof -
  let ?p = "take (length m - length m mod 64) m"
  have "64 dvd length ?p" using dvd_minus_mod [of 64 "length m"] by simp
  then have "rest (?p @ (rest m @ n)) = rest (rest m @ n)" by (rule rest_append_blocks)
  moreover have "?p @ (rest m @ n) = m @ n" unfolding rest_def by (simp only: append.assoc [symmetric] append_take_drop_id)
  ultimately show ?thesis by simp
qed

lemma md5_inv_count:
  assumes "md5_inv ctx m" "length input < 2 ^ 32"
  defines "l \<equiv> of_nat (length input) :: u32"
  shows "count64 (fst (count ctx) + push_bit 3 l, (if fst (count ctx) + push_bit 3 l < push_bit 3 l then snd (count ctx) + 1
     else snd (count ctx)) + drop_bit 29 l) = 8 * length (m @ input) mod 2 ^ 64"
proof -
  have "unat l = length input" using assms(2) by (simp add: l_def unsigned_of_nat take_bit_nat_eq_self)
  then show ?thesis
    using assms(1) unfolding count_update by (simp add: md5_inv_def mod_add_left_eq distrib_left)
qed

lemma md5_inv_facts:
  assumes "md5_inv ctx m" "length input + 63 < 2 ^ 32"
  shows "unat (of_nat (length input) :: u32) = length input"
    "unat (drop_bit 3 (fst (count ctx)) AND 0x3f) = length m mod 64"
    "unat (64 - (drop_bit 3 (fst (count ctx)) AND 0x3f)) = 64 - length m mod 64"
    "length (buffer ctx) = 64" "take (length m mod 64) (buffer ctx) = rest m" "state ctx = md5_blocks md5_init m"
proof -
  show "unat (of_nat (length input) :: u32) = length input"
    using assms(2) by (simp add: unsigned_of_nat take_bit_nat_eq_self)
  show ix: "unat (drop_bit 3 (fst (count ctx)) AND 0x3f) = length m mod 64"
    using assms(1) by (intro index_count) (simp add: md5_inv_def)
  then show "unat (64 - (drop_bit 3 (fst (count ctx)) AND 0x3f)) = 64 - length m mod 64"
    by (subst unat_sub) (simp_all add: word_le_nat_alt)
  show "length (buffer ctx) = 64" "take (length m mod 64) (buffer ctx) = rest m" "state ctx = md5_blocks md5_init m"
    using assms(1) by (simp_all add: md5_inv_def)
qed

lemma MD5Update_short:
  assumes "md5_inv ctx m" "length m mod 64 + length input < 64"
  shows "\<exists>ctx'. MD5Update ctx input = Some ctx' \<and> md5_inv ctx' (m @ input)"
proof -
  have h: "length input + 63 < 2 ^ 32" using assms(2) by simp
  note f = md5_inv_facts [OF assms(1) h]
  have lm: "length (m @ input) mod 64 = length m mod 64 + length input"
    using assms(2) by (metis length_append mod_add_left_eq mod_less)
  have *: "md5_blocks md5_init (m @ input) = md5_blocks md5_init m" "rest (m @ input) = rest m @ input"
    using assms(2) md5_blocks_append [of md5_init m input] rest_append [of m input]
    by (simp_all add: md5_blocks_short rest_short length_rest)
  obtain buf' where mc: "MD5_memcpy (buffer ctx) (length m mod 64) input = Some buf'" and buf': "length buf' = 64"
      "take (length m mod 64 + length input) buf' = rest m @ input"
    using f(4,5) assms(2) by (auto simp: MD5_memcpy_def)
  have "\<not> 64 - (drop_bit 3 (fst (count ctx)) AND 0x3f) \<le> (of_nat (length input) :: u32)"
    unfolding word_le_nat_alt f(1,3) using assms(2) by linarith
  then have "MD5Update ctx input = Some \<lparr>state = state ctx, count = (fst (count ctx) + push_bit 3 (of_nat (length input)),
      (if fst (count ctx) + push_bit 3 (of_nat (length input)) < push_bit 3 (of_nat (length input)) then snd (count ctx) + 1
       else snd (count ctx)) + drop_bit 29 (of_nat (length input))), buffer = buf'\<rparr>"
    unfolding MD5Update_def Let_def f(2) mc by simp
  moreover have "length input < 2 ^ 32" using h by simp
  ultimately show ?thesis
    using md5_inv_count [OF assms(1), of input] f(6) lm * buf' by (simp add: md5_inv_def del: length_append)
qed

lemma memcpy_start: "length xs \<le> 64 \<Longrightarrow> length buf = 64 \<Longrightarrow>
    \<exists>buf'. MD5_memcpy buf 0 xs = Some buf' \<and> length buf' = 64 \<and> take (length xs) buf' = xs"
  by (simp add: MD5_memcpy_def)

lemma MD5Update_long:
  assumes "md5_inv ctx m" "length input + 63 < 2 ^ 32" "\<not> length m mod 64 + length input < 64"
  shows "\<exists>ctx'. MD5Update ctx input = Some ctx' \<and> md5_inv ctx' (m @ input)"
proof -
  let ?l = "of_nat (length input) :: u32" let ?ix = "drop_bit 3 (fst (count ctx)) AND 0x3f"
  let ?k = "64 - length m mod 64"  let ?buf = "rest m @ take ?k input"
  note f = md5_inv_facts [OF assms(1,2)]
  have k: "?k \<le> length input" using assms(3) by simp
  have lb: "length ?buf = 64" using k length_rest [of m] by simp
  obtain i' where u: "update_loop input ?l (64 - ?ix) (MD5Transform (state ctx) ?buf) =
      Some (i', md5_blocks (MD5Transform (state ctx) ?buf) (drop ?k input))"
    and i': "unat i' \<le> length input" "drop (unat i') input = rest (drop ?k input)"
    using update_loop_spec [of input ?l "64 - ?ix" "MD5Transform (state ctx) ?buf"] assms(2) f(1,3) k by auto
  have st: "md5_blocks md5_init (m @ input) = md5_blocks (MD5Transform (state ctx) ?buf) (drop ?k input)"
    using md5_blocks_append [of md5_init m input] f(6) md5_blocks_long [of "?buf @ drop ?k input" "state ctx"] lb by simp
  have r: "rest (m @ input) = rest (drop ?k input)"
    using rest_append [of m input] rest_append_blocks [of ?buf "drop ?k input"] lb by simp
  then have n: "length (rest (drop ?k input)) = length (m @ input) mod 64" by (metis length_rest)
  have mc: "MD5_memcpy (buffer ctx) (unat ?ix) (take (unat (64 - ?ix)) input) = Some ?buf"
    unfolding f(2,3) MD5_memcpy_def using f(4,5) k by simp
  have "unat (?l - i') = length input - unat i'" using i'(1) f(1) by (subst unat_sub) (simp_all add: word_le_nat_alt)
  then have "take (unat (?l - i')) (drop (unat i') input) = drop (unat i') input" by simp
  then have d: "take (unat (?l - i')) (drop (unat i') input) = rest (drop ?k input)" using i'(2) by (rule trans)
  have "length (m @ input) mod 64 \<le> 64" by simp
  then obtain buf' where mc': "MD5_memcpy ?buf 0 (rest (drop ?k input)) = Some buf'" and buf': "length buf' = 64"
      "take (length (m @ input) mod 64) buf' = rest (drop ?k input)"
    using memcpy_start [of "rest (drop ?k input)" ?buf] lb unfolding n by blast
  have "64 - ?ix \<le> ?l" using f(1,3) k by (simp only: word_le_nat_alt)
  then have "MD5Update ctx input = Some \<lparr>state = md5_blocks md5_init (m @ input), count = (fst (count ctx) + push_bit 3 ?l,
      (if fst (count ctx) + push_bit 3 ?l < push_bit 3 ?l then snd (count ctx) + 1 else snd (count ctx)) + drop_bit 29 ?l), buffer = buf'\<rparr>"
    unfolding MD5Update_def Let_def mc st by (simp add: u d mc')
  then show ?thesis
    using md5_inv_count [OF assms(1), of input] assms(2) buf' r by (simp add: md5_inv_def del: length_append)
qed

lemma MD5Update_spec:
  assumes "md5_inv ctx m" "length input + 63 < 2 ^ 32"
  shows "\<exists>ctx'. MD5Update ctx input = Some ctx' \<and> md5_inv ctx' (m @ input)"
  using MD5Update_short [OF assms(1)] MD5Update_long [OF assms] by blast

subsection \<open>Padding and the digest\<close>

lemma unat_index [word_nat]: "unat (w AND 0x3f) = unat (w :: u32) mod 64"
proof -
  have "w AND 0x3f = w AND mask 6" by (simp add: mask_eq_exp_minus_1)
  then show ?thesis by (simp only: unat_and_mask) simp
qed

lemma byte_of_word: "ucast (w AND 0xff :: u32) = (of_nat (unat w) :: u8)"
  by (rule byte_eqI) (auto simp: bit_simps bit_of_nat_iff bit_unsigned_iff)

lemma Encode_word: "Encode (w # ws) = le_bytes 4 (unat w) @ Encode ws"
proof -
  have "le_bytes (Suc (Suc (Suc (Suc 0)))) n =
      [of_nat n, of_nat (n div 256), of_nat (n div 256 div 256), of_nat (n div 256 div 256 div 256)]" for n
    by simp
  moreover have "Suc (Suc (Suc (Suc 0))) = 4" by simp
  ultimately have "le_bytes 4 n = [of_nat n, of_nat (n div 256), of_nat (n div 65536), of_nat (n div 16777216)]" for n
    by (simp flip: div_mult2_eq)
  then show ?thesis by (simp add: byte_of_word unat_drop_bit)
qed

lemma le_bytes_add: "le_bytes (j + k) n = le_bytes j n @ le_bytes k (n div 256 ^ j)"
  by (induction j arbitrary: n) (simp_all add: div_mult2_eq)

lemma le_bytes_mod: "k \<le> j \<Longrightarrow> le_bytes k (n mod 256 ^ j) = le_bytes k n"
proof (induction k arbitrary: n j)
  case (Suc k)
  then obtain i where j: "j = Suc i" "k \<le> i" by (cases j) auto
  have "of_nat (n mod 256 ^ j) = (of_nat n :: u8)"
    by (simp add: word_of_nat_eq_iff take_bit_eq_mod j mod_mod_cancel)
  moreover have "n mod 256 ^ j div 256 = n div 256 mod 256 ^ i" by (simp add: j mod_mult2_eq)
  ultimately show ?case using Suc.IH [OF j(2)] by simp
qed simp

lemma Encode_count: "count64 c = n mod 2 ^ 64 \<Longrightarrow> Encode [fst c, snd c] = le_bytes 8 n"
proof -
  assume c: "count64 c = n mod 2 ^ 64"
  have d: "count64 c div 2 ^ 32 = unat (snd c)" "count64 c mod 2 ^ 32 = unat (fst c)"
    using unat32_less [of "fst c"] by (simp_all add: count64_def)
  have "le_bytes 4 (unat (fst c)) = le_bytes 4 (count64 c)"
    using le_bytes_mod [of 4 4 "count64 c"] d(2) by simp
  moreover have "le_bytes 4 (unat (snd c)) = le_bytes 4 (count64 c div 256 ^ 4)" using d(1) by simp
  ultimately have "Encode [fst c, snd c] = le_bytes 8 (count64 c)"
    using le_bytes_add [of 4 4 "count64 c"] by (simp add: Encode_word del: Encode.simps(2))
  also have "\<dots> = le_bytes 8 n" using le_bytes_mod [of 8 8 n] c by simp
  finally show ?thesis .
qed

lemma length_le_bytes [simp]: "length (le_bytes k n) = k"
  by (induction k arbitrary: n) simp_all

lemma padding_eq:
  assumes "unat ix = n mod 64"
  shows "take (unat (if ix < 56 then 56 - ix else 120 - ix :: u32)) PADDING @ le_bytes 8 (8 * n) = md5_pad n"
proof -
  have a: "r < 56 \<Longrightarrow> 56 - r = Suc (55 - r)" "r < 64 \<Longrightarrow> 120 - r = Suc (119 - r)" for r :: nat by arith+
  have "unat (if ix < 56 then 56 - ix else 120 - ix) = Suc ((119 - n mod 64) mod 64)"
  proof (cases "ix < 56")
    case True
    then have "n mod 64 < 56" using assms by (simp add: word_less_nat_alt)
    then have "(119 - n mod 64) mod 64 = 55 - n mod 64" by (simp add: le_mod_geq)
    moreover have "unat (56 - ix) = 56 - n mod 64" using True assms by (subst unat_sub) (simp_all add: word_le_nat_alt word_less_nat_alt)
    ultimately show ?thesis using True a(1) [OF \<open>n mod 64 < 56\<close>] by (simp only: if_True)
  next
    case False
    have l: "n mod 64 < 64" by simp
    have "56 \<le> n mod 64" using False assms by (simp add: word_less_nat_alt)
    then have "(119 - n mod 64) mod 64 = 119 - n mod 64" by simp
    moreover have "unat (120 - ix) = 120 - n mod 64" using assms l by (subst unat_sub) (simp_all add: word_le_nat_alt)
    ultimately show ?thesis using False a(2) [OF l] by (simp only: if_False)
  qed
  then show ?thesis by (simp add: PADDING_def md5_pad_def min_def del: mod_less)
qed

definition md5_zeroed :: md5_ctx where
  "md5_zeroed = \<lparr>state = replicate 4 0, count = (0, 0), buffer = replicate 64 0\<rparr>"

lemma MD5Final_spec:
  assumes "md5_inv ctx m"
  shows "MD5Final ctx = Some (md5 m, md5_zeroed)"
proof -
  let ?ix = "drop_bit 3 (fst (count ctx)) AND 0x3f" let ?n = "unat (if ?ix < 56 then 56 - ?ix else 120 - ?ix)"
  have c: "count64 (count ctx) = 8 * length m mod 2 ^ 64" using assms by (simp add: md5_inv_def)
  then have ix: "unat ?ix = length m mod 64" by (rule index_count)
  have b: "Encode [fst (count ctx), snd (count ctx)] = le_bytes 8 (8 * length m)" using c by (rule Encode_count)
  have "length (take ?n PADDING) + 63 < 2 ^ 32" by (simp add: PADDING_def)
  then obtain ctx1 where 1: "MD5Update ctx (take ?n PADDING) = Some ctx1" "md5_inv ctx1 (m @ take ?n PADDING)"
    using MD5Update_spec [OF assms] by blast
  obtain ctx2 where 2: "MD5Update ctx1 (le_bytes 8 (8 * length m)) = Some ctx2"
      "md5_inv ctx2 ((m @ take ?n PADDING) @ le_bytes 8 (8 * length m))"
    using MD5Update_spec [OF 1(2), of "le_bytes 8 (8 * length m)"] by auto
  then have "Encode (state ctx2) = md5 m"
    using padding_eq [OF ix] by (simp add: md5_inv_def md5_def)
  then show ?thesis unfolding MD5Final_def Let_def b 1(1) Option.bind.bind_lunit 2(1) md5_zeroed_def by simp
qed

text \<open>A message handed over in pieces.\<close>

fun md5_chunks :: "md5_ctx \<Rightarrow> u8 list list \<Rightarrow> (u8 list \<times> md5_ctx) option" where
  "md5_chunks ctx [] = MD5Final ctx"
| "md5_chunks ctx (c # cs) = Option.bind (MD5Update ctx c) (\<lambda>ctx'. md5_chunks ctx' cs)"

lemma md5_chunks_spec:
  "md5_inv ctx m \<Longrightarrow> \<forall>c \<in> set cs. length c + 63 < 2 ^ 32 \<Longrightarrow> md5_chunks ctx cs = Some (md5 (m @ concat cs), md5_zeroed)"
proof (induction cs arbitrary: ctx m)
  case (Cons c cs)
  then obtain ctx' where "MD5Update ctx c = Some ctx'" "md5_inv ctx' (m @ c)" using MD5Update_spec [of ctx m c] by auto
  then show ?case using Cons by simp
qed (simp add: MD5Final_spec)

lemma length_trim_len: "length (trim_len s) \<le> length s"
  unfolding trim_len_def by (metis length_dropWhile_le length_rev order_trans)

lemma mds_loop_spec:
  "md5_inv ctx m \<Longrightarrow> \<forall>s \<in> set src. length s + 63 < 2 ^ 32 \<Longrightarrow>
   \<exists>ctx'. mds_loop ctx src = Some ctx' \<and> md5_inv ctx' (m @ map byte_of (concat (map trim_len src)))"
proof (induction src arbitrary: ctx m)
  case (Cons s src)
  show ?case
  proof (cases "trim_len s = []")
    case True
    then show ?thesis using Cons by simp
  next
    case False
    have "length (map byte_of (trim_len s)) + 63 < 2 ^ 32" using length_trim_len [of s] Cons.prems(2) by simp
    then obtain ctx' where "MD5Update ctx (map byte_of (trim_len s)) = Some ctx'" "md5_inv ctx' (m @ map byte_of (trim_len s))"
      using MD5Update_spec [OF Cons.prems(1)] by blast
    then show ?thesis using Cons False by fastforce
  qed
qed simp

section \<open>Properties\<close>

text \<open>C8: the digest computed from a message handed over in any pieces, through any number of calls of \<^verbatim>\<open>MD5Update\<close>,
  is the digest of the whole message with its padding and the 64 bit number of its bits, no copy leaves the
  buffer and no read leaves the input, and the context is zeroed; \<^verbatim>\<open>MDStringArray\<close> writes the hexadecimal digest of
  the trimmed strings one after the other.\<close>

theorem md5_stream:
  assumes "length buf = 64" "\<forall>c \<in> set cs. length c + 63 < 2 ^ 32" "\<forall>s \<in> set src. length s + 63 < 2 ^ 32"
  shows "md5_chunks (MD5Init buf) cs = Some (md5 (concat cs), md5_zeroed) \<and>
     MDStringArray buf src = Some (snd (string2hex (map char_of_byte (md5 (map byte_of (concat (map trim_len src)))))))"
proof
  show "md5_chunks (MD5Init buf) cs = Some (md5 (concat cs), md5_zeroed)"
    using md5_chunks_spec [OF md5_inv_init [OF assms(1)] assms(2)] by simp
  obtain ctx where "mds_loop (MD5Init buf) src = Some ctx" "md5_inv ctx (map byte_of (concat (map trim_len src)))"
    using mds_loop_spec [OF md5_inv_init [OF assms(1)] assms(3)] by auto
  then show "MDStringArray buf src = Some (snd (string2hex (map char_of_byte (md5 (map byte_of (concat (map trim_len src)))))))"
    by (simp add: MDStringArray_def MD5Final_spec)
qed

text \<open>Witness: the published digest of \<open>abc\<close>, in two pieces and as an array of two strings.\<close>

lemma md5_abc: "md5 [97, 98, 99] = [0x90, 0x01, 0x50, 0x98, 0x3c, 0xd2, 0x4f, 0xb0, 0xd6, 0x96, 0x3f, 0x7d, 0x28, 0xe1, 0x7f, 0x72]"
  by code_simp

theorem md5_stream_witness:
  "md5_chunks (MD5Init (replicate 64 0)) [[97], [98, 99]] =
     Some ([0x90, 0x01, 0x50, 0x98, 0x3c, 0xd2, 0x4f, 0xb0, 0xd6, 0x96, 0x3f, 0x7d, 0x28, 0xe1, 0x7f, 0x72], md5_zeroed) \<and>
   MDStringArray (replicate 64 0) ['' a '', ''bc''] = Some ''900150983cd24fb0d6963f7d28e17f72''"
proof -
  have t: "map byte_of (concat (map trim_len ['' a '', ''bc''])) = [97, 98, 99]" by code_simp
  have h: "snd (string2hex (map char_of_byte [0x90, 0x01, 0x50, 0x98, 0x3c, 0xd2, 0x4f, 0xb0, 0xd6, 0x96, 0x3f, 0x7d, 0x28, 0xe1, 0x7f, 0x72])) =
      ''900150983cd24fb0d6963f7d28e17f72''" by code_simp
  show ?thesis
    using md5_stream [of "replicate 64 0" "[[97], [98, 99]]" "['' a '', ''bc'']"] unfolding t h [symmetric] by (simp add: md5_abc)
qed

end
