(* ===== verification/AuthNonce.thy ===== *)
theory AuthNonce
  imports Md5 NonceCount
begin

text \<open>
  The nonces of digest authentication: \<^verbatim>\<open>src/sip_router/modules/auth/nonce.c\<close> and \<^verbatim>\<open>nonce.h\<close>, compiled with
  nonce counts and one-time nonces.

  The union \<^verbatim>\<open>bin_nonce\<close> is the list of its 48 bytes: the expiry and creation times, a digest of them with the
  first secret, and either (extra checks) a digest of parts of the request with the second secret and then the
  nonce id with its byte of flags and pool number, or the latter only.  What is on the stack before is a
  parameter.  A request is the record of what the code reads of it, headers as the parser delivers them.
\<close>

section \<open>Definitions\<close>

subsection \<open>Requests\<close>

datatype to_header = To_error | To_missing | To_tag "u8 list"

record auth_msg =
  is_register :: bool
  msg_to :: to_header
  ruri :: "u8 list"
  callid :: "u8 list option"
  from_tag :: "u8 list option"
  src_ip :: "u8 list"

record auth_params =
  auth_checks_reg :: u32
  auth_checks_ood :: u32
  auth_checks_ind :: u32
  nonce_auth_max_drift :: u32
  nc_enabled :: bool
  otn_enabled :: bool
  up_since :: int

definition AUTH_CHECK_FULL_URI :: u32 where "AUTH_CHECK_FULL_URI = 1"
definition AUTH_CHECK_CALLID :: u32 where "AUTH_CHECK_CALLID = 2"
definition AUTH_CHECK_FROMTAG :: u32 where "AUTH_CHECK_FROMTAG = 4"
definition AUTH_CHECK_SRC_IP :: u32 where "AUTH_CHECK_SRC_IP = 8"

definition get_auth_checks :: "auth_params \<Rightarrow> auth_msg option \<Rightarrow> u32" where
  "get_auth_checks q msg =
     (case msg of None \<Rightarrow> 0
      | Some m \<Rightarrow>
          if is_register m then auth_checks_reg q
          else (case msg_to m of
                  To_error \<Rightarrow> auth_checks_ood q
                | To_tag tag \<Rightarrow> if length tag > 0 then auth_checks_ind q else auth_checks_ood q
                | To_missing \<Rightarrow> auth_checks_ood q))"

subsection \<open>The binary nonce\<close>

definition nonce_nid_extra_size :: nat where "nonce_nid_extra_size = 4 + 1"
definition MAX_BIN_NONCE_LEN :: nat where "MAX_BIN_NONCE_LEN = 4 + 4 + 16 + 16 + 4 + 1"
definition MAX_NOCFG_BIN_NONCE_LEN :: nat where "MAX_NOCFG_BIN_NONCE_LEN = 4 + 4 + 16 + 4 + 1"
definition MIN_BIN_NONCE_LEN :: nat where "MIN_BIN_NONCE_LEN = 4 + 4 + 16"
definition MAX_NONCE_LEN :: nat where "MAX_NONCE_LEN = base64_enc_len MAX_BIN_NONCE_LEN"
definition MIN_NONCE_LEN :: nat where "MIN_NONCE_LEN = base64_enc_len MIN_BIN_NONCE_LEN"

definition get_bin_nonce_len :: "u32 \<Rightarrow> bool \<Rightarrow> nat" where
  "get_bin_nonce_len cfg nid_enabled =
     (if cfg \<noteq> 0 then MAX_BIN_NONCE_LEN else MAX_NOCFG_BIN_NONCE_LEN) - (if nid_enabled then 0 else nonce_nid_extra_size)"

definition get_nonce_len :: "u32 \<Rightarrow> bool \<Rightarrow> nat" where
  "get_nonce_len cfg nid_enabled = base64_enc_len (get_bin_nonce_len cfg nid_enabled)"

text \<open>The size of the union and the places of its members; \<open>ext\<close> tells the full from the small structure.\<close>

definition sizeof_bin_nonce :: nat where "sizeof_bin_nonce = 48"

definition off_since :: nat where "off_since = 4"
definition off_md5_1 :: nat where "off_md5_1 = 8"
definition off_md5_2 :: nat where "off_md5_2 = 24"
definition off_nid_i :: "bool \<Rightarrow> nat" where "off_nid_i ext = (if ext then 40 else 24)"
definition off_nid_pf :: "bool \<Rightarrow> nat" where "off_nid_pf ext = (if ext then 44 else 28)"

definition get_raw :: "nat \<Rightarrow> nat \<Rightarrow> u8 list \<Rightarrow> u8 list" where
  "get_raw off n raw = take n (drop off raw)"
definition put_raw :: "nat \<Rightarrow> u8 list \<Rightarrow> u8 list \<Rightarrow> u8 list" where
  "put_raw off bs raw = take off raw @ bs @ drop (off + length bs) raw"

definition htonl :: "u32 \<Rightarrow> u8 list" where
  "htonl w = [ucast (drop_bit 24 w), ucast (drop_bit 16 w), ucast (drop_bit 8 w), ucast w]"

fun ntohl :: "u8 list \<Rightarrow> u32" where
  "ntohl [a, b, c, d] = push_bit 24 (ucast a) OR push_bit 16 (ucast b) OR push_bit 8 (ucast c) OR ucast d"
| "ntohl _ = 0"

definition BIN_NONCE_PREPARE :: "u32 \<Rightarrow> u32 \<Rightarrow> u32 \<Rightarrow> u8 \<Rightarrow> bool \<Rightarrow> u8 list \<Rightarrow> u8 list" where
  "BIN_NONCE_PREPARE expire_v since_v id_v pf_v ext raw =
     (let raw = put_raw 0 (htonl expire_v) raw;
          raw = put_raw off_since (htonl since_v) raw;
          raw = put_raw (off_nid_i ext) (htonl id_v) raw
      in put_raw (off_nid_pf ext) [pf_v] raw)"

text \<open>The parts of the request that the second digest covers.\<close>

definition extra_parts :: "u32 \<Rightarrow> auth_msg \<Rightarrow> u8 list list" where
  "extra_parts cfg m =
     (if cfg AND AUTH_CHECK_FULL_URI \<noteq> 0 then [ruri m] else []) @
     (if cfg AND AUTH_CHECK_CALLID \<noteq> 0 then (case callid m of Some s \<Rightarrow> [s] | None \<Rightarrow> []) else []) @
     (if cfg AND AUTH_CHECK_FROMTAG \<noteq> 0 then (case from_tag m of Some s \<Rightarrow> [s] | None \<Rightarrow> []) else []) @
     (if cfg AND AUTH_CHECK_SRC_IP \<noteq> 0 then [src_ip m] else [])"

definition nid_flags :: "u8 \<Rightarrow> bool" where
  "nid_flags pf \<longleftrightarrow> pf AND (of_nat NF_VALID_NC_ID OR of_nat NF_VALID_OT_ID) \<noteq> 0"

definition nid_pf :: "bool \<Rightarrow> u8 list \<Rightarrow> u8" where
  "nid_pf ext raw = raw ! off_nid_pf ext"

definition nid_part :: "bool \<Rightarrow> u8 list \<Rightarrow> u8 list list" where
  "nid_part ext raw = (if nid_flags (nid_pf ext raw) then [get_raw (off_nid_i ext) nonce_nid_extra_size raw] else [])"

text \<open>The union with its digests and the length of the binary nonce; \<open>buf\<close> is the buffer of the digest context.\<close>

definition calc_bin_nonce_md5 :: "u8 list \<Rightarrow> u8 list \<Rightarrow> u32 \<Rightarrow> u8 list \<Rightarrow> u8 list \<Rightarrow> auth_msg option \<Rightarrow> (u8 list \<times> nat) option" where
  "calc_bin_nonce_md5 buf raw cfg secret1 secret2 msg =
     (case (if cfg \<noteq> 0 then msg else None) of
        Some m \<Rightarrow>
          Option.bind (md5_chunks (MD5Init buf) ([get_raw 0 8 raw] @ nid_part True raw @ [secret1])) (\<lambda>(d1, ctx).
          let raw' = put_raw off_md5_1 d1 raw in
          Option.bind (md5_chunks (MD5Init (buffer ctx)) (extra_parts cfg m @ [secret2])) (\<lambda>(d2, _).
          Some (put_raw off_md5_2 d2 raw',
                4 + 4 + 16 + 16 + (if nid_flags (nid_pf True raw) then nonce_nid_extra_size else 0))))
      | None \<Rightarrow>
          Option.bind (md5_chunks (MD5Init buf) ([get_raw 0 8 raw] @ nid_part False raw @ [secret1])) (\<lambda>(d1, _).
          Some (put_raw off_md5_1 d1 raw,
                4 + 4 + 16 + (if nid_flags (nid_pf False raw) then nonce_nid_extra_size else 0))))"

subsection \<open>Creating nonces\<close>

text \<open>\<open>Too_small n\<close> is the return value \<open>-1\<close> with the needed length, \<open>Assert_failed\<close> a failed \<^verbatim>\<open>assert\<close>.\<close>

datatype calc_nonce_ret = Nonce "u8 list" | Too_small nat | Assert_failed

definition calc_nonce ::
  "u8 list \<Rightarrow> u8 list \<Rightarrow> bool \<Rightarrow> nat \<Rightarrow> u32 \<Rightarrow> u32 \<Rightarrow> u32 \<Rightarrow> u32 \<Rightarrow> u8 \<Rightarrow> u8 list \<Rightarrow> u8 list \<Rightarrow> auth_msg option \<Rightarrow> calc_nonce_ret option" where
  "calc_nonce stack buf odd_dst nonce_len cfg since expires n_id pf secret1 secret2 msg =
     (let need = get_nonce_len cfg (pf AND of_nat NF_VALID_NC_ID \<noteq> 0) in
      if nonce_len < MAX_NONCE_LEN \<and> nonce_len < need then Some (Too_small need)
      else (let ext = (cfg \<noteq> 0 \<and> msg \<noteq> None);
                b_nonce = BIN_NONCE_PREPARE expires since n_id pf ext stack
            in Option.bind (calc_bin_nonce_md5 buf b_nonce cfg secret1 secret2 msg) (\<lambda>(raw, len).
               case base64_enc odd_dst (take len raw) nonce_len of
                 Inr e \<Rightarrow> Some (Nonce e)
               | Inl _ \<Rightarrow> Some Assert_failed)))"

subsection \<open>Checking nonces\<close>

definition get_bin_nonce_expire :: "u8 list \<Rightarrow> int" where
  "get_bin_nonce_expire raw = uint (ntohl (get_raw 0 4 raw))"

text \<open>The creation time is stored in a signed 32 bit variable.\<close>

definition get_bin_nonce_since :: "u8 list \<Rightarrow> int" where
  "get_bin_nonce_since raw = sint (ntohl (get_raw off_since 4 raw))"

definition is_bin_nonce_stale :: "u8 list \<Rightarrow> int \<Rightarrow> bool" where
  "is_bin_nonce_stale raw t \<longleftrightarrow> get_bin_nonce_expire raw < t"

text \<open>The part after the digests have been computed again and the first one compared.\<close>

definition check_counts ::
  "auth_params \<Rightarrow> string option \<Rightarrow> u32 \<Rightarrow> u8 \<Rightarrow> bool \<Rightarrow> int \<Rightarrow> bool \<Rightarrow> nonce_state \<Rightarrow> (int \<times> nonce_state) option" where
  "check_counts q nc n_id pf stale extra_ret ext_checks s =
     (let finish = (\<lambda>s. Some (if stale then 4 else 0, s));
          extra = (\<lambda>s. if ext_checks \<and> extra_ret \<noteq> 0 then Some (extra_ret, s) else finish s);
          one_time = (\<lambda>s. if otn_enabled q \<and> pf AND of_nat NF_VALID_OT_ID \<noteq> 0
                      then (case otn_check_id n_id (unat (pf AND of_nat NF_POOL_NO_MASK)) s of
                              None \<Rightarrow> None
                            | Some (OTN_OK, s') \<Rightarrow> extra s'
                            | Some (_, s') \<Rightarrow> Some (4, s'))
                      else extra s)
      in case nc of
           Some v \<Rightarrow>
             if nc_enabled q \<and> pf AND of_nat NF_VALID_NC_ID \<noteq> 0 \<and> v \<noteq> []
             then (case str2int v of (e, n) \<Rightarrow>
                     if e \<noteq> 0 then Some (5, s)
                     else (case nc_check_val n_id (unat (pf AND of_nat NF_POOL_NO_MASK)) (of_nat n) s of
                             None \<Rightarrow> None
                           | Some (NC_OK, s') \<Rightarrow> finish s'
                           | Some (_, s') \<Rightarrow> Some (4, s')))
             else one_time s
         | None \<Rightarrow> one_time s)"

definition check_nonce ::
  "u8 list \<Rightarrow> u8 list \<Rightarrow> auth_params \<Rightarrow> int \<Rightarrow> u8 list option \<Rightarrow> string option \<Rightarrow> u8 list \<Rightarrow> u8 list \<Rightarrow> auth_msg option \<Rightarrow>
   nonce_state \<Rightarrow> (int \<times> nonce_state) option" where
  "check_nonce stack buf q t nonce nc secret1 secret2 msg s =
     (let cfg = get_auth_checks q msg in
      case nonce of None \<Rightarrow> Some (-1, s)
      | Some e \<Rightarrow>
      if length e < MIN_NONCE_LEN then Some (1, s)
      else (let raw0 = put_raw (off_nid_pf False) [0] (put_raw (off_nid_pf True) [0] stack) in
        case base64_dec e sizeof_bin_nonce of
          Inl _ \<Rightarrow> Some (-1, s)
        | Inr b \<Rightarrow>
          if length b < MIN_BIN_NONCE_LEN then Some (-1, s)
          else (let raw = put_raw 0 b raw0; since = get_bin_nonce_since raw in
            if since < up_since q then Some (4, s)
            else if since > t \<and> since - t > uint (nonce_auth_max_drift q) then Some (4, s)
            else (let ext = (cfg \<noteq> 0); pf = nid_pf ext raw; n_id = ntohl (get_raw (off_nid_i ext) 4 raw) in
              if otn_enabled q \<and> pf AND of_nat NF_VALID_OT_ID = 0 then Some (4, s)
              else Option.bind (calc_bin_nonce_md5 buf raw cfg secret1 secret2 msg) (\<lambda>(raw2, len2).
                if get_raw off_md5_1 16 raw = get_raw off_md5_1 16 raw2
                then check_counts q nc n_id pf (is_bin_nonce_stale raw t)
                       (if length b \<noteq> len2 then 2 else if get_raw off_md5_2 16 raw \<noteq> get_raw off_md5_2 16 raw2 then 3 else 0) ext s
                else Some (2, s))))))"

section \<open>Lemmas\<close>

subsection \<open>The union as bytes\<close>

lemma length_put_raw [simp]: "off + length bs \<le> length raw \<Longrightarrow> length (put_raw off bs raw) = length raw"
  by (simp add: put_raw_def)

lemma nth_put_raw:
  "off + length bs \<le> length raw \<Longrightarrow> k < length raw \<Longrightarrow>
   put_raw off bs raw ! k = (if off \<le> k \<and> k < off + length bs then bs ! (k - off) else raw ! k)"
  by (auto simp: put_raw_def nth_append)

lemma get_raw_eqI: "(\<And>k. off \<le> k \<Longrightarrow> k < off + n \<Longrightarrow> raw ! k = raw' ! k) \<Longrightarrow> off + n \<le> length raw \<Longrightarrow> length raw = length raw' \<Longrightarrow>
    get_raw off n raw = get_raw off n raw'"
  by (rule nth_equalityI) (auto simp: get_raw_def)

lemma get_put_same: "off + length bs \<le> length raw \<Longrightarrow> n = length bs \<Longrightarrow> get_raw off n (put_raw off bs raw) = bs"
  by (simp add: get_raw_def put_raw_def)

lemma get_put_other:
  "off + length bs \<le> length raw \<Longrightarrow> k + n \<le> length raw \<Longrightarrow> k + n \<le> off \<or> off + length bs \<le> k \<Longrightarrow>
   get_raw k n (put_raw off bs raw) = get_raw k n raw"
  by (rule get_raw_eqI) (auto simp: nth_put_raw)

lemma length_htonl [simp]: "length (htonl w) = 4"
  by (simp add: htonl_def)

lemma ntohl_htonl [simp]: "ntohl (htonl w) = w"
proof (rule bit_word_eqI)
  fix n assume "n < LENGTH(32)"
  then consider "n < 8" | "8 \<le> n" "n < 16" | "16 \<le> n" "n < 24" | "24 \<le> n" "n < 32" by fastforce
  then show "bit (ntohl (htonl w)) n = bit w n" by cases (auto simp: htonl_def bit_simps)
qed

lemma length_md5 [simp]: "length (md5 m) = 16"
proof -
  have e: "length (Encode ws) = 4 * length ws" for ws by (induction ws) auto
  have "length (md5_blocks st m) = length st" for st m
    by (induction st m rule: md5_blocks.induct) (subst md5_blocks.simps, simp add: length_MD5Transform)
  then show ?thesis by (simp add: md5_def e md5_init_def)
qed

lemmas offs = off_since_def off_md5_1_def off_md5_2_def off_nid_i_def off_nid_pf_def nonce_nid_extra_size_def

subsection \<open>The digests\<close>

definition small_enough :: "u8 list \<Rightarrow> bool" where "small_enough s \<longleftrightarrow> length s + 63 < 2 ^ 32"

definition parts_ok :: "auth_msg \<Rightarrow> bool" where
  "parts_ok m \<longleftrightarrow> small_enough (ruri m) \<and> small_enough (src_ip m) \<and>
     (\<forall>s. callid m = Some s \<longrightarrow> small_enough s) \<and> (\<forall>s. from_tag m = Some s \<longrightarrow> small_enough s)"

lemma list_all_parts: "P x \<Longrightarrow> P y \<Longrightarrow> (\<forall>s. u = Some s \<longrightarrow> P s) \<Longrightarrow> (\<forall>s. v = Some s \<longrightarrow> P s) \<Longrightarrow>
   list_all P ((if a then [x] else []) @ (if b then (case u of Some s \<Rightarrow> [s] | None \<Rightarrow> []) else []) @
     (if d then (case v of Some s \<Rightarrow> [s] | None \<Rightarrow> []) else []) @ (if e then [y] else []))"
  by (cases u; cases v) simp_all

lemma extra_parts_ok: "parts_ok m \<Longrightarrow> \<forall>c \<in> set (extra_parts cfg m). length c + 63 < 2 ^ 32"
  unfolding extra_parts_def parts_ok_def small_enough_def list_all_iff [symmetric] by (rule list_all_parts) blast+

text \<open>What the two digests are.\<close>

definition digest1 :: "bool \<Rightarrow> u8 list \<Rightarrow> u8 list \<Rightarrow> u8 list" where
  "digest1 ext raw secret1 = md5 (get_raw 0 8 raw @ concat (nid_part ext raw) @ secret1)"

definition digest2 :: "u32 \<Rightarrow> auth_msg \<Rightarrow> u8 list \<Rightarrow> u8 list" where
  "digest2 cfg m secret2 = md5 (concat (extra_parts cfg m) @ secret2)"

definition bin_len :: "bool \<Rightarrow> u8 list \<Rightarrow> nat" where
  "bin_len ext raw = (if ext then 40 else 24) + (if nid_flags (nid_pf ext raw) then 5 else 0)"

lemma md5_pieces:
  assumes "length buf = 64" "\<forall>c \<in> set cs. length c + 63 < 2 ^ 32"
  shows "md5_chunks (MD5Init buf) cs = Some (md5 (concat cs), md5_zeroed)"
  using md5_chunks_spec [OF md5_inv_init [OF assms(1)] assms(2)] by simp

lemma calc_bin_nonce_md5_spec:
  assumes "length buf = 64" "length raw = 48" "small_enough secret1" "small_enough secret2"
    and "\<And>m. msg = Some m \<Longrightarrow> parts_ok m"
  shows "calc_bin_nonce_md5 buf raw cfg secret1 secret2 msg =
    (case (if cfg \<noteq> 0 then msg else None) of
       Some m \<Rightarrow> Some (put_raw off_md5_2 (digest2 cfg m secret2) (put_raw off_md5_1 (digest1 True raw secret1) raw), bin_len True raw)
     | None \<Rightarrow> Some (put_raw off_md5_1 (digest1 False raw secret1) raw, bin_len False raw))"
proof -
  have 1: "md5_chunks (MD5Init buf) ([get_raw 0 8 raw] @ nid_part ext raw @ [secret1]) = Some (digest1 ext raw secret1, md5_zeroed)" for ext
    using assms(3) by (subst md5_pieces [OF assms(1)])
      (auto simp: nid_part_def get_raw_def small_enough_def nonce_nid_extra_size_def digest1_def)
  have b: "length (buffer md5_zeroed) = 64" by (simp add: md5_zeroed_def)
  have 2: "md5_chunks (MD5Init (buffer md5_zeroed)) (extra_parts cfg m @ [secret2]) = Some (digest2 cfg m secret2, md5_zeroed)"
    if "msg = Some m" for m
    using assms(4) extra_parts_ok [OF assms(5) [OF that]] by (subst md5_pieces [OF b]) (auto simp: small_enough_def digest2_def)
  show ?thesis
    unfolding calc_bin_nonce_md5_def 1 using 2 by (auto simp: bin_len_def nonce_nid_extra_size_def split: option.splits)
qed

subsection \<open>Issued nonces\<close>

lemma prepare_fields:
  assumes "length stack = 48"
  shows "length (BIN_NONCE_PREPARE e s i pf ext stack) = 48"
    "get_raw 0 4 (BIN_NONCE_PREPARE e s i pf ext stack) = htonl e"
    "get_raw off_since 4 (BIN_NONCE_PREPARE e s i pf ext stack) = htonl s"
    "get_raw (off_nid_i ext) 4 (BIN_NONCE_PREPARE e s i pf ext stack) = htonl i"
    "nid_pf ext (BIN_NONCE_PREPARE e s i pf ext stack) = pf"
  using assms by (simp_all add: BIN_NONCE_PREPARE_def Let_def offs get_put_same get_put_other nid_pf_def nth_put_raw)

text \<open>The union after the digests have been filled in.\<close>

definition fill :: "bool \<Rightarrow> u8 list \<Rightarrow> u8 list \<Rightarrow> u8 list \<Rightarrow> u8 list" where
  "fill ext d1 d2 raw = (if ext then put_raw off_md5_2 d2 (put_raw off_md5_1 d1 raw) else put_raw off_md5_1 d1 raw)"

lemma fill_fields:
  assumes "length raw = 48" "length d1 = 16" "length d2 = 16"
  shows "length (fill ext d1 d2 raw) = 48" "get_raw off_md5_1 16 (fill ext d1 d2 raw) = d1"
    "get_raw off_md5_2 16 (fill True d1 d2 raw) = d2"
    "k + n \<le> 8 \<Longrightarrow> get_raw k n (fill ext d1 d2 raw) = get_raw k n raw"
    "off_nid_i ext \<le> k \<Longrightarrow> k + n \<le> 48 \<Longrightarrow> get_raw k n (fill ext d1 d2 raw) = get_raw k n raw"
    "nid_pf ext (fill ext d1 d2 raw) = nid_pf ext raw"
  using assms by (auto simp: fill_def offs get_put_same get_put_other nid_pf_def nth_put_raw)

lemma fill_invariant:
  assumes "length raw = 48" "length d1 = 16" "length d2 = 16"
  shows "nid_part ext (fill ext d1 d2 raw) = nid_part ext raw" "bin_len ext (fill ext d1 d2 raw) = bin_len ext raw"
    "digest1 ext (fill ext d1 d2 raw) s1 = digest1 ext raw s1"
proof -
  show n: "nid_part ext (fill ext d1 d2 raw) = nid_part ext raw"
    using assms by (simp add: nid_part_def fill_fields offs)
  show "bin_len ext (fill ext d1 d2 raw) = bin_len ext raw" using assms by (simp add: bin_len_def fill_fields)
  show "digest1 ext (fill ext d1 d2 raw) s1 = digest1 ext raw s1" unfolding digest1_def n using assms by (simp add: fill_fields)
qed

text \<open>The union into which a nonce of the length of \<open>R\<close> has been decoded.\<close>

definition received :: "bool \<Rightarrow> u8 list \<Rightarrow> u8 list \<Rightarrow> u8 list" where
  "received ext R stack = put_raw 0 (take (bin_len ext R) R) (put_raw (off_nid_pf False) [0] (put_raw (off_nid_pf True) [0] stack))"

lemma bin_len_le: "24 \<le> bin_len ext R" "bin_len ext R \<le> 45"
  by (auto simp: bin_len_def)

lemma received_fields:
  assumes "length R = 48" "length stack = 48"
  shows "length (received ext R stack) = 48"
    "k + n \<le> bin_len ext R \<Longrightarrow> get_raw k n (received ext R stack) = get_raw k n R"
    "nid_pf ext (received ext R stack) = (if nid_flags (nid_pf ext R) then nid_pf ext R else 0)"
proof -
  have l: "length (take (bin_len ext R) R) = bin_len ext R" using assms bin_len_le(2) [of ext R] by simp
  show 1: "length (received ext R stack) = 48"
    unfolding received_def using assms l bin_len_le(2) [of ext R] by (subst length_put_raw) (simp_all add: offs)
  have n: "received ext R stack ! k = (if k < bin_len ext R then R ! k else (put_raw (off_nid_pf False) [0] (put_raw (off_nid_pf True) [0] stack)) ! k)"
    if "k < 48" for k
    unfolding received_def using assms l that bin_len_le(2) [of ext R] by (subst nth_put_raw) (simp_all add: offs)
  show "k + n \<le> bin_len ext R \<Longrightarrow> get_raw k n (received ext R stack) = get_raw k n R"
    by (rule get_raw_eqI) (use assms 1 n bin_len_le(2) [of ext R] in auto)
  have "off_nid_pf ext < 48" by (simp add: offs)
  then show "nid_pf ext (received ext R stack) = (if nid_flags (nid_pf ext R) then nid_pf ext R else 0)"
    unfolding nid_pf_def n [OF \<open>off_nid_pf ext < 48\<close>] using assms by (auto simp: offs bin_len_def nid_pf_def nth_put_raw)
qed

lemma nid_flags_0: "\<not> nid_flags 0"
  by (simp add: nid_flags_def)

lemma received_invariant:
  assumes "length R = 48" "length stack = 48"
  shows "nid_part ext (received ext R stack) = nid_part ext R" "bin_len ext (received ext R stack) = bin_len ext R"
    "digest1 ext (received ext R stack) s1 = digest1 ext R s1"
proof -
  note f = received_fields [OF assms]
  show n: "nid_part ext (received ext R stack) = nid_part ext R"
    using f(2) [of "off_nid_i ext" 5 ext] by (auto simp: nid_part_def f(3) nid_flags_0 nonce_nid_extra_size_def bin_len_def off_nid_i_def)
  show "bin_len ext (received ext R stack) = bin_len ext R" by (simp add: bin_len_def f(3) nid_flags_0)
  show "digest1 ext (received ext R stack) s1 = digest1 ext R s1"
    unfolding digest1_def n using f(2) [of 0 8 ext] bin_len_le(1) [of ext R] by simp
qed

lemma base64_enc_eq: "base64_enc odd_dst src dlen =
    (if dlen < base64_enc_len (length src) then Inl (base64_enc_len (length src)) else Inr (b64_spec base64_enc_char 61 src))"
  by (simp add: Let_def base64_enc_def base64_enc_len_def put_entry base64_enc_loop_spec)

lemma base64_dec_eq: "src \<noteq> [] \<Longrightarrow> length src \<le> dlen \<Longrightarrow> base64_dec (b64_spec base64_enc_char 61 src) dlen = Inr src"
  using std.decode [of src dlen] by (simp add: base64_dec_def)

lemma bin_nonce_len: "get_bin_nonce_len cfg (nid_flags (nid_pf (cfg \<noteq> 0) raw)) = bin_len (cfg \<noteq> 0) raw"
  by (simp add: get_bin_nonce_len_def bin_len_def MAX_BIN_NONCE_LEN_def MAX_NOCFG_BIN_NONCE_LEN_def nonce_nid_extra_size_def)

lemma nonce_len_le: "get_nonce_len cfg b \<le> MAX_NONCE_LEN" "get_nonce_len cfg False \<le> get_nonce_len cfg b"
  by (simp_all add: get_nonce_len_def get_bin_nonce_len_def MAX_NONCE_LEN_def MAX_BIN_NONCE_LEN_def MAX_NOCFG_BIN_NONCE_LEN_def
      nonce_nid_extra_size_def base64_enc_len_def)

definition issued :: "u8 list \<Rightarrow> u32 \<Rightarrow> u32 \<Rightarrow> u32 \<Rightarrow> u32 \<Rightarrow> u8 \<Rightarrow> u8 list \<Rightarrow> u8 list \<Rightarrow> auth_msg \<Rightarrow> u8 list" where
  "issued stack cfg since expires n_id pf secret1 secret2 m =
     (let P = BIN_NONCE_PREPARE expires since n_id pf (cfg \<noteq> 0) stack
      in fill (cfg \<noteq> 0) (digest1 (cfg \<noteq> 0) P secret1) (digest2 cfg m secret2) P)"

lemma length_digests [simp]: "length (digest1 ext raw s1) = 16" "length (digest2 cfg m s2) = 16"
  by (simp_all add: digest1_def digest2_def)

lemma issued_fields:
  assumes "length stack = 48"
    and R_def: "R = issued stack cfg since expires n_id pf secret1 secret2 m"
  shows "length R = 48" "get_raw 0 4 R = htonl expires" "get_raw off_since 4 R = htonl since"
    "get_raw (off_nid_i (cfg \<noteq> 0)) 4 R = htonl n_id" "nid_pf (cfg \<noteq> 0) R = pf"
    "get_raw off_md5_1 16 R = digest1 (cfg \<noteq> 0) R secret1" "cfg \<noteq> 0 \<Longrightarrow> get_raw off_md5_2 16 R = digest2 cfg m secret2"
proof -
  note p = prepare_fields [OF assms(1), where e = expires and s = since and i = n_id and pf = pf and ext = "cfg \<noteq> 0"]
  note f = fill_fields [OF p(1)] fill_invariant [OF p(1)]
  show "length R = 48" "get_raw 0 4 R = htonl expires" "get_raw off_since 4 R = htonl since"
    "get_raw (off_nid_i (cfg \<noteq> 0)) 4 R = htonl n_id" "nid_pf (cfg \<noteq> 0) R = pf"
    "get_raw off_md5_1 16 R = digest1 (cfg \<noteq> 0) R secret1"
    unfolding R_def issued_def Let_def using p f(1,2,6,9)
    by (simp_all add: f(4) f(5) offs)
  show "cfg \<noteq> 0 \<Longrightarrow> get_raw off_md5_2 16 R = digest2 cfg m secret2"
    unfolding R_def issued_def Let_def by (simp add: fill_fields(3) prepare_fields(1) [OF assms(1)])
qed

lemma calc_nonce_eq:
  assumes "length stack = 48" "length buf = 64" "small_enough secret1" "small_enough secret2" "parts_ok m"
    and R_def: "R = issued stack cfg since expires n_id pf secret1 secret2 m"
  shows "calc_nonce stack buf odd_dst nonce_len cfg since expires n_id pf secret1 secret2 (Some m) =
    Some (if nonce_len < get_nonce_len cfg (pf AND of_nat NF_VALID_NC_ID \<noteq> 0)
          then Too_small (get_nonce_len cfg (pf AND of_nat NF_VALID_NC_ID \<noteq> 0))
          else if nonce_len < get_nonce_len cfg (nid_flags pf) then Assert_failed
          else Nonce (b64_spec base64_enc_char 61 (take (bin_len (cfg \<noteq> 0) R) R)))"
proof -
  let ?P = "BIN_NONCE_PREPARE expires since n_id pf (cfg \<noteq> 0) stack"
  note p = prepare_fields [OF assms(1), where e = expires and s = since and i = n_id and pf = pf and ext = "cfg \<noteq> 0"]
  have c: "calc_bin_nonce_md5 buf ?P cfg secret1 secret2 (Some m) = Some (R, bin_len (cfg \<noteq> 0) ?P)"
    using assms(5) by (subst calc_bin_nonce_md5_spec [OF assms(2) p(1) assms(3,4)]) (auto simp: R_def issued_def fill_def Let_def)
  have b: "bin_len (cfg \<noteq> 0) R = bin_len (cfg \<noteq> 0) ?P"
    unfolding R_def issued_def Let_def by (subst fill_invariant [OF p(1)]) simp_all
  have l: "length (take (bin_len (cfg \<noteq> 0) ?P) R) = get_bin_nonce_len cfg (nid_flags pf)"
    using bin_len_le(2) [of "cfg \<noteq> 0" ?P] issued_fields(1) [OF assms(1) R_def] bin_nonce_len [of cfg ?P] unfolding p(5) by simp
  have n: "nonce_len < MAX_NONCE_LEN \<and> nonce_len < get_nonce_len cfg x \<longleftrightarrow> nonce_len < get_nonce_len cfg x" for x
    using nonce_len_le(1) [of cfg x] by linarith
  have "base64_enc odd_dst (take (bin_len (cfg \<noteq> 0) ?P) R) nonce_len = (if nonce_len < get_nonce_len cfg (nid_flags pf)
      then Inl (get_nonce_len cfg (nid_flags pf)) else Inr (b64_spec base64_enc_char 61 (take (bin_len (cfg \<noteq> 0) R) R)))"
    unfolding base64_enc_eq l get_nonce_len_def b ..
  then show ?thesis unfolding calc_nonce_def Let_def n by (simp add: c)
qed

subsection \<open>Checking an issued nonce\<close>

lemma nid_flags_iff: "nid_flags pf \<longleftrightarrow> pf AND of_nat NF_VALID_NC_ID \<noteq> 0 \<or> pf AND of_nat NF_VALID_OT_ID \<noteq> 0"
  unfolding nid_flags_def bit.conj_disj_distrib by (simp add: or_eq_0_iff)

lemma recompute_issued:
  assumes "length stack = 48" "length stack' = 48" "length buf' = 64" "small_enough secret1" "small_enough secret2" "parts_ok m'"
    and R_def: "R = issued stack cfg since expires n_id pf secret1 secret2 m"
  shows "\<exists>raw2. calc_bin_nonce_md5 buf' (received (cfg \<noteq> 0) R stack') cfg secret1 secret2 (Some m') = Some (raw2, bin_len (cfg \<noteq> 0) R) \<and>
    get_raw off_md5_1 16 (received (cfg \<noteq> 0) R stack') = get_raw off_md5_1 16 raw2 \<and>
    (cfg \<noteq> 0 \<longrightarrow> (get_raw off_md5_2 16 (received (cfg \<noteq> 0) R stack') = get_raw off_md5_2 16 raw2 \<longleftrightarrow>
       digest2 cfg m secret2 = digest2 cfg m' secret2))"
proof -
  let ?x = "cfg \<noteq> 0" let ?raw = "received ?x R stack'"
  note i = issued_fields [OF assms(1) R_def] note r = received_fields [OF i(1) assms(2)]
  note v = received_invariant [OF i(1) assms(2)]
  have "calc_bin_nonce_md5 buf' ?raw cfg secret1 secret2 (Some m') =
      Some (fill ?x (digest1 ?x ?raw secret1) (digest2 cfg m' secret2) ?raw, bin_len ?x R)"
    using assms(6) v(2) [of ?x] by (subst calc_bin_nonce_md5_spec [OF assms(3) r(1) assms(4,5)]) (auto simp: fill_def)
  moreover have "get_raw off_md5_1 16 ?raw = digest1 ?x ?raw secret1"
    using r(2) [of off_md5_1 16 ?x] i(6) v(3) [of ?x secret1] bin_len_le(1) [of ?x R] by (simp add: offs)
  moreover have "get_raw off_md5_2 16 ?raw = digest2 cfg m secret2" if ?x
    using that r(2) [of off_md5_2 16 ?x] i(7) by (simp add: offs bin_len_def)
  ultimately show ?thesis using fill_fields(2,3) [OF r(1)] by auto
qed

lemma check_issued:
  assumes "length stack = 48" "length stack' = 48" "length buf' = 64" "small_enough secret1" "small_enough secret2" "parts_ok m'"
    and R_def: "R = issued stack cfg since expires n_id pf secret1 secret2 m"
    and "get_auth_checks q (Some m') = cfg"
    and "up_since q \<le> sint since" "sint since \<le> t + uint (nonce_auth_max_drift q)"
    and "otn_enabled q \<longrightarrow> pf AND of_nat NF_VALID_OT_ID \<noteq> 0"
  shows "check_nonce stack' buf' q t (Some (b64_spec base64_enc_char 61 (take (bin_len (cfg \<noteq> 0) R) R))) nc secret1 secret2 (Some m') s =
    check_counts q nc (ntohl (get_raw (off_nid_i (cfg \<noteq> 0)) 4 (received (cfg \<noteq> 0) R stack'))) (if nid_flags pf then pf else 0)
      (uint expires < t) (if cfg \<noteq> 0 \<and> digest2 cfg m secret2 \<noteq> digest2 cfg m' secret2 then 3 else 0) (cfg \<noteq> 0) s"
proof -
  let ?x = "cfg \<noteq> 0" let ?n = "bin_len ?x R" let ?raw = "received ?x R stack'"
  note i = issued_fields [OF assms(1) R_def] note r = received_fields [OF i(1) assms(2)]
  have n: "24 \<le> ?n" "?n \<le> 45" "length (take ?n R) = ?n" using bin_len_le [of ?x R] i(1) by auto
  have e: "base64_dec (b64_spec base64_enc_char 61 (take ?n R)) sizeof_bin_nonce = Inr (take ?n R)"
    using n by (intro base64_dec_eq) (auto simp: sizeof_bin_nonce_def)
  have l: "\<not> length (b64_spec base64_enc_char 61 (take ?n R)) < MIN_NONCE_LEN"
    using n(1) div_le_mono [of 26 "?n + 2" 3] unfolding length_b64_spec n(3) by (simp add: MIN_NONCE_LEN_def MIN_BIN_NONCE_LEN_def base64_enc_len_def)
  have sn: "get_bin_nonce_since ?raw = sint since"
    using r(2) [of off_since 4 ?x] n(1) i(3) by (simp add: get_bin_nonce_since_def offs)
  have ex: "get_bin_nonce_expire ?raw = uint expires"
    using r(2) [of 0 4 ?x] n(1) i(2) by (simp add: get_bin_nonce_expire_def)
  have pf: "nid_pf ?x ?raw = (if nid_flags pf then pf else 0)" using r(3) [of ?x] i(5) by simp
  have o: "\<not> (otn_enabled q \<and> nid_pf ?x ?raw AND of_nat NF_VALID_OT_ID = 0)"
    using assms(11) unfolding pf by (auto simp: nid_flags_iff)
  obtain raw2 where c: "calc_bin_nonce_md5 buf' ?raw cfg secret1 secret2 (Some m') = Some (raw2, ?n)"
      "get_raw off_md5_1 16 ?raw = get_raw off_md5_1 16 raw2"
      "?x \<Longrightarrow> get_raw off_md5_2 16 ?raw = get_raw off_md5_2 16 raw2 \<longleftrightarrow> digest2 cfg m secret2 = digest2 cfg m' secret2"
    using recompute_issued [OF assms(1-7)] by metis
  have ct: "check_counts q nc i' p' st (if ?n \<noteq> ?n then 2 else if get_raw off_md5_2 16 ?raw \<noteq> get_raw off_md5_2 16 raw2 then 3 else 0) ?x s =
      check_counts q nc i' p' st (if ?x \<and> digest2 cfg m secret2 \<noteq> digest2 cfg m' secret2 then 3 else 0) ?x s" for i' p' st
    using c(3) by (cases ?x) (simp_all add: check_counts_def Let_def)
  show ?thesis
    unfolding check_nonce_def Let_def option.case e sum.case assms(8) received_def [symmetric] sn is_bin_nonce_stale_def ex n(3)
    using l o assms(9,10) n(1) by (simp only: if_False c(1) Option.bind.bind_lunit prod.case c(2) if_True ct pf) (simp add: MIN_BIN_NONCE_LEN_def ct pf)
qed

lemma received_id:
  assumes "length stack = 48" "length stack' = 48" "nid_flags pf"
    and R_def: "R = issued stack cfg since expires n_id pf secret1 secret2 m"
  shows "ntohl (get_raw (off_nid_i (cfg \<noteq> 0)) 4 (received (cfg \<noteq> 0) R stack')) = n_id"
proof -
  note i = issued_fields [OF assms(1) R_def]
  have "off_nid_i (cfg \<noteq> 0) + 4 \<le> bin_len (cfg \<noteq> 0) R" using assms(3) i(5) by (simp add: bin_len_def offs)
  then show ?thesis using received_fields(2) [OF i(1) assms(2)] i(4) by simp
qed

lemma check_issued_old:
  assumes "length stack = 48" "length stack' = 48"
    and R_def: "R = issued stack cfg since expires n_id pf secret1 secret2 m"
    and "get_auth_checks q (Some m') = cfg" "sint since < up_since q"
  shows "check_nonce stack' buf' q t (Some (b64_spec base64_enc_char 61 (take (bin_len (cfg \<noteq> 0) R) R))) nc secret1 secret2 (Some m') s = Some (4, s)"
proof -
  let ?x = "cfg \<noteq> 0" let ?n = "bin_len ?x R" let ?raw = "received ?x R stack'"
  note i = issued_fields [OF assms(1) R_def] note r = received_fields [OF i(1) assms(2)]
  have n: "24 \<le> ?n" "?n \<le> 45" "length (take ?n R) = ?n" using bin_len_le [of ?x R] i(1) by auto
  have e: "base64_dec (b64_spec base64_enc_char 61 (take ?n R)) sizeof_bin_nonce = Inr (take ?n R)"
    using n by (intro base64_dec_eq) (auto simp: sizeof_bin_nonce_def)
  have l: "\<not> length (b64_spec base64_enc_char 61 (take ?n R)) < MIN_NONCE_LEN"
    using n(1) div_le_mono [of 26 "?n + 2" 3] unfolding length_b64_spec n(3) by (simp add: MIN_NONCE_LEN_def MIN_BIN_NONCE_LEN_def base64_enc_len_def)
  have sn: "get_bin_nonce_since ?raw = sint since"
    using r(2) [of off_since 4 ?x] n(1) i(3) by (simp add: get_bin_nonce_since_def offs)
  show ?thesis
    unfolding check_nonce_def Let_def option.case e sum.case assms(4) received_def [symmetric] sn n(3)
    using l assms(5) n(1) by (simp add: MIN_BIN_NONCE_LEN_def)
qed

subsection \<open>Counts and one-time nonces\<close>

definition nc_used :: "auth_params \<Rightarrow> u8 \<Rightarrow> string option \<Rightarrow> bool" where
  "nc_used q pf nc \<longleftrightarrow> nc_enabled q \<and> pf AND of_nat NF_VALID_NC_ID \<noteq> 0 \<and> nc \<noteq> None \<and> nc \<noteq> Some []"

lemma check_counts_plain:
  "\<not> nc_used q pf nc \<Longrightarrow> \<not> (otn_enabled q \<and> pf AND of_nat NF_VALID_OT_ID \<noteq> 0) \<Longrightarrow>
   check_counts q nc i pf st r x s = Some (if x \<and> r \<noteq> 0 then r else if st then 4 else 0, s)"
  by (cases nc) (auto simp: check_counts_def nc_used_def Let_def)

lemma check_counts_otn:
  "\<not> nc_used q pf nc \<Longrightarrow> otn_enabled q \<Longrightarrow> pf AND of_nat NF_VALID_OT_ID \<noteq> 0 \<Longrightarrow>
   check_counts q nc i pf st r x s = (case otn_check_id i (unat (pf AND of_nat NF_POOL_NO_MASK)) s of None \<Rightarrow> None
     | Some (c, s') \<Rightarrow> Some (if c \<noteq> OTN_OK then 4 else if x \<and> r \<noteq> 0 then r else if st then 4 else 0, s'))"
  by (cases nc) (auto simp: check_counts_def nc_used_def Let_def split: option.splits otn_check_ret.splits)

lemma check_counts_nc:
  "nc_used q pf (Some v) \<Longrightarrow>
   check_counts q (Some v) i pf st r x s = (if \<not> all_digits v then Some (5, s)
     else case nc_check_val i (unat (pf AND of_nat NF_POOL_NO_MASK)) (of_nat (dec_value v)) s of None \<Rightarrow> None
          | Some (c, s') \<Rightarrow> Some (if c = NC_OK \<and> \<not> st then 0 else 4, s'))"
proof -
  assume u: "nc_used q pf (Some v)"
  have w: "of_nat (dec_value v mod 2 ^ 32) = (of_nat (dec_value v) :: u32)"
    by (simp add: word_of_nat_eq_iff take_bit_eq_mod)
  show ?thesis
  proof (cases "all_digits v")
    case True
    then show ?thesis
      using u w str2int_digits [OF True] by (auto simp: check_counts_def nc_used_def Let_def split: option.splits nc_check_ret.splits)
  next
    case False
    then have "fst (str2int v) = -1" using str2int_loop_bad [of v 0] by (simp add: str2int_def)
    then show ?thesis using u False by (cases "str2int v") (simp add: check_counts_def nc_used_def Let_def)
  qed
qed

lemma nc_used_flags: "nc_used q (if nid_flags pf then pf else 0) nc \<longleftrightarrow> nc_used q pf nc"
  by (auto simp: nc_used_def nid_flags_iff)

section \<open>Properties\<close>

text \<open>C6: a nonce that \<^verbatim>\<open>calc_nonce\<close> produced for one request and that comes back in another of the same kind, with the
  creation time neither before the start of the server nor further in the future than the accepted drift, is
  judged by \<^verbatim>\<open>check_nonce\<close> as follows.  Without nonce counts and one-time nonces: 3 if the digests of the checked parts of the
  two requests differ, else 4 if it has expired, else 0.  With a nonce count: 5 if it is not a decimal number,
  4 if the count array does not accept it or the nonce has expired, else 0, and the count array is updated.
  With one-time nonces only: 4 unless the array of bits accepts the id, and the checks as before.\<close>

theorem nonce_roundtrip:
  assumes "length stack = 48" "length stack' = 48" "length buf = 64" "length buf' = 64"
    and "small_enough secret1" "small_enough secret2" "parts_ok m" "parts_ok m'"
    and "get_auth_checks q (Some m') = cfg"
    and "calc_nonce stack buf odd_dst nonce_len cfg since expires n_id pf secret1 secret2 (Some m) = Some (Nonce e)"
    and "up_since q \<le> sint since" "sint since \<le> t + uint (nonce_auth_max_drift q)"
    and "otn_enabled q \<longrightarrow> pf AND of_nat NF_VALID_OT_ID \<noteq> 0"
  shows
    "(\<not> nc_used q pf nc \<and> \<not> otn_enabled q \<longrightarrow>
        check_nonce stack' buf' q t (Some e) nc secret1 secret2 (Some m') s =
          Some (if cfg \<noteq> 0 \<and> digest2 cfg m secret2 \<noteq> digest2 cfg m' secret2 then 3 else if uint expires < t then 4 else 0, s)) \<and>
     (nc_used q pf nc \<and> nc = Some v \<longrightarrow>
        check_nonce stack' buf' q t (Some e) nc secret1 secret2 (Some m') s =
          (if \<not> all_digits v then Some (5, s)
           else case nc_check_val n_id (unat (pf AND of_nat NF_POOL_NO_MASK)) (of_nat (dec_value v)) s of
                  None \<Rightarrow> None
                | Some (r, s') \<Rightarrow> Some (if r = NC_OK \<and> \<not> uint expires < t then 0 else 4, s'))) \<and>
     (\<not> nc_used q pf nc \<and> otn_enabled q \<longrightarrow>
        check_nonce stack' buf' q t (Some e) nc secret1 secret2 (Some m') s =
          (case otn_check_id n_id (unat (pf AND of_nat NF_POOL_NO_MASK)) s of
             None \<Rightarrow> None
           | Some (r, s') \<Rightarrow>
               Some (if r \<noteq> OTN_OK then 4 else if cfg \<noteq> 0 \<and> digest2 cfg m secret2 \<noteq> digest2 cfg m' secret2 then 3
                     else if uint expires < t then 4 else 0, s')))"
proof -
  define R where R_def: "R = issued stack cfg since expires n_id pf secret1 secret2 m"
  have e: "e = b64_spec base64_enc_char 61 (take (bin_len (cfg \<noteq> 0) R) R)"
    using assms(10) calc_nonce_eq [OF assms(1,3,5,6,7) R_def, of odd_dst nonce_len] by (simp split: if_splits)
  note c = check_issued [OF assms(1,2,4,5,6,8) R_def assms(9,11,12,13), of nc s, folded e]
  have id: "nid_flags pf \<Longrightarrow> ntohl (get_raw (off_nid_i (cfg \<noteq> 0)) 4 (received (cfg \<noteq> 0) R stack')) = n_id"
    using received_id [OF assms(1,2) _ R_def] by blast
  have flags: "nc_used q pf nc \<Longrightarrow> nid_flags pf" "otn_enabled q \<Longrightarrow> nid_flags pf"
    using assms(13) by (auto simp: nc_used_def nid_flags_iff)
  show ?thesis unfolding c
  proof (intro conjI impI)
    assume "\<not> nc_used q pf nc \<and> \<not> otn_enabled q"
    then show "check_counts q nc (ntohl (get_raw (off_nid_i (cfg \<noteq> 0)) 4 (received (cfg \<noteq> 0) R stack'))) (if nid_flags pf then pf else 0)
      (uint expires < t) (if cfg \<noteq> 0 \<and> digest2 cfg m secret2 \<noteq> digest2 cfg m' secret2 then 3 else 0) (cfg \<noteq> 0) s =
      Some (if cfg \<noteq> 0 \<and> digest2 cfg m secret2 \<noteq> digest2 cfg m' secret2 then 3 else if uint expires < t then 4 else 0, s)"
      by (subst check_counts_plain) (auto simp: nc_used_flags)
  qed (use flags id assms(13) in \<open>auto simp: check_counts_nc check_counts_otn split: option.splits\<close>)
qed

text \<open>Witness: a nonce with digests of the request URI and the source address, checked 10 seconds later.\<close>

definition msg0 :: auth_msg where
  "msg0 = \<lparr>is_register = True, msg_to = To_missing, ruri = [115, 105, 112], callid = None, from_tag = None, src_ip = [10, 0, 0, 1]\<rparr>"

definition params0 :: auth_params where
  "params0 = \<lparr>auth_checks_reg = 9, auth_checks_ood = 0, auth_checks_ind = 0, nonce_auth_max_drift = 3,
     nc_enabled = True, otn_enabled = False, up_since = 1000\<rparr>"

lemma msg0_ok: "parts_ok msg0" "get_auth_checks params0 (Some msg0) = 9" "length (replicate n (0 :: u8)) = n" "small_enough [1 :: u8]" "small_enough [2 :: u8]"
  by (simp_all add: parts_ok_def small_enough_def msg0_def params0_def get_auth_checks_def)

lemma calc_nonce0: "pf AND of_nat NF_VALID_OT_ID = 0 \<Longrightarrow>
    \<exists>e. calc_nonce (replicate 48 0) (replicate 64 0) False 60 9 since 5000 7 pf [1] [2] (Some msg0) = Some (Nonce e)"
proof -
  assume pf: "pf AND of_nat NF_VALID_OT_ID = 0"
  have "\<not> 60 < get_nonce_len 9 b" for b
    using nonce_len_le(1) [of 9 b] by (simp add: MAX_NONCE_LEN_def MAX_BIN_NONCE_LEN_def base64_enc_len_def)
  then show ?thesis using msg0_ok by (subst calc_nonce_eq [OF _ _ _ _ _ refl]) simp_all
qed

theorem nonce_roundtrip_witness:
  "\<exists>e. calc_nonce (replicate 48 0) (replicate 64 0) False 60 9 2000 5000 7 0 [1] [2] (Some msg0) = Some (Nonce e) \<and>
     check_nonce (replicate 48 0) (replicate 64 0) params0 2010 (Some e) None [1] [2] (Some msg0) nonce_start = Some (0, nonce_start)"
proof -
  obtain e where e: "calc_nonce (replicate 48 0) (replicate 64 0) False 60 9 2000 5000 7 0 [1] [2] (Some msg0) = Some (Nonce e)"
    using calc_nonce0 [of 0] by auto
  have "\<not> nc_used params0 0 None" "\<not> otn_enabled params0" "up_since params0 \<le> sint (2000 :: u32)" "sint (2000 :: u32) \<le> 2010 + uint (nonce_auth_max_drift params0)"
    by (simp_all add: nc_used_def params0_def)
  then have "check_nonce (replicate 48 0) (replicate 64 0) params0 2010 (Some e) None [1] [2] (Some msg0) nonce_start = Some (0, nonce_start)"
    using nonce_roundtrip [OF msg0_ok(3) msg0_ok(3) msg0_ok(3) msg0_ok(3) msg0_ok(4) msg0_ok(5) msg0_ok(1) msg0_ok(1) msg0_ok(2) e] by simp
  then show ?thesis using e by blast
qed

lemma recompute:
  assumes "length buf = 64" "length raw = 48" "small_enough secret1" "small_enough secret2" "\<forall>m. msg = Some m \<longrightarrow> parts_ok m"
    and "msg = None \<Longrightarrow> cfg = 0"
  shows "\<exists>raw2 len2. calc_bin_nonce_md5 buf raw cfg secret1 secret2 msg = Some (raw2, len2) \<and>
    get_raw off_md5_1 16 raw2 = digest1 (cfg \<noteq> 0) raw secret1 \<and>
    (cfg \<noteq> 0 \<longrightarrow> len2 = bin_len True raw \<and> (\<exists>m. msg = Some m \<and> get_raw off_md5_2 16 raw2 = digest2 cfg m secret2))"
proof (cases "cfg = 0")
  case True
  then show ?thesis using assms(2,5) by (subst calc_bin_nonce_md5_spec [OF assms(1-4)]) (auto simp: get_put_same offs)
next
  case False
  then obtain m where "msg = Some m" using assms(6) by auto
  then show ?thesis using False assms(2,5)
    by (subst calc_bin_nonce_md5_spec [OF assms(1-4)]) (auto simp: get_put_same get_put_other offs)
qed

lemma check_counts_accept:
  assumes "check_counts q nc i pf st r x s = Some (0, s')" "otn_enabled q \<longrightarrow> pf AND of_nat NF_VALID_OT_ID \<noteq> 0"
  shows "\<not> st \<and> (if nc_used q pf nc
      then \<exists>v. nc = Some v \<and> all_digits v \<and> nc_check_val i (unat (pf AND of_nat NF_POOL_NO_MASK)) (of_nat (dec_value v)) s = Some (NC_OK, s')
      else (x \<longrightarrow> r = 0) \<and> (otn_enabled q \<longrightarrow> otn_check_id i (unat (pf AND of_nat NF_POOL_NO_MASK)) s = Some (OTN_OK, s')) \<and>
           (\<not> otn_enabled q \<longrightarrow> s' = s))"
proof (cases "nc_used q pf nc")
  case True
  then obtain v where "nc = Some v" by (auto simp: nc_used_def)
  then show ?thesis using True assms check_counts_nc [of q pf v i st r x s] by (auto split: option.splits if_splits)
next
  case False
  then show ?thesis using assms check_counts_plain [OF False, of i st r x s] check_counts_otn [OF False, of i st r x s]
    by (cases "otn_enabled q") (auto split: option.splits if_splits)
qed


lemma accept0: "\<exists>e. check_nonce (replicate 48 0) (replicate 64 0) params0 2010 (Some e) None [1] [2] (Some msg0) nonce_start = Some (0, nonce_start)"
proof -
  have p: "\<not> nc_used params0 pf None" "\<not> otn_enabled params0" "up_since params0 \<le> sint (2000 :: u32)"
      "sint (2000 :: u32) \<le> 2010 + uint (nonce_auth_max_drift params0)" for pf
    by (simp_all add: nc_used_def params0_def)
  then have "otn_enabled params0 \<longrightarrow> (0 :: u8) AND of_nat NF_VALID_OT_ID \<noteq> 0" by simp
  then show ?thesis
    using check_issued [OF msg0_ok(3) msg0_ok(3) msg0_ok(3) msg0_ok(4) msg0_ok(5) msg0_ok(1) refl msg0_ok(2) p(3,4),
        where pf = 0 and expires = 5000 and nc = None and s = nonce_start and m = msg0] p(1,2) check_counts_plain
    by (intro exI) auto
qed


text \<open>C16: \<^verbatim>\<open>calc_nonce\<close> reports the needed length for a buffer that is too small and else writes a nonce of exactly the configured
  length, at most \<^verbatim>\<open>MAX_NONCE_LEN\<close>; but the length it checks ignores the flag of one-time nonces, so that with
  these alone a buffer of five bytes less than needed passes the check and then fails the assertion.\<close>

theorem calc_nonce_spec:
  assumes "length stack = 48" "length buf = 64" "small_enough secret1" "small_enough secret2" "parts_ok m"
  shows "\<exists>r. calc_nonce stack buf odd_dst nonce_len cfg since expires n_id pf secret1 secret2 (Some m) = Some r \<and>
    (nonce_len < get_nonce_len cfg (pf AND of_nat NF_VALID_NC_ID \<noteq> 0) \<longrightarrow>
       r = Too_small (get_nonce_len cfg (pf AND of_nat NF_VALID_NC_ID \<noteq> 0))) \<and>
    (get_nonce_len cfg (nid_flags pf) \<le> nonce_len \<longrightarrow>
       (\<exists>e. r = Nonce e \<and> length e = get_nonce_len cfg (nid_flags pf) \<and> length e \<le> MAX_NONCE_LEN)) \<and>
    (pf AND of_nat NF_VALID_NC_ID = 0 \<and> pf AND of_nat NF_VALID_OT_ID \<noteq> 0 \<and> get_nonce_len cfg False \<le> nonce_len \<and>
       nonce_len < get_nonce_len cfg True \<longrightarrow> r = Assert_failed)"
proof -
  let ?R = "issued stack cfg since expires n_id pf secret1 secret2 m"
  note i = issued_fields [OF assms(1) refl, of cfg since expires n_id pf secret1 secret2 m]
  have "length (take (bin_len (cfg \<noteq> 0) ?R) ?R) = get_bin_nonce_len cfg (nid_flags pf)"
    using bin_nonce_len [of cfg ?R] bin_len_le(2) [of "cfg \<noteq> 0" ?R] unfolding i(5) by (simp add: i(1))
  then have "length (b64_spec base64_enc_char 61 (take (bin_len (cfg \<noteq> 0) ?R) ?R)) = get_nonce_len cfg (nid_flags pf)"
    by (simp only: length_b64_spec get_nonce_len_def base64_enc_len_def)
  moreover have "get_nonce_len cfg (pf AND of_nat NF_VALID_NC_ID \<noteq> 0) \<le> get_nonce_len cfg (nid_flags pf)"
    using nonce_len_le(2) [of cfg "nid_flags pf"] by (cases "pf AND of_nat NF_VALID_NC_ID \<noteq> 0") (simp_all add: nid_flags_iff)
  ultimately show ?thesis
    unfolding calc_nonce_eq [OF assms refl] using nonce_len_le(1) [of cfg "nid_flags pf"] by (auto simp: nid_flags_iff)
qed

text \<open>Witness: an id for one-time nonces only, and a buffer of 32 bytes where 40 are needed.\<close>

theorem calc_nonce_spec_witness:
  "calc_nonce (replicate 48 0) (replicate 64 0) False 32 0 2000 5000 7 64 [1] [2] (Some msg0) = Some Assert_failed"
proof -
  have "(64 :: u8) AND of_nat NF_VALID_NC_ID = 0 \<and> (64 :: u8) AND of_nat NF_VALID_OT_ID \<noteq> 0 \<and> get_nonce_len 0 False \<le> 32 \<and> 32 < get_nonce_len 0 True"
    by (simp add: NF_VALID_NC_ID_def NF_VALID_OT_ID_def get_nonce_len_def get_bin_nonce_len_def MAX_NOCFG_BIN_NONCE_LEN_def
        nonce_nid_extra_size_def base64_enc_len_def)
  then show ?thesis
    using calc_nonce_spec [OF msg0_ok(3) msg0_ok(3) msg0_ok(4) msg0_ok(5) msg0_ok(1), of False 32 0 2000 5000 7 64] by blast
qed



end
