(* ===== verification/AuthDigest.thy ===== *)
theory AuthDigest
  imports AuthNonce
begin

text \<open>
  Digest authentication of the \<^verbatim>\<open>auth\<close> module: the digests of \<^verbatim>\<open>rfc2617.c\<close>, the challenge header of \<^verbatim>\<open>challenge.c\<close> and
  the checks before and after authentication of \<^verbatim>\<open>api.c\<close>, all in \<^verbatim>\<open>src/sip_router/modules/auth\<close>, with the sanity check
  of credentials in \<^verbatim>\<open>src/sip_router/parser/digest/digest.c\<close>.

  Strings are lists of bytes, a null string is \<open>None\<close>.  The result of the search for credentials and the outcome
  of the memory allocation and of storing the attribute are parameters.
\<close>

section \<open>Definitions\<close>

subsection \<open>Digests\<close>

definition bytes :: "string \<Rightarrow> u8 list" where "bytes s = map byte_of s"

definition HASHLEN :: nat where "HASHLEN = 16"
definition HASHHEXLEN :: nat where "HASHHEXLEN = 32"

definition hex_nibble :: "u8 \<Rightarrow> u8" where
  "hex_nibble j = (if j \<le> 9 then j + 48 else j + 97 - 10)"

text \<open>The hexadecimal string with its terminating zero.\<close>

definition cvt_hex :: "u8 list \<Rightarrow> u8 list" where
  "cvt_hex b = concat (map (\<lambda>x. [hex_nibble (drop_bit 4 x AND 0xf), hex_nibble (x AND 0xf)]) (take HASHLEN b)) @ [0]"

datatype ha_alg = HA_MD5 | HA_MD5_SESS

definition colon :: "u8 list" where "colon = [58]"

definition calc_HA1 :: "u8 list \<Rightarrow> ha_alg \<Rightarrow> u8 list \<Rightarrow> u8 list \<Rightarrow> u8 list \<Rightarrow> u8 list \<Rightarrow> u8 list \<Rightarrow> u8 list option" where
  "calc_HA1 buf alg username realm password nonce cnonce =
     Option.bind (md5_chunks (MD5Init buf) [username, colon, realm, colon, password]) (\<lambda>(ha1, ctx).
     Option.bind (if alg = HA_MD5_SESS
                  then map_option fst (md5_chunks (MD5Init (buffer ctx)) [ha1, colon, nonce, colon, cnonce])
                  else Some ha1) (\<lambda>ha1.
     Some (cvt_hex ha1)))"

definition calc_response ::
  "u8 list \<Rightarrow> u8 list \<Rightarrow> u8 list \<Rightarrow> u8 list \<Rightarrow> u8 list \<Rightarrow> u8 list \<Rightarrow> bool \<Rightarrow> u8 list \<Rightarrow> u8 list \<Rightarrow> u8 list \<Rightarrow> u8 list option" where
  "calc_response buf ha1 nonce nc cnonce qop auth_int method uri hentity =
     Option.bind (md5_chunks (MD5Init buf) ([method, colon, uri] @
         (if auth_int then [colon, take HASHHEXLEN hentity] else []))) (\<lambda>(ha2, ctx).
     let ha2hex = cvt_hex ha2 in
     Option.bind (md5_chunks (MD5Init (buffer ctx)) ([take HASHHEXLEN ha1, colon, nonce, colon] @
         (if length qop > 0 then [nc, colon, cnonce, colon, qop, colon] else []) @ [take HASHHEXLEN ha2hex])) (\<lambda>(resp, _).
     Some (cvt_hex resp)))"

subsection \<open>The challenge\<close>

definition QOP_PARAM_START :: "u8 list" where "QOP_PARAM_START = bytes '', qop='' @ [34]"
definition QOP_PARAM_END :: "u8 list" where "QOP_PARAM_END = [34]"
definition STALE_PARAM :: "u8 list" where "STALE_PARAM = bytes '', stale=true''"
definition DIGEST_REALM :: "u8 list" where "DIGEST_REALM = bytes '': Digest realm='' @ [34]"
definition DIGEST_NONCE :: "u8 list" where "DIGEST_NONCE = [34] @ bytes '', nonce='' @ [34]"
definition DIGEST_ALGORITHM :: "u8 list" where "DIGEST_ALGORITHM = bytes '', algorithm=''"
definition CRLF :: "u8 list" where "CRLF = [13, 10]"

record challenge_conf =
  secret1 :: "u8 list"
  secret2 :: "u8 list"
  nonce_expire :: u32
  qop_str :: "u8 list option" \<comment> \<open>\<open>None\<close> is \<^verbatim>\<open>QOP_UNSPEC\<close>\<close>
  proxy_challenge_header :: "u8 list"
  www_challenge_header :: "u8 list"

text \<open>The length that is allocated.\<close>

definition challenge_len :: "challenge_conf \<Rightarrow> u8 list \<Rightarrow> u8 list \<Rightarrow> u8 list option \<Rightarrow> u8 list option \<Rightarrow> bool \<Rightarrow> nat \<Rightarrow> nat" where
  "challenge_len c hfn realm nonce algorithm stale nonce_len =
     length hfn + (length DIGEST_REALM + length realm + length DIGEST_NONCE) +
     (case nonce of Some n \<Rightarrow> length n + 1 | None \<Rightarrow> nonce_len + 1) +
     (if stale then length STALE_PARAM else 0) +
     (case algorithm of Some a \<Rightarrow> length DIGEST_ALGORITHM + length a | None \<Rightarrow> 0) +
     (case qop_str c of Some v \<Rightarrow> length QOP_PARAM_START + length v + length QOP_PARAM_END | None \<Rightarrow> 0) +
     length CRLF"

text \<open>What is written with a nonce.\<close>

definition challenge_text :: "challenge_conf \<Rightarrow> u8 list \<Rightarrow> u8 list \<Rightarrow> u8 list \<Rightarrow> u8 list option \<Rightarrow> bool \<Rightarrow> u8 list" where
  "challenge_text c hfn realm nonce algorithm stale =
     hfn @ DIGEST_REALM @ realm @ DIGEST_NONCE @ nonce @ [34] @
     (case qop_str c of Some v \<Rightarrow> QOP_PARAM_START @ v @ QOP_PARAM_END | None \<Rightarrow> []) @
     (if stale then STALE_PARAM else []) @
     (case algorithm of Some a \<Rightarrow> DIGEST_ALGORITHM @ a | None \<Rightarrow> []) @ CRLF"

text \<open>The return code, the header field stored in the attribute, and the state; \<open>None\<close> is an access out of
  bounds or a failed assertion.\<close>

definition build_challenge_hf ::
  "u8 list \<Rightarrow> u8 list \<Rightarrow> bool \<Rightarrow> bool \<Rightarrow> bool \<Rightarrow> auth_params \<Rightarrow> challenge_conf \<Rightarrow> nat \<Rightarrow> u32 \<Rightarrow>
   auth_msg option \<Rightarrow> bool \<Rightarrow> u8 list \<Rightarrow> u8 list option \<Rightarrow> u8 list option \<Rightarrow> bool \<Rightarrow> nonce_state \<Rightarrow>
   (int \<times> u8 list option \<times> nonce_state) option" where
  "build_challenge_hf stack buf odd_dst mem_ok avp_ok q c process_no t msg stale realm nonce algorithm proxy s =
     (let hfn = (if proxy then proxy_challenge_header c else www_challenge_header c);
          cfg = get_auth_checks q msg;
          nonce_len = get_nonce_len cfg (nc_enabled q \<or> otn_enabled q);
          finish = (\<lambda>n s. if avp_ok then Some (0, Some (challenge_text c hfn realm n algorithm stale), s) else Some (-1, None, s))
      in if \<not> mem_ok then Some (-1, None, s)
         else case nonce of
           Some n \<Rightarrow> finish n s
         | None \<Rightarrow>
             Option.bind (challenge_id process_no (nc_enabled q) (otn_enabled q) s) (\<lambda>((n_id, pool), s).
             Option.bind (calc_nonce stack buf odd_dst nonce_len cfg t (t + nonce_expire c) n_id (of_nat pool) (secret1 c) (secret2 c) msg) (\<lambda>r.
             case r of
               Nonce n \<Rightarrow> finish n s
             | Too_small _ \<Rightarrow> Some (-1, None, s)
             | Assert_failed \<Rightarrow> None)))"

subsection \<open>Credentials\<close>

datatype qop_type = QOP_UNSPEC | QOP_AUTH | QOP_AUTHINT | QOP_OTHER

record dig_cred =
  c_user :: "u8 list option"
  c_realm :: "u8 list option"
  c_nonce :: "u8 list option"
  c_uri :: "u8 list option"
  c_response :: "u8 list option"
  c_cnonce :: "u8 list option"
  c_qop :: qop_type
  c_nc :: "string option"

record auth_body =
  digest :: dig_cred
  stale :: bool

definition check_dig_cred :: "dig_cred \<Rightarrow> nat" where
  "check_dig_cred c =
     (if c_user c = None then 1 else 0) + (if c_realm c = None then 2 else 0) + (if c_nonce c = None then 4 else 0) +
     (if c_uri c = None then 8 else 0) + (if c_response c = None then 16 else 0) +
     (if c_qop c = QOP_AUTH \<or> c_qop c = QOP_AUTHINT
      then (if c_cnonce c = None then 32 else 0) + (if c_nc c = None then 64 else 0) else 0)"

datatype auth_result = ERROR | NOT_AUTHENTICATED | DO_AUTHENTICATION | AUTHENTICATED | BAD_CREDENTIALS

text \<open>Whether to go on (\<open>None\<close>) or the result, the credentials and the state.\<close>

definition auth_check_hdr_md5 ::
  "u8 list \<Rightarrow> u8 list \<Rightarrow> auth_params \<Rightarrow> challenge_conf \<Rightarrow> int \<Rightarrow> auth_msg option \<Rightarrow> auth_body \<Rightarrow> nonce_state \<Rightarrow>
   (auth_result option \<times> auth_body \<times> nonce_state) option" where
  "auth_check_hdr_md5 stack buf q c t msg a s =
     (if check_dig_cred (digest a) \<noteq> 0 then Some (Some BAD_CREDENTIALS, a, s)
      else Option.bind (check_nonce stack buf q t (c_nonce (digest a)) (c_nc (digest a)) (secret1 c) (secret2 c) msg s) (\<lambda>(ret, s).
        if ret \<noteq> 0 then
          (if ret = 3 \<or> ret = 4 then Some (None, a\<lparr>stale := True\<rparr>, s)
           else Some (Some NOT_AUTHENTICATED, a, s))
        else Some (None, a, s)))"

datatype req_method = METHOD_ACK | METHOD_CANCEL | METHOD_PRACK | METHOD_PLAIN

text \<open>\<open>creds\<close> is the result of \<^verbatim>\<open>find_credentials\<close>: an error, no credentials for the realm, or the parsed ones.\<close>

datatype find_result = Find_error | Find_none | Found auth_body

definition pre_auth ::
  "u8 list \<Rightarrow> u8 list \<Rightarrow> auth_params \<Rightarrow> challenge_conf \<Rightarrow> int \<Rightarrow> req_method \<Rightarrow> auth_msg option \<Rightarrow> find_result \<Rightarrow> nonce_state \<Rightarrow>
   (auth_result \<times> auth_body option \<times> nonce_state) option" where
  "pre_auth stack buf q c t meth msg creds s =
     (if meth = METHOD_ACK \<or> meth = METHOD_CANCEL then Some (AUTHENTICATED, None, s)
      else if meth = METHOD_PRACK then Some (AUTHENTICATED, None, s)
      else case creds of
        Find_error \<Rightarrow> Some (ERROR, None, s)
      | Find_none \<Rightarrow> Some (NOT_AUTHENTICATED, None, s)
      | Found a \<Rightarrow>
          Option.bind (auth_check_hdr_md5 stack buf q c t msg a s) (\<lambda>(r, a, s).
          Some (case r of Some rv \<Rightarrow> rv | None \<Rightarrow> DO_AUTHENTICATION, Some a, s)))"

text \<open>The result after the response was found correct; \<open>mark_ok\<close> is the outcome of \<^verbatim>\<open>mark_authorized_cred\<close>.\<close>

definition post_auth :: "bool \<Rightarrow> req_method \<Rightarrow> auth_body \<Rightarrow> auth_result \<times> auth_body" where
  "post_auth mark_ok meth a =
     (let res = (if stale a \<and> meth \<noteq> METHOD_ACK \<and> meth \<noteq> METHOD_CANCEL then NOT_AUTHENTICATED else AUTHENTICATED)
      in (if \<not> mark_ok then ERROR else res, a))"

section \<open>Lemmas\<close>

lemma pool_byte:
  assumes "p < 64"
  shows "unat (of_nat (p OR NF_VALID_NC_ID) AND of_nat NF_POOL_NO_MASK :: u8) = p" "(of_nat (p OR NF_VALID_NC_ID) :: u8) AND of_nat NF_VALID_NC_ID \<noteq> 0"
    "unat (of_nat (p OR NF_VALID_OT_ID) AND of_nat NF_POOL_NO_MASK :: u8) = p" "(of_nat (p OR NF_VALID_OT_ID) :: u8) AND of_nat NF_VALID_OT_ID \<noteq> 0"
proof -
  have "list_all (\<lambda>p. unat (of_nat (p OR NF_VALID_NC_ID) AND of_nat NF_POOL_NO_MASK :: u8) = p \<and>
      (of_nat (p OR NF_VALID_NC_ID) :: u8) AND of_nat NF_VALID_NC_ID \<noteq> 0 \<and>
      unat (of_nat (p OR NF_VALID_OT_ID) AND of_nat NF_POOL_NO_MASK :: u8) = p \<and>
      (of_nat (p OR NF_VALID_OT_ID) :: u8) AND of_nat NF_VALID_OT_ID \<noteq> 0) [0..<64]" by code_simp
  then show "unat (of_nat (p OR NF_VALID_NC_ID) AND of_nat NF_POOL_NO_MASK :: u8) = p" "(of_nat (p OR NF_VALID_NC_ID) :: u8) AND of_nat NF_VALID_NC_ID \<noteq> 0"
    "unat (of_nat (p OR NF_VALID_OT_ID) AND of_nat NF_POOL_NO_MASK :: u8) = p" "(of_nat (p OR NF_VALID_OT_ID) :: u8) AND of_nat NF_VALID_OT_ID \<noteq> 0"
    using assms unfolding list_all_iff by auto
qed

lemma challenge_text_length:
  "length (challenge_text c hfn realm n algorithm st) = challenge_len c hfn realm None algorithm st (length n)"
  by (simp add: challenge_text_def challenge_len_def split: option.splits)

text \<open>The nonce of a challenge, and what the check makes of it.\<close>

definition chal_nonce :: "u8 list \<Rightarrow> challenge_conf \<Rightarrow> u32 \<Rightarrow> u32 \<Rightarrow> u32 \<Rightarrow> u8 \<Rightarrow> auth_msg \<Rightarrow> u8 list" where
  "chal_nonce stack c cfg t n_id pf m =
     (let R = issued stack cfg t (t + nonce_expire c) n_id pf (secret1 c) (secret2 c) m
      in b64_spec base64_enc_char 61 (take (bin_len (cfg \<noteq> 0) R) R))"

definition conf_ok :: "challenge_conf \<Rightarrow> bool" where
  "conf_ok c \<longleftrightarrow> small_enough (secret1 c) \<and> small_enough (secret2 c)"

lemma length_chal_nonce:
  assumes "length stack = 48"
  shows "length (chal_nonce stack c cfg t n_id pf m) = get_nonce_len cfg (nid_flags pf)"
proof -
  let ?R = "issued stack cfg t (t + nonce_expire c) n_id pf (secret1 c) (secret2 c) m"
  note i = issued_fields [OF assms refl, of cfg t "t + nonce_expire c" n_id pf "secret1 c" "secret2 c" m]
  have "length (take (bin_len (cfg \<noteq> 0) ?R) ?R) = get_bin_nonce_len cfg (nid_flags pf)"
    using bin_nonce_len [of cfg ?R] bin_len_le(2) [of "cfg \<noteq> 0" ?R] unfolding i(5) by (simp add: i(1))
  then show ?thesis by (simp only: chal_nonce_def Let_def length_b64_spec get_nonce_len_def base64_enc_len_def)
qed

lemma build_challenge_ok:
  assumes "length stack = 48" "length buf = 64" "conf_ok c" "parts_ok m"
    and "challenge_id process_no (nc_enabled q) (otn_enabled q) s = Some ((n_id, pool), s')"
    and "nid_flags (of_nat pool) \<longleftrightarrow> nc_enabled q \<or> otn_enabled q"
  shows "build_challenge_hf stack buf odd_dst True True q c process_no t (Some m) st realm None algorithm proxy s =
    Some (0, Some (challenge_text c (if proxy then proxy_challenge_header c else www_challenge_header c) realm
      (chal_nonce stack c (get_auth_checks q (Some m)) t n_id (of_nat pool) m) algorithm st), s')"
proof -
  let ?cfg = "get_auth_checks q (Some m)" let ?pf = "of_nat pool :: u8"
  have "get_nonce_len ?cfg (?pf AND of_nat NF_VALID_NC_ID \<noteq> 0) \<le> get_nonce_len ?cfg (nid_flags ?pf)"
    using nonce_len_le(2) [of ?cfg "nid_flags ?pf"] by (cases "?pf AND of_nat NF_VALID_NC_ID \<noteq> 0") (simp_all add: nid_flags_iff)
  then have "calc_nonce stack buf odd_dst (get_nonce_len ?cfg (nc_enabled q \<or> otn_enabled q)) ?cfg t (t + nonce_expire c) n_id ?pf
      (secret1 c) (secret2 c) (Some m) = Some (Nonce (chal_nonce stack c ?cfg t n_id ?pf m))"
    using assms(3,6) by (subst calc_nonce_eq [OF assms(1,2) _ _ assms(4) refl]) (auto simp: conf_ok_def chal_nonce_def Let_def)
  then show ?thesis by (simp add: build_challenge_hf_def Let_def assms(5))
qed

lemma check_chal_nonce:
  assumes "length stack = 48" "length stack' = 48" "length buf' = 64" "conf_ok c" "parts_ok m'"
    and "get_auth_checks q (Some m') = cfg" "nid_flags pf"
    and "up_since q \<le> sint t" "sint t \<le> t' + uint (nonce_auth_max_drift q)" "t' \<le> uint (t + nonce_expire c)"
    and "otn_enabled q \<longrightarrow> pf AND of_nat NF_VALID_OT_ID \<noteq> 0"
  shows "check_nonce stack' buf' q t' (Some (chal_nonce stack c cfg t n_id pf m)) nc (secret1 c) (secret2 c) (Some m') s =
    check_counts q nc n_id pf False (if cfg \<noteq> 0 \<and> digest2 cfg m (secret2 c) \<noteq> digest2 cfg m' (secret2 c) then 3 else 0) (cfg \<noteq> 0) s"
  using check_issued [OF assms(1,2,3) _ _ assms(5) refl assms(6,8,9,11), of "secret1 c" "secret2 c"] assms(4,7,10)
    received_id [OF assms(1,2,7) refl]
  by (simp add: chal_nonce_def Let_def conf_ok_def)

lemma check_twice:
  assumes "length stack = 48" "length stack' = 48" "length buf = 64" "length buf' = 64" "conf_ok c" "parts_ok m" "parts_ok m'"
    and "nc_wf s" "otn_wf s" "nc_enabled q \<noteq> otn_enabled q"
    and "get_auth_checks q (Some m) = cfg" "get_auth_checks q (Some m') = cfg" "cfg \<noteq> 0 \<longrightarrow> digest2 cfg m (secret2 c) = digest2 cfg m' (secret2 c)"
    and "up_since q \<le> sint t" "sint t \<le> t' + uint (nonce_auth_max_drift q)" "t' \<le> uint (t + nonce_expire c)"
  shows "\<exists>e s1 s2. length e = get_nonce_len cfg True \<and>
    build_challenge_hf stack buf odd_dst True True q c process_no t (Some m) st realm None algorithm proxy s =
      Some (0, Some (challenge_text c (if proxy then proxy_challenge_header c else www_challenge_header c) realm e algorithm st), s1) \<and>
    (\<forall>nc. (nc_enabled q \<longrightarrow> nc = Some ''00000001'') \<longrightarrow>
      check_nonce stack' buf' q t' (Some e) nc (secret1 c) (secret2 c) (Some m') s1 = Some (0, s2) \<and>
      check_nonce stack' buf' q t' (Some e) nc (secret1 c) (secret2 c) (Some m') s2 = Some (4, s2))"
proof -
  let ?p = "nid_get_pool process_no s"
  have p: "?p < 64" using pool_bound [of s process_no] assms(8) by (simp add: nc_wf_def)
  have d: "all_digits ''00000001''" "dec_value ''00000001'' = 1" by code_simp+
  show ?thesis
  proof (cases "nc_enabled q")
    case True
    then have o: "\<not> otn_enabled q" using assms(10) by simp
    obtain i s1 s2 where i: "challenge_id process_no True False s = Some ((i, ?p OR NF_VALID_NC_ID), s1)"
        "nc_check_val i ?p 1 s1 = Some (NC_OK, s2)" "nc_check_val i ?p 1 s2 = Some (NC_REPLAY, s2)"
      using challenge_id_ok(1) [OF assms(8,9) refl] by blast
    let ?pf = "of_nat (?p OR NF_VALID_NC_ID) :: u8"
    have pf: "nid_flags ?pf" using pool_byte(2) [OF p] by (simp add: nid_flags_iff)
    have u: "nc_used q ?pf (Some ''00000001'')" using True pool_byte(2) [OF p] by (simp add: nc_used_def)
    have "otn_enabled q \<longrightarrow> ?pf AND of_nat NF_VALID_OT_ID \<noteq> 0" using o by simp
    note c = check_chal_nonce [OF assms(1,2,4,5,7,12) pf assms(14-16) this]
    show ?thesis
      using build_challenge_ok [OF assms(1,3,5,6), of process_no q s i "?p OR NF_VALID_NC_ID" s1] True o i pf assms(11) u d
        length_chal_nonce [OF assms(1)] pool_byte(1) [OF p]
      by (intro exI [of _ "chal_nonce stack c cfg t i ?pf m"] exI [of _ s1] exI [of _ s2]) (simp add: c check_counts_nc)
  next
    case False
    then have o: "otn_enabled q" using assms(10) by simp
    obtain i s1 s2 where i: "challenge_id process_no False True s = Some ((i, ?p OR NF_VALID_OT_ID), s1)"
        "otn_check_id i ?p s1 = Some (OTN_OK, s2)" "otn_check_id i ?p s2 = Some (OTN_REPLAY, s2)"
      using challenge_id_ok(2) [OF assms(8,9) refl] by blast
    let ?pf = "of_nat (?p OR NF_VALID_OT_ID) :: u8"
    have f: "?pf AND of_nat NF_VALID_OT_ID \<noteq> 0" by (rule pool_byte(4) [OF p])
    then have pf: "nid_flags ?pf" by (simp add: nid_flags_iff)
    have u: "\<not> nc_used q ?pf nc" for nc using False by (simp add: nc_used_def)
    note c = check_chal_nonce [OF assms(1,2,4,5,7,12) pf assms(14-16)]
    show ?thesis
      using build_challenge_ok [OF assms(1,3,5,6), of process_no q s i "?p OR NF_VALID_OT_ID" s1] False o i pf assms(11,13) u f
        length_chal_nonce [OF assms(1)] pool_byte(3) [OF p]
      by (intro exI [of _ "chal_nonce stack c cfg t i ?pf m"] exI [of _ s1] exI [of _ s2]) (auto simp: c check_counts_otn)
  qed
qed

text \<open>The digests of RFC 2617.\<close>

definition hex_md5 :: "u8 list \<Rightarrow> u8 list" where
  "hex_md5 m = concat (map (\<lambda>x. [hex_nibble (drop_bit 4 x), hex_nibble (take_bit 4 x)]) (md5 m))"

fun joined :: "u8 list list \<Rightarrow> u8 list" where
  "joined [] = []"
| "joined [x] = x"
| "joined (x # y # xs) = x @ [58] @ joined (y # xs)"

lemma cvt_hex_md5: "cvt_hex (md5 m) = hex_md5 m @ [0]" "length (hex_md5 m) = 32"
proof -
  have n: "x AND 0xf = take_bit 4 x" "take_bit 4 (drop_bit 4 x) = drop_bit 4 x" for x :: u8
    by (auto intro!: byte_eqI simp: bit_simps)
  show "cvt_hex (md5 m) = hex_md5 m @ [0]" by (simp add: cvt_hex_def hex_md5_def HASHLEN_def n)
  have "length (concat (map (\<lambda>x. [f x, g x]) xs)) = 2 * length xs" for f g :: "u8 \<Rightarrow> u8" and xs
    by (induction xs) auto
  then show "length (hex_md5 m) = 32" by (simp add: hex_md5_def)
qed

section \<open>Properties\<close>

definition good_cred :: "auth_params \<Rightarrow> u8 list \<Rightarrow> auth_body \<Rightarrow> bool" where
  "good_cred q e a \<longleftrightarrow> check_dig_cred (digest a) = 0 \<and> c_nonce (digest a) = Some e \<and> \<not> stale a \<and>
     (nc_enabled q \<longrightarrow> c_nc (digest a) = Some ''00000001'')"

text \<open>C1: challenge and response.  With nonce counts or one-time nonces (not both), \<^verbatim>\<open>build_challenge_hf\<close> fills exactly the memory it has
  allocated with a header field around a fresh nonce.  A request of the same kind with complete credentials
  for that nonce, sent in time, passes \<^verbatim>\<open>pre_auth\<close> and is authenticated by \<^verbatim>\<open>post_auth\<close>; the same credentials a second
  time are stale and the request is not authenticated.\<close>

theorem challenge_response:
  assumes "length stack = 48" "length stack' = 48" "length buf = 64" "length buf' = 64" "conf_ok c" "parts_ok m" "parts_ok m'"
    and "nc_wf s" "otn_wf s" "nc_enabled q \<noteq> otn_enabled q"
    and "get_auth_checks q (Some m) = cfg" "get_auth_checks q (Some m') = cfg" "cfg \<noteq> 0 \<longrightarrow> digest2 cfg m (secret2 c) = digest2 cfg m' (secret2 c)"
    and "up_since q \<le> sint t" "sint t \<le> t' + uint (nonce_auth_max_drift q)" "t' \<le> uint (t + nonce_expire c)"
  shows "\<exists>e hf s1 s2.
    build_challenge_hf stack buf odd_dst True True q c process_no t (Some m) st realm None algorithm proxy s = Some (0, Some hf, s1) \<and>
    hf = challenge_text c (if proxy then proxy_challenge_header c else www_challenge_header c) realm e algorithm st \<and>
    length hf = challenge_len c (if proxy then proxy_challenge_header c else www_challenge_header c) realm None algorithm st
      (get_nonce_len cfg (nc_enabled q \<or> otn_enabled q)) \<and>
    (\<forall>a. good_cred q e a \<longrightarrow>
      pre_auth stack' buf' q c t' METHOD_PLAIN (Some m') (Found a) s1 = Some (DO_AUTHENTICATION, Some a, s2) \<and>
      fst (post_auth True METHOD_PLAIN a) = AUTHENTICATED \<and>
      pre_auth stack' buf' q c t' METHOD_PLAIN (Some m') (Found a) s2 = Some (DO_AUTHENTICATION, Some (a\<lparr>stale := True\<rparr>), s2) \<and>
      fst (post_auth True METHOD_PLAIN (a\<lparr>stale := True\<rparr>)) = NOT_AUTHENTICATED)"
proof -
  obtain e s1 s2 where e: "length e = get_nonce_len cfg True"
      "build_challenge_hf stack buf odd_dst True True q c process_no t (Some m) st realm None algorithm proxy s =
        Some (0, Some (challenge_text c (if proxy then proxy_challenge_header c else www_challenge_header c) realm e algorithm st), s1)"
      "\<And>nc. (nc_enabled q \<longrightarrow> nc = Some ''00000001'') \<Longrightarrow>
        check_nonce stack' buf' q t' (Some e) nc (secret1 c) (secret2 c) (Some m') s1 = Some (0, s2) \<and>
        check_nonce stack' buf' q t' (Some e) nc (secret1 c) (secret2 c) (Some m') s2 = Some (4, s2)"
    using check_twice [OF assms] by blast
  have "pre_auth stack' buf' q c t' METHOD_PLAIN (Some m') (Found a) s1 = Some (DO_AUTHENTICATION, Some a, s2) \<and>
      fst (post_auth True METHOD_PLAIN a) = AUTHENTICATED \<and>
      pre_auth stack' buf' q c t' METHOD_PLAIN (Some m') (Found a) s2 = Some (DO_AUTHENTICATION, Some (a\<lparr>stale := True\<rparr>), s2) \<and>
      fst (post_auth True METHOD_PLAIN (a\<lparr>stale := True\<rparr>)) = NOT_AUTHENTICATED" if "good_cred q e a" for a
    using that e(3) [of "c_nc (digest a)"] by (auto simp: good_cred_def pre_auth_def auth_check_hdr_md5_def post_auth_def)
  moreover have "get_nonce_len cfg (nc_enabled q \<or> otn_enabled q) = length e" using e(1) assms(10) by auto
  ultimately show ?thesis using e(2) by (intro exI [of _ e] exI [of _ s1] exI [of _ s2] exI conjI) (auto simp: challenge_text_length)
qed

text \<open>Witness: nonce counts, extra checks of the request URI and the source address, one retransmission.\<close>

definition conf0 :: challenge_conf where
  "conf0 = \<lparr>secret1 = [1], secret2 = [2], nonce_expire = 300, qop_str = Some (bytes ''auth''),
     proxy_challenge_header = bytes ''Proxy-Authenticate'', www_challenge_header = bytes ''WWW-Authenticate''\<rparr>"

definition cred0 :: "u8 list \<Rightarrow> auth_body" where
  "cred0 e = \<lparr>digest = \<lparr>c_user = Some [1], c_realm = Some [2], c_nonce = Some e, c_uri = Some [3], c_response = Some [4],
     c_cnonce = Some [5], c_qop = QOP_AUTH, c_nc = Some ''00000001''\<rparr>, stale = False\<rparr>"

theorem challenge_response_witness:
  "\<exists>e hf s1 s2. build_challenge_hf (replicate 48 0) (replicate 64 0) False True True params0 conf0 0 2000 (Some msg0) False [] None None False nonce_start =
      Some (0, Some hf, s1) \<and>
    pre_auth (replicate 48 0) (replicate 64 0) params0 conf0 2010 METHOD_PLAIN (Some msg0) (Found (cred0 e)) s1 =
      Some (DO_AUTHENTICATION, Some (cred0 e), s2) \<and>
    fst (post_auth True METHOD_PLAIN (cred0 e)) = AUTHENTICATED"
proof -
  have g: "good_cred params0 e (cred0 e)" for e
    by (simp add: good_cred_def cred0_def check_dig_cred_def)
  have h: "conf_ok conf0" "nc_enabled params0 \<noteq> otn_enabled params0" "up_since params0 \<le> sint (2000 :: u32)"
      "sint (2000 :: u32) \<le> 2010 + uint (nonce_auth_max_drift params0)" "(2010 :: int) \<le> uint ((2000 :: u32) + nonce_expire conf0)"
    by (simp_all add: conf_ok_def conf0_def params0_def small_enough_def)
  show ?thesis
    using challenge_response [OF msg0_ok(3) msg0_ok(3) msg0_ok(3) msg0_ok(3) h(1) msg0_ok(1,1) nonce_start_wf h(2) msg0_ok(2,2) _ h(3-5)] g by meson
qed


text \<open>Witness: the example of section 3.5 of RFC 2617.\<close>

lemma hex_rfc2617:
  "hex_md5 (bytes ''Mufasa:testrealm@host.com:Circle Of Life'') = bytes ''939e7578ed9e3c518a452acee763bce9''"
  "hex_md5 (bytes ''GET:/dir/index.html'') = bytes ''39aff3a2bab6126f332b942af96d3366''"
  "hex_md5 (bytes ''939e7578ed9e3c518a452acee763bce9:dcd98b7102dd2f0e8b11d0f600bfb0c093:00000001:0a4f113b:auth:39aff3a2bab6126f332b942af96d3366'') =
     bytes ''6629fae49393a05397450978507c4ef1''"
  by code_simp+


end
