(* ===== verification/StrHash.thy ===== *)
theory StrHash
  imports SerPrelude Ut
begin

text \<open>
  String hashing, \<^verbatim>\<open>src/sip_router/hashes.h\<close>, and the string keyed hash tables of
  \<^verbatim>\<open>src/sip_router/str_hash.h\<close>.  Characters are \<^verbatim>\<open>signed char\<close>, promoted to \<^verbatim>\<open>int\<close>; the integers wrap at 32 bits.
  A bucket is the list of its entries from the head of its circular list on (\<open>Clist\<close> shows that the
  macros behave as these list operations).  A table whose memory was never allocated and the remainder by
  a size of zero have no result.
\<close>

section \<open>Hash functions\<close>

definition schar :: "char \<Rightarrow> u32" where
  "schar c = (if ord_of c < 128 then of_nat (ord_of c) else of_nat (ord_of c) - 256)"

definition hash_word4 :: "char \<Rightarrow> char \<Rightarrow> char \<Rightarrow> char \<Rightarrow> u32" where
  "hash_word4 a b c d = push_bit 24 (schar a) + push_bit 16 (schar b) + push_bit 8 (schar c) + schar d"

definition hash_mix :: "u32 \<Rightarrow> u32 \<Rightarrow> u32" where
  "hash_mix v h = h + (v XOR drop_bit 3 v)"

fun hash_update_str :: "string \<Rightarrow> u32 \<Rightarrow> u32" where
  "hash_update_str (a # b # c # d # s) h = hash_update_str s (hash_mix (hash_word4 a b c d) h)"
| "hash_update_str [a, b, c] h = hash_mix (push_bit 16 (schar a) + push_bit 8 (schar b) + schar c) h"
| "hash_update_str [a, b] h = hash_mix (push_bit 8 (schar a) + schar b) h"
| "hash_update_str [a] h = hash_mix (schar a) h"
| "hash_update_str [] h = hash_mix 0 h"

definition hash_tail_case :: "string \<Rightarrow> u32" where
  "hash_tail_case s = foldl (\<lambda>v c. push_bit 8 v + (schar c OR 0x20)) 0 s"

fun hash_update_case_str :: "string \<Rightarrow> u32 \<Rightarrow> u32" where
  "hash_update_case_str (a # b # c # d # s') h = hash_update_case_str s' (hash_mix (hash_word4 a b c d OR 0x20202020) h)"
| "hash_update_case_str [] h = hash_mix (hash_tail_case []) h"
| "hash_update_case_str [a] h = hash_mix (hash_tail_case [a]) h"
| "hash_update_case_str [a, b] h = hash_mix (hash_tail_case [a, b]) h"
| "hash_update_case_str [a, b, c] h = hash_mix (hash_tail_case [a, b, c]) h"

definition hash_finish :: "u32 \<Rightarrow> u32" where
  "hash_finish h = (h + drop_bit 11 h) + (drop_bit 13 h + drop_bit 23 h)"

definition get_hash2_raw :: "string \<Rightarrow> string \<Rightarrow> u32" where
  "get_hash2_raw key1 key2 = hash_finish (hash_update_str key2 (hash_update_str key1 0))"

definition get_hash1_raw :: "string \<Rightarrow> u32" where
  "get_hash1_raw s = hash_finish (hash_update_str s 0)"

definition hash_mix2 :: "u32 \<Rightarrow> u32 \<Rightarrow> u32" where
  "hash_mix2 v h = 16777259 * h + (v XOR push_bit 17 v)"

definition hash_num4 :: "u32 \<Rightarrow> u32 \<Rightarrow> u32 \<Rightarrow> u32 \<Rightarrow> u32" where
  "hash_num4 a b c d = a * 16777213 + b * 65537 + c * 257 + d"

fun hash_update_str2 :: "string \<Rightarrow> u32 \<Rightarrow> u32" where
  "hash_update_str2 (a # b # c # d # s') h = hash_update_str2 s' (hash_mix2 (hash_num4 (schar a) (schar b) (schar c) (schar d)) h)"
| "hash_update_str2 s h = hash_mix2 (foldl (\<lambda>v c. v * 251 + schar c) 0 s) h"

fun hash_update_case_str2 :: "string \<Rightarrow> u32 \<Rightarrow> u32" where
  "hash_update_case_str2 (a # b # c # d # s') h = hash_update_case_str2 s'
          (hash_mix2 (hash_num4 (schar a OR 0x20) (schar b OR 0x20) (schar c OR 0x20) (schar d OR 0x20)) h)"
| "hash_update_case_str2 s h = hash_mix2 (foldl (\<lambda>v c. v * 251 + (schar c OR 0x20)) 0 s) h"

definition hash_finish2 :: "u32 \<Rightarrow> u32" where
  "hash_finish2 h = (h + drop_bit 7 h) + (drop_bit 13 h + drop_bit 23 h)"

definition get_hash1_raw2 :: "string \<Rightarrow> u32" where
  "get_hash1_raw2 s = hash_finish2 (hash_update_str2 s 0)"

definition get_hash2_raw2 :: "string \<Rightarrow> string \<Rightarrow> u32" where
  "get_hash2_raw2 key1 key2 = hash_finish2 (hash_update_str2 key2 (hash_update_str2 key1 0))"

definition get_hash2_case_raw :: "string \<Rightarrow> string \<Rightarrow> u32" where
  "get_hash2_case_raw key1 key2 = hash_finish (hash_update_case_str key2 (hash_update_case_str key1 0))"

definition get_hash1_case_raw :: "string \<Rightarrow> u32" where
  "get_hash1_case_raw s = hash_finish (hash_update_case_str s 0)"

definition get_hash1_case_raw2 :: "string \<Rightarrow> u32" where
  "get_hash1_case_raw2 s = hash_finish2 (hash_update_case_str2 s 0)"

definition get_hash2_case_raw2 :: "string \<Rightarrow> string \<Rightarrow> u32" where
  "get_hash2_case_raw2 key1 key2 = hash_finish2 (hash_update_case_str2 key2 (hash_update_case_str2 key1 0))"

text \<open>The hash of transactions, \<^verbatim>\<open>src/sip_router/hash_func.h\<close>.\<close>

definition TABLE_ENTRIES :: u32 where "TABLE_ENTRIES = push_bit 16 1"

definition new_hash2 :: "string \<Rightarrow> string \<Rightarrow> u32" where
  "new_hash2 call_id cseq_nr = get_hash2_raw call_id cseq_nr AND (TABLE_ENTRIES - 1)"

section \<open>Tables\<close>

record str_hash_entry =
  key :: string
  eflags :: u32
  en :: int

record str_hash_table =
  table :: "str_hash_entry list list option"
  size_of :: int

text \<open>\<open>garbage\<close> is what the allocated memory holds before \<^verbatim>\<open>str_hash_init\<close>.\<close>

definition str_hash_alloc :: "bool \<Rightarrow> str_hash_entry list list \<Rightarrow> int \<Rightarrow> str_hash_table \<Rightarrow> int \<times> str_hash_table" where
  "str_hash_alloc mem_ok garbage sz ht =
     (if \<not> mem_ok then (-1, ht\<lparr>table := None\<rparr>) else (0, ht\<lparr>table := Some garbage, size_of := sz\<rparr>))"

definition str_hash_init :: "str_hash_table \<Rightarrow> str_hash_table" where
  "str_hash_init ht = ht\<lparr>table := map_option (\<lambda>_. replicate (nat (size_of ht)) []) (table ht)\<rparr>"

definition str_hash_slot :: "str_hash_table \<Rightarrow> string \<Rightarrow> nat option" where
  "str_hash_slot ht k =
     (if size_of ht = 0 then None
      else let h = unat (get_hash1_raw k mod word_of_int (size_of ht))
           in case table ht of None \<Rightarrow> None | Some t \<Rightarrow> if h < length t then Some h else None)"

definition str_hash_add :: "str_hash_table \<Rightarrow> str_hash_entry \<Rightarrow> str_hash_table option" where
  "str_hash_add ht e =
     Option.bind (str_hash_slot ht (key e)) (\<lambda>h.
     Some (ht\<lparr>table := map_option (\<lambda>t. t[h := e # t ! h]) (table ht)\<rparr>))"

definition str_hash_get :: "str_hash_table \<Rightarrow> string \<Rightarrow> str_hash_entry option option" where
  "str_hash_get ht k =
     Option.bind (str_hash_slot ht k) (\<lambda>h.
     Option.bind (table ht) (\<lambda>t.
     Some (List.find (\<lambda>e. length (key e) = length k \<and> key e = k) (t ! h))))"

section \<open>Case insensitive hashing\<close>

definition same_ci :: "string \<Rightarrow> string \<Rightarrow> bool" where
  "same_ci s t = (strlower s = strlower t)"

text \<open>Characters that differ only in case are equal, or an upper case letter and 32 more.\<close>

lemma tolower_cases:
  assumes "tolower_chr c = tolower_chr d"
  obtains "c = d" | "65 \<le> ord_of c" "ord_of c \<le> 90" "ord_of d = ord_of c + 32"
    | "65 \<le> ord_of d" "ord_of d \<le> 90" "ord_of c = ord_of d + 32"
proof -
  have "ord_of (tolower_chr c) = (if 65 \<le> ord_of c \<and> ord_of c \<le> 90 then ord_of c + 32 else ord_of c)" for c
    by (simp add: tolower_chr_def)
  moreover have "c = d" if "ord_of c = ord_of d" using that by (metis chr_of_ord_of)
  ultimately show thesis using assms that by (metis add_right_cancel)
qed

lemma upper_or: "list_all (\<lambda>n. (of_nat n OR 0x20 :: u32) = of_nat (n + 32) OR 0x20 \<and>
    (of_nat (n - 1) OR 0x20 :: u32) = of_nat (n + 32 - 1) OR 0x20) [65..<91]"
  by code_simp

lemma lower_ord:
  assumes "tolower_chr c = tolower_chr d"
  shows "(of_nat (ord_of c) OR 0x20 :: u32) = of_nat (ord_of d) OR 0x20"
    "(of_nat (ord_of c - 1) OR 0x20 :: u32) = of_nat (ord_of d - 1) OR 0x20"
    "ord_of c < 128 \<longleftrightarrow> ord_of d < 128" "ord_of c = 0 \<longleftrightarrow> ord_of d = 0"
proof -
  have *: "(of_nat n OR 0x20 :: u32) = of_nat (n + 32) OR 0x20" "(of_nat (n - 1) OR 0x20 :: u32) = of_nat (n + 32 - 1) OR 0x20"
    if "65 \<le> n" "n \<le> 90" for n
  proof -
    have "n \<in> set [65..<91]" using that unfolding set_upt atLeastLessThan_iff by linarith
    then show "(of_nat n OR 0x20 :: u32) = of_nat (n + 32) OR 0x20" "(of_nat (n - 1) OR 0x20 :: u32) = of_nat (n + 32 - 1) OR 0x20"
      using upper_or unfolding list_all_iff by blast+
  qed
  show "(of_nat (ord_of c) OR 0x20 :: u32) = of_nat (ord_of d) OR 0x20"
    using assms by (cases rule: tolower_cases) (simp_all only: * [of "ord_of c"] * [of "ord_of d"])
  show "(of_nat (ord_of c - 1) OR 0x20 :: u32) = of_nat (ord_of d - 1) OR 0x20"
    using assms by (cases rule: tolower_cases) (simp_all only: * [of "ord_of c"] * [of "ord_of d"])
  show "ord_of c < 128 \<longleftrightarrow> ord_of d < 128" "ord_of c = 0 \<longleftrightarrow> ord_of d = 0"
    by (rule tolower_cases [OF assms]; simp; linarith)+
qed

lemma lower_or:
  assumes "tolower_chr c = tolower_chr d"
  shows "schar c OR 0x20 = schar d OR 0x20"
  using assms
proof (cases rule: tolower_cases)
  case 2
  then show ?thesis using lower_ord(1) [OF assms] by (simp add: schar_def)
next
  case 3
  then show ?thesis using lower_ord(1) [OF assms] by (simp add: schar_def)
qed simp

text \<open>Appending a byte to a word, with the bit 0x20 of every byte set; the borrow of a negative character reaches the next byte.\<close>

lemma shift_or:
  assumes "n < 256"
  shows "(push_bit 8 x + of_nat n) OR 0x20202020 = push_bit 8 (x OR 0x20202020) OR (of_nat n OR 0x20 :: u32)"
proof -
  have "take_bit 8 n = n" using assms by (simp add: take_bit_nat_eq_self_iff)
  then have "bit n i \<Longrightarrow> i < 8" for i using bit_take_bit_iff [of 8 n i] by simp
  then have "bit (of_nat n :: u32) i \<Longrightarrow> i < 8" for i by (simp add: bit_simps)
  then have "push_bit 8 x AND of_nat n = (0 :: u32)"
    by (intro bit_eqI) (metis (no_types, lifting) bit_and_iff bit_push_bit_iff bit_0_eq bot_apply bot_bool_def not_le)
  then have "push_bit 8 x + of_nat n = push_bit 8 x OR (of_nat n :: u32)" by (simp add: disjunctive_add_eq_or)
  moreover have "(0x20202020 :: u32) = push_bit 8 0x20202020 OR 0x20" by code_simp
  ultimately have "(push_bit 8 x + of_nat n) OR 0x20202020 = (push_bit 8 x OR of_nat n) OR (push_bit 8 0x20202020 OR 0x20 :: u32)" by (simp only:)
  then show ?thesis by (simp only: push_bit_or or.assoc or.left_commute [of "of_nat n"])
qed

definition ci_word :: "u32 \<Rightarrow> u32 \<Rightarrow> bool" where
  "ci_word v w \<longleftrightarrow> v OR 0x20202020 = w OR 0x20202020 \<and> (v - 1) OR 0x20202020 = (w - 1) OR 0x20202020"

lemma shift_schar: "push_bit 8 v + schar d = push_bit 8 (if ord_of d < 128 then v else v - 1) + of_nat (ord_of d)"
proof -
  have "push_bit 8 (v - 1) = push_bit 8 v - (256 :: u32)" by (simp add: push_bit_eq_mult algebra_simps)
  then show ?thesis by (simp add: schar_def)
qed

lemma shift_schar_pred:
  "push_bit 8 v + schar d - 1 = push_bit 8 (if ord_of d = 0 then v - 1 else if ord_of d < 128 then v else v - 1) +
     of_nat (if ord_of d = 0 then 255 else ord_of d - 1)"
proof -
  have "push_bit 8 (v - 1) = push_bit 8 v - (256 :: u32)" by (simp add: push_bit_eq_mult algebra_simps)
  moreover have "(of_nat (ord_of d - 1) :: u32) = of_nat (ord_of d) - 1" if "ord_of d \<noteq> 0" using that by (simp add: of_nat_diff)
  ultimately show ?thesis by (simp add: schar_def)
qed

lemma shift_ci:
  assumes "x OR 0x20202020 = y OR 0x20202020" "(of_nat m OR 0x20 :: u32) = of_nat n OR 0x20" "m < 256" "n < 256"
  shows "(push_bit 8 x + of_nat m) OR 0x20202020 = (push_bit 8 y + of_nat n) OR (0x20202020 :: u32)"
  by (simp only: shift_or [OF assms(3)] shift_or [OF assms(4)] assms(1,2))

lemma ci_word_shift:
  assumes "ci_word v w" "tolower_chr c = tolower_chr d"
  shows "ci_word (push_bit 8 v + schar c) (push_bit 8 w + schar d)"
proof -
  note l = lower_ord [OF assms(2)] and c = ord_of_less [of c] ord_of_less [of d]
  have v: "v OR 0x20202020 = w OR 0x20202020" "(v - 1) OR 0x20202020 = (w - 1) OR 0x20202020"
    using assms(1) by (simp_all only: ci_word_def)
  have 1: "(if ord_of c < 128 then v else v - 1) OR 0x20202020 = (if ord_of d < 128 then w else w - 1) OR 0x20202020"
    unfolding l(3) by (cases "ord_of d < 128") (simp_all only: v if_True if_False)
  have 2: "(if ord_of c = 0 then v - 1 else if ord_of c < 128 then v else v - 1) OR 0x20202020 =
      (if ord_of d = 0 then w - 1 else if ord_of d < 128 then w else w - 1) OR 0x20202020"
    unfolding l(4) using 1 by (cases "ord_of d = 0") (simp_all only: v if_True if_False refl)
  have 3: "(of_nat (if ord_of c = 0 then 255 else ord_of c - 1) OR 0x20 :: u32) = of_nat (if ord_of d = 0 then 255 else ord_of d - 1) OR 0x20"
    unfolding l(4) by (cases "ord_of d = 0") (simp_all only: l(2) if_True if_False refl)
  have 4: "(if ord_of c = 0 then 255 else ord_of c - 1) < 256" for c by (cases "ord_of c = 0") (use less_imp_diff_less [OF ord_of_less [of c], of 1] in simp_all)
  show ?thesis
    unfolding ci_word_def shift_schar_pred unfolding shift_schar
    using shift_ci [OF 1 l(1) c] shift_ci [OF 2 3 4 4] by blast
qed

lemma hash_word4_ci:
  assumes "tolower_chr a = tolower_chr a'" "tolower_chr b = tolower_chr b'" "tolower_chr c = tolower_chr c'" "tolower_chr d = tolower_chr d'"
  shows "hash_word4 a b c d OR 0x20202020 = hash_word4 a' b' c' d' OR 0x20202020"
proof -
  have eq: "hash_word4 a b c d = push_bit 8 (push_bit 8 (push_bit 8 (push_bit 8 0 + schar a) + schar b) + schar c) + schar d" for a b c d
    by (simp add: hash_word4_def push_bit_add)
  have "ci_word (hash_word4 a b c d) (hash_word4 a' b' c' d')"
    unfolding eq by (intro ci_word_shift assms) (simp add: ci_word_def)
  then show ?thesis by (simp add: ci_word_def)
qed

lemma foldl_ci: "list_all2 (\<lambda>c d. tolower_chr c = tolower_chr d) s t \<Longrightarrow>
   foldl (\<lambda>v c. f v (schar c OR 0x20)) v s = foldl (\<lambda>v c. f v (schar c OR 0x20)) v t"
proof (induction s t arbitrary: v rule: list_all2_induct)
  case (Cons x xs y ys)
  then show ?case using lower_or [of x y] by simp
qed simp

lemmas foldl_ci_tails = foldl_ci [where f = "\<lambda>v c. push_bit 8 v + c" and v = 0] foldl_ci [where f = "\<lambda>v c. v * 251 + c" and v = 0]

lemma hash_update_case_ci: "list_all2 (\<lambda>c d. tolower_chr c = tolower_chr d) s t \<Longrightarrow>
   hash_update_case_str s h = hash_update_case_str t h \<and> hash_update_case_str2 s k = hash_update_case_str2 t k"
proof (induction s h arbitrary: t k rule: hash_update_case_str.induct)
  case (1 a b c d s h)
  obtain a' b' c' d' t' where t: "t = a' # b' # c' # d' # t'"
    and l: "tolower_chr a = tolower_chr a'" "tolower_chr b = tolower_chr b'" "tolower_chr c = tolower_chr c'" "tolower_chr d = tolower_chr d'"
      "list_all2 (\<lambda>c d. tolower_chr c = tolower_chr d) s t'"
    using "1.prems" by (auto simp: list_all2_Cons1)
  show ?case
    unfolding t hash_update_case_str.simps(1) hash_update_case_str2.simps(1) hash_word4_ci [OF l(1-4)] l(1-4) [THEN lower_or]
    using "1.IH" [OF l(5)] unfolding hash_word4_ci [OF l(1-4)] by blast
next
  case (2 h)
  then show ?case by simp
next
  case (3 a h)
  obtain a' where t: "t = [a']" using "3.prems" by (auto simp: list_all2_Cons1)
  show ?case using foldl_ci_tails [OF "3.prems"] unfolding t by (simp add: hash_tail_case_def)
next
  case (4 a b h)
  obtain a' b' where t: "t = [a', b']" using "4.prems" by (auto simp: list_all2_Cons1)
  show ?case using foldl_ci_tails [OF "4.prems"] unfolding t by (simp add: hash_tail_case_def)
next
  case (5 a b c h)
  obtain a' b' c' where t: "t = [a', b', c']" using "5.prems" by (auto simp: list_all2_Cons1)
  show ?case using foldl_ci_tails [OF "5.prems"] unfolding t by (simp add: hash_tail_case_def)
qed

lemma same_ci_list: "same_ci s t \<Longrightarrow> list_all2 (\<lambda>c d. tolower_chr c = tolower_chr d) s t"
  by (simp add: same_ci_def strlower_def list_all2_map1 list_all2_map2 flip: list.rel_eq)

text \<open>The case insensitive hashes do not distinguish keys that differ in case only, negative characters included.\<close>

theorem hash_case_insensitive:
  assumes "same_ci s s'" "same_ci t t'"
  shows "get_hash1_case_raw s = get_hash1_case_raw s' \<and> get_hash1_case_raw2 s = get_hash1_case_raw2 s' \<and>
    get_hash2_case_raw s t = get_hash2_case_raw s' t' \<and> get_hash2_case_raw2 s t = get_hash2_case_raw2 s' t'"
  using hash_update_case_ci [OF same_ci_list [OF assms(1)]] hash_update_case_ci [OF same_ci_list [OF assms(2)]]
  by (simp add: get_hash1_case_raw_def get_hash1_case_raw2_def get_hash2_case_raw_def get_hash2_case_raw2_def)

section \<open>Tables of names\<close>

text \<open>
  What the users of a table of names rely on: looking up a name after an entry was added finds that entry if the
  name is its name, and what it found before otherwise.  The outer option is undefined behaviour.
\<close>

locale name_table =
  fixes get :: "'t \<Rightarrow> string \<Rightarrow> 'e option option" and add :: "'t \<Rightarrow> 'e \<Rightarrow> 't option" and ok :: "'t \<Rightarrow> bool" and name_of :: "'e \<Rightarrow> string"
  assumes add_ok: "ok t \<Longrightarrow> \<exists>t'. add t e = Some t' \<and> ok t' \<and> (\<forall>k. get t' k = (if name_of e = k then Some (Some e) else get t k))"
    and get_ok: "ok t \<Longrightarrow> \<exists>r. get t k = Some r \<and> (\<forall>e. r = Some e \<longrightarrow> name_of e = k)"
begin

text \<open>A table filled with entries of distinct names is the map from the names to the entries.\<close>

fun add_all :: "'t \<Rightarrow> 'e list \<Rightarrow> 't option" where
  "add_all t [] = Some t"
| "add_all t (e # es) = Option.bind (add t e) (\<lambda>t. add_all t es)"

lemma add_all_get:
  assumes "ok t"
  shows "\<exists>t'. add_all t es = Some t' \<and> ok t' \<and>
    (\<forall>k. get t' k = (case List.find (\<lambda>e. name_of e = k) (rev es) of Some e \<Rightarrow> Some (Some e) | None \<Rightarrow> get t k))"
  using assms
proof (induction es arbitrary: t)
  case (Cons e es)
  obtain t' where t': "add t e = Some t'" "ok t'" "\<forall>k. get t' k = (if name_of e = k then Some (Some e) else get t k)"
    using add_ok [OF Cons.prems] by blast
  obtain t'' where "add_all t' es = Some t''" "ok t''"
      "\<forall>k. get t'' k = (case List.find (\<lambda>e. name_of e = k) (rev es) of Some e \<Rightarrow> Some (Some e) | None \<Rightarrow> get t' k)"
    using Cons.IH [OF t'(2)] by blast
  moreover have "List.find P (xs @ [x]) = (case List.find P xs of Some y \<Rightarrow> Some y | None \<Rightarrow> if P x then Some x else None)" for P :: "'e \<Rightarrow> bool" and xs x
    by (induction xs) auto
  ultimately show ?case using t' by (auto split: option.splits)
qed simp

end

text \<open>An array of buckets, with the entries where their names belong.\<close>

definition placed :: "(string \<Rightarrow> nat) \<Rightarrow> ('e \<Rightarrow> string) \<Rightarrow> nat \<Rightarrow> 'e list list \<Rightarrow> bool" where
  "placed slot name n t \<longleftrightarrow> length t = n \<and> (\<forall>i<n. \<forall>e\<in>set (t ! i). slot (name e) = i)"

lemma placed_add:
  assumes "placed slot name n t" "slot (name e) < n" "slot k < n"
  shows "placed slot name n (t[slot (name e) := e # t ! slot (name e)])"
    "List.find (\<lambda>x. name x = k) (t[slot (name e) := e # t ! slot (name e)] ! slot k) =
       (if name e = k then Some e else List.find (\<lambda>x. name x = k) (t ! slot k))"
  using assms by (auto simp: placed_def nth_list_update)

lemma placed_empty: "placed slot name n (replicate n [])"
  by (simp add: placed_def)

definition slot_no :: "nat \<Rightarrow> string \<Rightarrow> nat" where
  "slot_no n k = unat (get_hash1_raw k) mod n"

definition ht_ok :: "str_hash_table \<Rightarrow> bool" where
  "ht_ok ht = (case table ht of None \<Rightarrow> False
     | Some t \<Rightarrow> 0 < size_of ht \<and> size_of ht < 2 ^ 31 \<and> placed (slot_no (nat (size_of ht))) key (nat (size_of ht)) t)"

lemma str_hash_slot_ok:
  assumes "ht_ok ht"
  shows "str_hash_slot ht k = Some (slot_no (nat (size_of ht)) k)" "slot_no (nat (size_of ht)) k < nat (size_of ht)"
proof -
  obtain t where t: "table ht = Some t" "0 < size_of ht" "size_of ht < 2 ^ 31" "length t = nat (size_of ht)"
    using assms by (auto simp: ht_ok_def placed_def split: option.splits)
  have "unat (word_of_int (size_of ht) :: u32) = nat (size_of ht)"
    using t(2,3) by (simp add: unat_eq_nat_uint uint_word_of_int_eq take_bit_int_eq_self)
  then have "unat (get_hash1_raw k mod word_of_int (size_of ht)) = slot_no (nat (size_of ht)) k"
    by (simp add: slot_no_def unat_mod_distrib)
  moreover show "slot_no (nat (size_of ht)) k < nat (size_of ht)" using t(2) by (simp add: slot_no_def)
  ultimately show "str_hash_slot ht k = Some (slot_no (nat (size_of ht)) k)"
    using t by (simp add: str_hash_slot_def Let_def)
qed

lemma str_hash_get_eq:
  assumes "ht_ok ht" "table ht = Some t"
  shows "str_hash_get ht k = Some (List.find (\<lambda>e. key e = k) (t ! slot_no (nat (size_of ht)) k))"
proof -
  have "List.find (\<lambda>e. length (key e) = length k \<and> key e = k) xs = List.find (\<lambda>e. key e = k) xs" for xs :: "str_hash_entry list"
    by (induction xs) auto
  then show ?thesis using assms(2) by (simp only: str_hash_get_def str_hash_slot_ok(1) [OF assms(1)] Option.bind.bind_lunit)
qed

lemma str_hash_add_ok:
  assumes ok: "ht_ok ht"
  shows "\<exists>ht'. str_hash_add ht e = Some ht' \<and> ht_ok ht' \<and> (\<forall>k. str_hash_get ht' k = (if key e = k then Some (Some e) else str_hash_get ht k))"
proof -
  note slot = str_hash_slot_ok [OF ok]
  obtain t where t: "table ht = Some t" "placed (slot_no (nat (size_of ht))) key (nat (size_of ht)) t"
    using ok by (auto simp: ht_ok_def split: option.splits)
  define t' where "t' = t[slot_no (nat (size_of ht)) (key e) := e # t ! slot_no (nat (size_of ht)) (key e)]"
  have ok': "ht_ok (ht\<lparr>table := Some t'\<rparr>)"
    using ok t placed_add(1) [OF t(2) slot(2) slot(2)] by (simp add: ht_ok_def t'_def)
  have "str_hash_get (ht\<lparr>table := Some t'\<rparr>) k = (if key e = k then Some (Some e) else str_hash_get ht k)" for k
    using placed_add(2) [OF t(2) slot(2) slot(2) [of k], of e] str_hash_get_eq [OF ok', of t' k] str_hash_get_eq [OF ok t(1), of k]
    by (simp add: t'_def)
  moreover have "str_hash_add ht e = Some (ht\<lparr>table := Some t'\<rparr>)" using t(1) slot(1) by (simp add: str_hash_add_def t'_def)
  ultimately show ?thesis using ok' by blast
qed

lemma str_hash_get_ok:
  assumes ok: "ht_ok ht"
  shows "\<exists>r. str_hash_get ht k = Some r \<and> (\<forall>e. r = Some e \<longrightarrow> key e = k)"
proof -
  obtain t where "table ht = Some t" using ok by (auto simp: ht_ok_def split: option.splits)
  then show ?thesis using str_hash_get_eq [OF ok, of t k] by (auto simp: find_Some_iff)
qed

interpretation sh: name_table str_hash_get str_hash_add ht_ok key
  by unfold_locales (rule str_hash_add_ok str_hash_get_ok; assumption)+

lemma str_hash_init_ok:
  assumes "0 < sz" "sz < 2 ^ 31"
  shows "ht_ok (str_hash_init (snd (str_hash_alloc True garbage sz ht)))"
    "str_hash_get (str_hash_init (snd (str_hash_alloc True garbage sz ht))) k = Some None"
proof -
  show ok: "ht_ok (str_hash_init (snd (str_hash_alloc True garbage sz ht)))"
    using assms by (simp add: ht_ok_def str_hash_init_def str_hash_alloc_def placed_empty)
  show "str_hash_get (str_hash_init (snd (str_hash_alloc True garbage sz ht))) k = Some None"
    using str_hash_get_eq [OF ok, of "replicate (nat sz) []" k] str_hash_slot_ok(2) [OF ok, of k] by (simp add: str_hash_init_def str_hash_alloc_def)
qed

theorem hash_case_insensitive_witness:
  "get_hash1_case_raw ''Sip.Example.ORG'' = get_hash1_case_raw ''sip.example.org''"
proof -
  have "same_ci ''Sip.Example.ORG'' ''sip.example.org''" by code_simp
  then show ?thesis using hash_case_insensitive [of "''Sip.Example.ORG''" "''sip.example.org''" "[]" "[]"] by (simp add: same_ci_def)
qed

end
