(* ===== verification/Flags.thy ===== *)
theory Flags
  imports StrHash
begin

text \<open>
  Message flags and their names: \<^verbatim>\<open>src/sip_router/flags.c\<close> and \<^verbatim>\<open>flags.h\<close>.  The flags of a message are the bits of one
  32 bit word; the names are kept in an array of 32 lists, and \<^verbatim>\<open>registered_flags\<close> counts, in an \<^verbatim>\<open>unsigned char\<close>, how
  often each flag was registered.  \<open>mem_ok\<close> is whether \<^verbatim>\<open>pkg_malloc\<close> has memory.
\<close>

section \<open>Flags of a message\<close>

definition MAX_FLAG :: nat where "MAX_FLAG = 31"

definition setflag :: "u32 \<Rightarrow> u32 \<Rightarrow> u32 \<times> int" where
  "setflag msg_flags flag = (msg_flags OR push_bit (unat flag) 1, 1)"

definition resetflag :: "u32 \<Rightarrow> u32 \<Rightarrow> u32 \<times> int" where
  "resetflag msg_flags flag = (msg_flags AND NOT (push_bit (unat flag) 1), 1)"

definition isflagset :: "u32 \<Rightarrow> u32 \<Rightarrow> int" where
  "isflagset msg_flags flag = (if msg_flags AND push_bit (unat flag) 1 \<noteq> 0 then 1 else -1)"

definition flag_in_range :: "u32 \<Rightarrow> bool" where
  "flag_in_range flag = (unat flag \<le> MAX_FLAG)"

section \<open>Named flags\<close>

definition FLAGS_NAME_HASH_ENTRIES :: nat where "FLAGS_NAME_HASH_ENTRIES = 32"

record flag_entry =
  fname :: string
  no :: int

record flags_state =
  name2flags :: "flag_entry list list"
  registered_flags :: "8 word list"
  crt_flag :: u32

definition init_named_flags :: "flags_state \<Rightarrow> flags_state" where
  "init_named_flags s = s\<lparr>name2flags := replicate FLAGS_NAME_HASH_ENTRIES []\<rparr>"

text \<open>The static variables at program start.\<close>

definition flags_boot :: flags_state where
  "flags_boot = init_named_flags \<lparr>name2flags = [], registered_flags = replicate (MAX_FLAG + 1) 0, crt_flag = 0\<rparr>"

definition check_flag :: "int \<Rightarrow> int" where
  "check_flag n = (if \<not> flag_in_range (word_of_int n) then -1 else 0)"

definition flag_slot :: "string \<Rightarrow> nat" where
  "flag_slot name = unat (get_hash1_raw name AND of_nat (FLAGS_NAME_HASH_ENTRIES - 1))"

definition flag_search :: "flag_entry list \<Rightarrow> string \<Rightarrow> flag_entry option" where
  "flag_search lst name = List.find (\<lambda>fe. length (fname fe) = length name \<and> fname fe = name) lst"

definition get_flag_entry :: "flags_state \<Rightarrow> string \<Rightarrow> flag_entry option" where
  "get_flag_entry s name = flag_search (name2flags s ! flag_slot name) name"

definition get_flag_no :: "flags_state \<Rightarrow> string \<Rightarrow> int" where
  "get_flag_no s name = (case get_flag_entry s name of Some fe \<Rightarrow> no fe | None \<Rightarrow> -1)"

text \<open>The search for a free flag: at most \<open>n\<close> more positions, from \<^verbatim>\<open>crt_flag\<close> on.\<close>

fun free_flag :: "nat \<Rightarrow> u32 \<Rightarrow> 8 word list \<Rightarrow> int \<times> u32" where
  "free_flag 0 crt regs = (-1, crt)"
| "free_flag (Suc n) crt regs =
     (let r = unat crt mod (MAX_FLAG + 1)
      in if regs ! r = 0 then (int r, crt) else free_flag n (crt + 1) regs)"

definition flag_insert :: "bool \<Rightarrow> string \<Rightarrow> int \<Rightarrow> flags_state \<Rightarrow> int \<times> flags_state" where
  "flag_insert mem_ok name pos s =
     (let s = s\<lparr>registered_flags := (registered_flags s)[nat pos := registered_flags s ! nat pos + 1]\<rparr>;
          h = flag_slot name
      in if \<not> mem_ok then (-3, s)
         else (pos, s\<lparr>name2flags := (name2flags s)[h := \<lparr>fname = name, no = pos\<rparr> # name2flags s ! h]\<rparr>))"

definition register_flag :: "bool \<Rightarrow> string \<Rightarrow> int \<Rightarrow> flags_state \<Rightarrow> int \<times> flags_state" where
  "register_flag mem_ok name pos s =
     (if flag_search (name2flags s ! flag_slot name) name \<noteq> None then (-2, s)
      else if pos \<noteq> -1 then
        (if pos < 0 \<or> pos > int MAX_FLAG then (-4, s) else flag_insert mem_ok name pos s)
      else
        (let (r, crt) = free_flag (MAX_FLAG + 1) (crt_flag s) (registered_flags s); s = s\<lparr>crt_flag := crt\<rparr>
         in if r = -1 then (-5, s) else flag_insert mem_ok name r s))"

section \<open>Flags as bits\<close>

lemma bit_and_push: "(w AND push_bit i 1 :: u32) \<noteq> 0 \<longleftrightarrow> i < 32 \<and> bit w i"
proof
  assume "(w AND push_bit i 1 :: u32) \<noteq> 0"
  then obtain j where "bit (w AND push_bit i 1 :: u32) j" using bit_eqI [of "w AND push_bit i 1" 0] by auto
  then show "i < 32 \<and> bit w i" by (auto simp: bit_simps)
next
  assume "i < 32 \<and> bit w i"
  then have "bit (w AND push_bit i 1 :: u32) i" by (simp add: bit_simps)
  then show "(w AND push_bit i 1 :: u32) \<noteq> 0" by auto
qed

text \<open>Setting and resetting change exactly one flag.\<close>

lemma flag_laws:
  assumes "flag_in_range f" "flag_in_range g"
  shows "isflagset (fst (setflag w f)) g = (if g = f then 1 else isflagset w g)"
    "isflagset (fst (resetflag w f)) g = (if g = f then -1 else isflagset w g)"
proof -
  have "unat f < 32" "unat g < 32" using assms by (simp_all add: flag_in_range_def MAX_FLAG_def)
  moreover have "unat g = unat f \<longleftrightarrow> g = f" by (auto intro: unsigned_word_eqI)
  ultimately show "isflagset (fst (setflag w f)) g = (if g = f then 1 else isflagset w g)"
    "isflagset (fst (resetflag w f)) g = (if g = f then -1 else isflagset w g)"
    unfolding isflagset_def setflag_def resetflag_def bit_and_push fst_conv by (auto simp: bit_simps)
qed

section \<open>Names\<close>

lemma flag_slot_less: "flag_slot k < 32"
proof -
  have "unat (get_hash1_raw k AND mask 5) < 2 ^ 5" by (simp add: unat_and_mask)
  moreover have "(of_nat (FLAGS_NAME_HASH_ENTRIES - 1) :: u32) = mask 5" by code_simp
  ultimately show ?thesis by (simp add: flag_slot_def)
qed

lemma flag_search_find: "flag_search lst k = List.find (\<lambda>e. fname e = k) lst"
  unfolding flag_search_def by (induction lst) auto

definition names_ok :: "flag_entry list list \<Rightarrow> bool" where
  "names_ok t = placed flag_slot fname 32 t"

definition flag_add :: "flag_entry list list \<Rightarrow> flag_entry \<Rightarrow> flag_entry list list" where
  "flag_add t e = t[flag_slot (fname e) := e # t ! flag_slot (fname e)]"

interpretation fl: name_table "\<lambda>t k. Some (flag_search (t ! flag_slot k) k)" "\<lambda>t e. Some (flag_add t e)" names_ok fname
proof
  show "\<exists>t'. Some (flag_add t e) = Some t' \<and> names_ok t' \<and> (\<forall>k. Some (flag_search (t' ! flag_slot k) k) =
      (if fname e = k then Some (Some e) else Some (flag_search (t ! flag_slot k) k)))" if "names_ok t" for t e
    using placed_add [OF that [unfolded names_ok_def] flag_slot_less flag_slot_less] unfolding flag_add_def names_ok_def flag_search_find by auto
  show "\<exists>r. Some (flag_search (t ! flag_slot k) k) = Some r \<and> (\<forall>e. r = Some e \<longrightarrow> fname e = k)" for t k
    by (auto simp: flag_search_find find_Some_iff)
qed

text \<open>The entries numbered \<open>p\<close>, and the invariant after \<open>n\<close> registrations.\<close>

definition uses :: "nat \<Rightarrow> flags_state \<Rightarrow> nat" where
  "uses p s = length (filter (\<lambda>e. no e = int p) (concat (name2flags s)))"

definition flags_wf :: "nat \<Rightarrow> flags_state \<Rightarrow> bool" where
  "flags_wf n s \<longleftrightarrow> names_ok (name2flags s) \<and> length (registered_flags s) = 32 \<and>
     (\<forall>p<32. uses p s \<le> unat (registered_flags s ! p) \<and> unat (registered_flags s ! p) \<le> n)"

lemma flags_wf_boot: "flags_wf 0 flags_boot"
  by (simp add: flags_wf_def flags_boot_def init_named_flags_def FLAGS_NAME_HASH_ENTRIES_def MAX_FLAG_def uses_def names_ok_def placed_empty)

lemma concat_update_filter:
  "i < length t \<Longrightarrow> length (filter P (concat (t[i := e # t ! i]))) = (if P e then 1 else 0) + length (filter P (concat t))"
  by (induction t arbitrary: i) (auto split: nat.splits)

lemma free_flag_cases:
  "free_flag n crt regs = (r, crt') \<Longrightarrow>
   0 \<le> r \<and> nat r < 32 \<and> regs ! nat r = 0 \<or> r = -1 \<and> (\<forall>i<n. regs ! ((unat crt + i) mod 32) \<noteq> 0)"
proof (induction n arbitrary: crt)
  case (Suc n)
  have m: "(unat (crt + 1) + i) mod 32 = (unat crt + Suc i) mod 32" for i
  proof -
    have "unat (crt + 1) mod 32 = (unat crt + 1) mod 32"
      by (simp add: unat_word_ariths mod_mod_cancel)
    then show ?thesis by (metis add.assoc mod_add_left_eq plus_1_eq_Suc)
  qed
  show ?case
  proof (cases "regs ! (unat crt mod 32) = 0")
    case True
    then show ?thesis using Suc.prems by (auto simp: MAX_FLAG_def)
  next
    case False
    then have "free_flag n (crt + 1) regs = (r, crt')" using Suc.prems by (simp add: MAX_FLAG_def)
    then show ?thesis using Suc.IH [of "crt + 1"] False unfolding m by (auto simp: less_Suc_eq_0_disj)
  qed
qed simp

lemma free_flag_none:
  assumes "free_flag 32 crt regs = (-1, crt')" "p < 32"
  shows "regs ! p \<noteq> 0"
proof -
  define i where "i = (p + (32 - unat crt mod 32)) mod 32"
  have "unat crt mod 32 < 32" by simp
  then have "(unat crt mod 32 + (p + (32 - unat crt mod 32))) mod 32 = (p + 32) mod 32" by (intro arg_cong [where f = "\<lambda>x. x mod 32"]) linarith
  moreover have "(unat crt + i) mod 32 = (unat crt mod 32 + (p + (32 - unat crt mod 32))) mod 32" by (simp only: i_def mod_add_left_eq mod_add_right_eq)
  ultimately have "(unat crt + i) mod 32 = p" using assms(2) by simp
  moreover have "i < 32" by (simp add: i_def)
  ultimately show ?thesis using free_flag_cases [OF assms(1)] by auto
qed

lemma flag_insert_wf:
  assumes "flags_wf n s" "n < 255" "p < 32" "flag_insert m k (int p) s = (r, s')"
  shows "flags_wf (Suc n) s'" "r = (if m then int p else -3)"
    "name2flags s' = (if m then flag_add (name2flags s) \<lparr>fname = k, no = int p\<rparr> else name2flags s)"
proof -
  have l: "length (registered_flags s) = 32" "names_ok (name2flags s)" using assms(1) by (simp_all add: flags_wf_def)
  have regs: "registered_flags s' = (registered_flags s)[p := registered_flags s ! p + 1]"
    using assms(4) by (auto simp: flag_insert_def Let_def split: if_splits)
  show n: "name2flags s' = (if m then flag_add (name2flags s) \<lparr>fname = k, no = int p\<rparr> else name2flags s)"
    using assms(4) by (auto simp: flag_insert_def flag_add_def Let_def split: if_splits)
  show "r = (if m then int p else -3)" using assms(4) by (auto simp: flag_insert_def Let_def split: if_splits)
  have "unat (registered_flags s ! p) \<le> n" using assms(1,3) by (simp add: flags_wf_def)
  then have inc: "unat (registered_flags s ! p + 1) = unat (registered_flags s ! p) + 1" using assms(2) by (simp add: unat_word_ariths)
  have "flag_slot k < length (name2flags s)" using l(2) flag_slot_less by (simp add: names_ok_def placed_def)
  then have u: "uses q s' = (if m \<and> q = p then 1 else 0) + uses q s" for q
    unfolding uses_def n by (simp add: flag_add_def concat_update_filter)
  have "uses q s' \<le> unat (registered_flags s' ! q) \<and> unat (registered_flags s' ! q) \<le> Suc n" if "q < 32" for q
    using assms(1) that l(1) inc by (cases "q = p") (auto simp: u regs flags_wf_def le_SucI)
  moreover have "names_ok (name2flags s')" using fl.add_ok [OF l(2)] l(2) by (simp add: n)
  ultimately show "flags_wf (Suc n) s'" using l(1) by (simp add: flags_wf_def regs)
qed

text \<open>A sequence of registrations; each has its memory outcome, name and position.\<close>

fun register_all :: "(bool \<times> string \<times> int) list \<Rightarrow> flags_state \<Rightarrow> flags_state" where
  "register_all [] s = s"
| "register_all ((m, k, p) # ops) s = register_all ops (snd (register_flag m k p s))"

text \<open>What one registration does to a well formed table.\<close>

definition flag_result :: "bool \<Rightarrow> string \<Rightarrow> int \<Rightarrow> flags_state \<Rightarrow> int \<Rightarrow> flags_state \<Rightarrow> bool" where
  "flag_result m k pos s r s' \<longleftrightarrow>
     (\<forall>j. get_flag_entry s' j = (if 0 \<le> r \<and> j = k then Some \<lparr>fname = k, no = r\<rparr> else get_flag_entry s j)) \<and>
     (r = -2 \<longleftrightarrow> get_flag_entry s k \<noteq> None) \<and>
     (0 \<le> r \<longrightarrow> r \<le> int MAX_FLAG \<and> (if pos = -1 then \<forall>j e. get_flag_entry s j = Some e \<longrightarrow> no e \<noteq> r else r = pos)) \<and>
     (r = -5 \<longrightarrow> pos = -1 \<and> (\<forall>p<32. registered_flags s ! p \<noteq> 0)) \<and>
     (r < 0 \<longrightarrow> r = -2 \<or> r = -3 \<and> \<not> m \<or> r = -4 \<and> \<not> (pos \<in> {-1..31}) \<or> r = -5)"

lemma entry_uses:
  assumes "names_ok (name2flags s)" "get_flag_entry s j = Some e" "no e = int p"
  shows "0 < uses p s"
proof -
  have "e \<in> set (name2flags s ! flag_slot j)" "flag_slot j < length (name2flags s)"
    using assms(1,2) flag_slot_less by (auto simp: get_flag_entry_def flag_search_find find_Some_iff names_ok_def placed_def)
  then have "e \<in> set (concat (name2flags s))" using nth_mem by (metis UN_I set_concat)
  then show ?thesis using assms(3) by (auto simp: uses_def filter_empty_conv)
qed

lemma get_after_insert:
  assumes "names_ok (name2flags s)" "name2flags s' = flag_add (name2flags s) e"
  shows "get_flag_entry s' j = (if j = fname e then Some e else get_flag_entry s j)"
proof -
  have "Some (flag_search (flag_add (name2flags s) e ! flag_slot j) j) = (if fname e = j then Some (Some e) else Some (flag_search (name2flags s ! flag_slot j) j))"
    using fl.add_ok [OF assms(1), of e] by blast
  then show ?thesis using assms(2) by (simp add: get_flag_entry_def split: if_splits)
qed

lemma register_flag_result:
  assumes "flags_wf n s" "n < 255" "register_flag m k pos s = (r, s')"
  shows "flags_wf (Suc n) s' \<and> flag_result m k pos s r s'"
proof -
  have wf: "flags_wf (Suc n) s" "names_ok (name2flags s)" using assms(1) by (auto simp: flags_wf_def le_SucI)
  have g: "flag_search (name2flags s ! flag_slot k) k = get_flag_entry s k" by (simp add: get_flag_entry_def)
  have ins: "flags_wf (Suc n) s' \<and> (\<forall>j. get_flag_entry s' j = (if m \<and> j = k then Some \<lparr>fname = k, no = int p\<rparr> else get_flag_entry s j)) \<and> r = (if m then int p else -3)"
    if "flag_insert m k (int p) (s\<lparr>crt_flag := c\<rparr>) = (r, s')" "p < 32" for p c
  proof -
    have wf': "flags_wf n (s\<lparr>crt_flag := c\<rparr>)" using assms(1) by (simp add: flags_wf_def uses_def)
    have "get_flag_entry s' j = (if m \<and> j = k then Some \<lparr>fname = k, no = int p\<rparr> else get_flag_entry s j)" for j
      using flag_insert_wf(3) [OF wf' assms(2) that(2,1)] get_after_insert [of s s' "\<lparr>fname = k, no = int p\<rparr>" j] wf(2)
      by (cases m) (auto simp: get_flag_entry_def)
    then show ?thesis using flag_insert_wf(1,2) [OF wf' assms(2) that(2,1)] by simp
  qed
  consider "get_flag_entry s k \<noteq> None" "r = -2" "s' = s"
    | "get_flag_entry s k = None" "pos \<noteq> -1" "pos < 0 \<or> pos > 31" "r = -4" "s' = s"
    | p where "get_flag_entry s k = None" "pos = int p" "p < 32" "flag_insert m k (int p) (s\<lparr>crt_flag := crt_flag s\<rparr>) = (r, s')"
    | c where "get_flag_entry s k = None" "pos = -1" "r = -5" "s' = s\<lparr>crt_flag := c\<rparr>" "free_flag 32 (crt_flag s) (registered_flags s) = (-1, c)"
    | p c where "get_flag_entry s k = None" "pos = -1" "p < 32" "registered_flags s ! p = 0" "flag_insert m k (int p) (s\<lparr>crt_flag := c\<rparr>) = (r, s')"
  proof -
    obtain f c where f: "free_flag 32 (crt_flag s) (registered_flags s) = (f, c)" by force
    show thesis
      using assms(3) f free_flag_cases [OF f] that(1,2) that(3) [of "nat pos"] that(4) [of c] that(5) [of "nat f" c] unfolding g register_flag_def
      by (auto simp: MAX_FLAG_def split: if_splits)
  qed
  then show ?thesis
  proof cases
    case 1
    then show ?thesis using wf by (simp add: flag_result_def)
  next
    case 2
    then show ?thesis using wf by (auto simp: flag_result_def)
  next
    case (3 p)
    then show ?thesis using ins [OF 3(4,3)] by (auto simp: flag_result_def MAX_FLAG_def)
  next
    case (4 c)
    then have "flags_wf (Suc n) s'" "get_flag_entry s' j = get_flag_entry s j" for j using wf(1) by (simp_all add: flags_wf_def uses_def get_flag_entry_def)
    then show ?thesis using 4 free_flag_none [OF 4(5)] by (auto simp: flag_result_def)
  next
    case (5 p c)
    have "uses p s = 0" using assms(1) 5(3,4) by (auto simp: flags_wf_def)
    then have "no e \<noteq> int p" if "get_flag_entry s j = Some e" for j e using entry_uses [OF wf(2) that, of p] by auto
    then show ?thesis using 5 ins [OF 5(5,3)] by (auto simp: flag_result_def MAX_FLAG_def)
  qed
qed

lemma register_all_wf: "flags_wf n s \<Longrightarrow> n + length ops < 256 \<Longrightarrow> flags_wf (n + length ops) (register_all ops s)"
proof (induction ops arbitrary: n s)
  case (Cons op ops)
  obtain m k p where op: "op = (m, k, p)" by (cases op)
  obtain r s' where r: "register_flag m k p s = (r, s')" by force
  have "flags_wf (Suc n) s'" using register_flag_result [OF Cons.prems(1) _ r] Cons.prems(2) by simp
  then show ?case using Cons.IH [of "Suc n" s'] Cons.prems(2) by (simp add: op r)
qed simp



end
