(* ===== verification/Routes.thy ===== *)
theory Routes
  imports StrHash
begin

text \<open>
  The tables of routing blocks and their names: \<^verbatim>\<open>struct route_list\<close> of \<^verbatim>\<open>src/sip_router/route.h\<close> and the functions of
  \<^verbatim>\<open>src/sip_router/route.c\<close> that create, name, find and destroy routes.  The action list of a route is the address of its
  first action.  The arguments \<open>m\<close> are the outcomes of the allocations, in the order of the calls.
\<close>

definition RT_NO :: int where "RT_NO = 2"
definition RT_HASH_SIZE :: int where "RT_HASH_SIZE = 8"

record route_list =
  rlist :: "addr list option"
  idx :: int
  entries :: int
  names :: str_hash_table

definition destroy_rlist :: "route_list \<Rightarrow> str_hash_entry list \<times> route_list" where
  "destroy_rlist rt =
     (let rt = (if rlist rt \<noteq> None then rt\<lparr>rlist := None, entries := 0\<rparr> else rt)
      in case table (names rt) of None \<Rightarrow> ([], rt)
         | Some t \<Rightarrow> (t ! 0, rt\<lparr>names := \<lparr>table = None, size_of = 0\<rparr>\<rparr>))"

definition route_add :: "bool \<Rightarrow> route_list \<Rightarrow> string \<Rightarrow> int \<Rightarrow> (int \<times> route_list) option" where
  "route_add m rt name i =
     (if \<not> m then Some (-1, rt)
      else Option.bind (str_hash_add (names rt) \<lparr>key = name, eflags = 0, en = i\<rparr>) (\<lambda>ht. Some (0, rt\<lparr>names := ht\<rparr>)))"

definition init_rlist :: "bool \<Rightarrow> bool \<Rightarrow> bool \<Rightarrow> str_hash_entry list list \<Rightarrow> int \<Rightarrow> int \<Rightarrow> route_list \<Rightarrow> (int \<times> route_list) option" where
  "init_rlist m1 m2 m3 garbage n_entries hash_size rt =
     (if \<not> m1 then Some (-1, rt\<lparr>rlist := None\<rparr>)
      else let rt = rt\<lparr>rlist := Some (replicate (nat n_entries) 0), idx := 1, entries := n_entries\<rparr>;
               (r, ht) = str_hash_alloc m2 garbage hash_size (names rt);
               rt = rt\<lparr>names := ht\<rparr>
           in if r < 0 then Some (-1, rt)
              else let rt = rt\<lparr>names := str_hash_init (names rt)\<rparr>
                   in Option.bind (route_add m3 rt ''0'' 0) (\<lambda>(_, rt). Some (0, rt)))"

definition route_new_list :: "bool \<Rightarrow> route_list \<Rightarrow> int \<times> route_list" where
  "route_new_list m rt =
     (let (grown, rt) =
        (if idx rt \<ge> entries rt then
           (if \<not> m then (False, rt)
            else (True, rt\<lparr>rlist := map_option (\<lambda>l. take (nat (entries rt)) l @ replicate (nat (entries rt)) 0) (rlist rt),
                           entries := entries rt * 2\<rparr>))
         else (True, rt))
      in if grown \<and> idx rt < entries rt then (idx rt, rt\<lparr>idx := idx rt + 1\<rparr>) else (-1, rt))"

definition route_get :: "bool \<Rightarrow> bool \<Rightarrow> route_list \<Rightarrow> string \<Rightarrow> (int \<times> route_list) option" where
  "route_get m1 m2 rt name =
     Option.bind (str_hash_get (names rt) name) (\<lambda>e. case e of
       Some e \<Rightarrow> Some (en e, rt)
     | None \<Rightarrow>
         (let (i, rt) = route_new_list m1 rt
          in if i = -1 then Some (-1, rt)
             else Option.bind (route_add m2 rt name i) (\<lambda>(r, rt). Some (if r < 0 then -1 else i, rt))))"

definition route_lookup :: "route_list \<Rightarrow> string \<Rightarrow> int option" where
  "route_lookup rt name =
     Option.bind (str_hash_get (names rt) name) (\<lambda>e. Some (case e of Some e \<Rightarrow> en e | None \<Rightarrow> -1))"

section \<open>Lemmas\<close>

text \<open>Every name has an index below the first free one, and no two names the same.\<close>

definition rt_wf :: "route_list \<Rightarrow> bool" where
  "rt_wf rt \<longleftrightarrow> ht_ok (names rt) \<and> (\<exists>l. rlist rt = Some l \<and> int (length l) = entries rt \<and> list_all (\<lambda>a. a = 0) (drop (nat (idx rt)) l)) \<and> 0 < idx rt \<and> idx rt \<le> entries rt \<and>
     (\<forall>k e. str_hash_get (names rt) k = Some (Some e) \<longrightarrow> 0 \<le> en e \<and> en e < idx rt) \<and>
     (\<forall>k k' e e'. str_hash_get (names rt) k = Some (Some e) \<longrightarrow> str_hash_get (names rt) k' = Some (Some e') \<longrightarrow> en e = en e' \<longrightarrow> k = k')"

lemma list_all_drop_Suc: "list_all P (drop n l) \<Longrightarrow> list_all P (drop (Suc n) l)"
  by (metis drop_Suc list.pred_set set_drop_subset subsetD drop_drop plus_1_eq_Suc)

lemma list_all_replicate [simp]: "list_all P (replicate n x) \<longleftrightarrow> n = 0 \<or> P x"
  by (auto simp: list_all_iff)

lemma init_rlist_wf:
  assumes "0 < n" "0 < sz" "sz < 2 ^ 31"
  shows "\<exists>rt'. init_rlist True True m garbage n sz rt = Some (0, rt') \<and> rt_wf rt' \<and> idx rt' = 1 \<and> entries rt' = n \<and>
    (\<forall>k. route_lookup rt' k = Some (if m \<and> k = ''0'' then 0 else -1))"
proof -
  define rt0 where "rt0 = rt\<lparr>rlist := Some (replicate (nat n) 0), idx := 1, entries := n, names := str_hash_init (snd (str_hash_alloc True garbage sz (names rt)))\<rparr>"
  have n0: "names rt0 = str_hash_init (snd (str_hash_alloc True garbage sz (names rt)))" by (simp add: rt0_def)
  have init: "init_rlist True True m garbage n sz rt = Option.bind (route_add m rt0 ''0'' 0) (\<lambda>(_, rt). Some (0, rt))"
    by (simp add: init_rlist_def rt0_def Let_def str_hash_alloc_def)
  note h = str_hash_init_ok [OF assms(2,3), of garbage "names rt"]
  show ?thesis
  proof (cases m)
    case False
    have "rt_wf rt0" using h assms(1) by (auto simp: rt_wf_def rt0_def)
    moreover have "init_rlist True True m garbage n sz rt = Some (0, rt0)" unfolding init using False by (simp add: route_add_def)
    moreover have "route_lookup rt0 k = Some (-1)" for k using h(2) by (simp add: route_lookup_def n0)
    ultimately show ?thesis using False by (auto simp: rt0_def)
  next
    case True
    obtain t where t: "str_hash_add (names rt0) \<lparr>key = ''0'', eflags = 0, en = 0\<rparr> = Some t" "ht_ok t"
        "\<forall>k. str_hash_get t k = (if k = ''0'' then Some (Some \<lparr>key = ''0'', eflags = 0, en = 0\<rparr>) else str_hash_get (names rt0) k)"
      using sh.add_ok [OF h(1), of "\<lparr>key = ''0'', eflags = 0, en = 0\<rparr>"] unfolding n0 by auto
    have "rt_wf (rt0\<lparr>names := t\<rparr>)" using t(2,3) h(2) assms(1) by (auto simp: rt_wf_def n0 rt0_def)
    moreover have "init_rlist True True m garbage n sz rt = Some (0, rt0\<lparr>names := t\<rparr>)" unfolding init using True t(1) by (simp add: route_add_def)
    moreover have "route_lookup (rt0\<lparr>names := t\<rparr>) k = Some (if k = ''0'' then 0 else -1)" for k
      using t(3) h(2) by (simp add: route_lookup_def n0)
    ultimately show ?thesis using True by (auto simp: rt0_def)
  qed
qed

lemma route_new_list_cases:
  assumes "rt_wf rt" "route_new_list m rt = (i, rt')"
  shows "i = -1 \<and> \<not> m \<and> rt' = rt \<or>
    i = idx rt \<and> idx rt' = idx rt + 1 \<and> idx rt' \<le> entries rt' \<and> names rt' = names rt \<and>
    (\<exists>l z. rlist rt = Some l \<and> rlist rt' = Some (l @ replicate z 0) \<and> int (length l + z) = entries rt' \<and>
      list_all (\<lambda>a. a = 0) (drop (nat (idx rt)) (l @ replicate z 0)))"
proof -
  obtain l where l: "rlist rt = Some l" "int (length l) = entries rt" "0 < idx rt" "idx rt \<le> entries rt" "list_all (\<lambda>a. a = 0) (drop (nat (idx rt)) l)"
    using assms(1) by (auto simp: rt_wf_def)
  show ?thesis
  proof (cases "idx rt \<ge> entries rt")
    case True
    then show ?thesis using assms(2) l
      by (cases m) (auto simp: route_new_list_def Let_def intro!: exI [of _ "nat (entries rt)"])
  next
    case False
    then show ?thesis using assms(2) l by (auto simp: route_new_list_def Let_def intro!: exI [of _ 0])
  qed
qed

lemma route_lookup_eq: "str_hash_get (names rt) k = Some r \<Longrightarrow> route_lookup rt k = Some (case r of Some e \<Rightarrow> en e | None \<Rightarrow> -1)"
  by (simp add: route_lookup_def)

lemma route_add_wf:
  assumes wf: "rt_wf rt" and new: "str_hash_get (names rt) k = Some None"
    and rt': "idx rt' = idx rt + 1" "idx rt' \<le> entries rt'" "names rt' = names rt" "rlist rt' = Some l" "int (length l) = entries rt'" "list_all (\<lambda>a. a = 0) (drop (nat (idx rt')) l)"
  shows "\<exists>rt''. route_add m rt' k (idx rt) = Some (if m then 0 else -1, rt'') \<and> rt_wf rt'' \<and> rlist rt'' = rlist rt' \<and> entries rt'' = entries rt' \<and>
    idx rt'' = idx rt' \<and> (\<forall>j. route_lookup rt'' j = (if m \<and> j = k then Some (idx rt) else route_lookup rt j))"
proof (cases m)
  case False
  have "rt_wf rt'" using wf rt' by (fastforce simp: rt_wf_def)
  then show ?thesis using False rt'(3) by (simp add: route_add_def route_lookup_def)
next
  case True
  let ?e = "\<lparr>key = k, eflags = 0, en = idx rt\<rparr>"
  obtain t where t: "str_hash_add (names rt) ?e = Some t" "ht_ok t" "\<And>j. str_hash_get t j = (if j = k then Some (Some ?e) else str_hash_get (names rt) j)"
    using sh.add_ok [of "names rt" ?e] wf by (auto simp: rt_wf_def)
  have lt: "en e < idx rt" "0 \<le> en e" if "str_hash_get (names rt) j = Some (Some e)" for j e using wf that by (auto simp: rt_wf_def)
  have inj: "i = j" if "str_hash_get (names rt) i = Some (Some e)" "str_hash_get (names rt) j = Some (Some f)" "en e = en f" for i j e f
    using wf that unfolding rt_wf_def by blast
  have pos: "0 < idx rt" using wf by (simp add: rt_wf_def)
  have "rt_wf (rt'\<lparr>names := t\<rparr>)"
    unfolding rt_wf_def
  proof (intro conjI allI impI)
    fix j e assume "str_hash_get (names (rt'\<lparr>names := t\<rparr>)) j = Some (Some e)"
    then show "0 \<le> en e" "en e < idx (rt'\<lparr>names := t\<rparr>)" using lt [of j e] rt'(1) pos by (force simp: t(3) split: if_splits)+
  next
    fix i j e f assume "str_hash_get (names (rt'\<lparr>names := t\<rparr>)) i = Some (Some e)" "str_hash_get (names (rt'\<lparr>names := t\<rparr>)) j = Some (Some f)" "en e = en f"
    then show "i = j" using lt [of i e] lt [of j f] inj [of i e j f] by (auto simp: t(3) split: if_splits)
  qed (use t(2) rt' wf in \<open>auto simp: rt_wf_def\<close>)
  moreover have "route_lookup (rt'\<lparr>names := t\<rparr>) j = (if j = k then Some (idx rt) else route_lookup rt j)" for j
    by (simp add: route_lookup_def t(3))
  ultimately show ?thesis using True t(1) rt'(3) by (simp add: route_add_def)
qed

text \<open>C36: \<^verbatim>\<open>route_get\<close> on a well formed table is defined and keeps it well formed.  A known name gets its index and nothing changes.
  A new name gets an index that no name had, inside the table, of an empty route; the routes and the other names stay.  It fails with -1
  only when memory runs out, and then no name is added.\<close>

theorem route_get_spec:
  assumes wf: "rt_wf rt"
  shows "\<exists>i rt' l l'. route_get m1 m2 rt name = Some (i, rt') \<and> rt_wf rt' \<and> rlist rt = Some l \<and> rlist rt' = Some l' \<and> take (length l) l' = l \<and>
    (case route_lookup rt name of None \<Rightarrow> False
     | Some j \<Rightarrow> if j \<noteq> -1 then i = j \<and> rt' = rt
        else (i = -1 \<longrightarrow> \<not> (m1 \<and> m2) \<and> (\<forall>k. route_lookup rt' k = route_lookup rt k)) \<and>
             (i \<noteq> -1 \<longrightarrow> 0 \<le> i \<and> i < entries rt' \<and> nat i < length l' \<and> l' ! nat i = 0 \<and>
                (\<forall>k. route_lookup rt k \<noteq> Some i) \<and> (\<forall>k. route_lookup rt' k = (if k = name then Some i else route_lookup rt k))))"
proof -
  obtain l where l: "rlist rt = Some l" "int (length l) = entries rt" using wf by (auto simp: rt_wf_def)
  obtain r where r: "str_hash_get (names rt) name = Some r" using wf sh.get_ok [of "names rt" name] by (auto simp: rt_wf_def)
  have lt: "en e < idx rt" "0 \<le> en e" if "str_hash_get (names rt) j = Some (Some e)" for j e using wf that by (auto simp: rt_wf_def)
  have pos: "0 < idx rt" using wf by (simp add: rt_wf_def)
  have nr: "route_lookup rt k \<noteq> Some (idx rt)" for k
  proof
    assume "route_lookup rt k = Some (idx rt)"
    then obtain r where "str_hash_get (names rt) k = Some r" "(case r of Some e \<Rightarrow> en e | None \<Rightarrow> -1) = idx rt"
      by (auto simp: route_lookup_def bind_eq_Some_conv)
    moreover have "0 < idx rt" using wf by (simp add: rt_wf_def)
    ultimately show False using lt(1) [of k] by (cases r) auto
  qed
  show ?thesis
  proof (cases r)
    case (Some e)
    then show ?thesis using wf l r lt [of name e] by (simp add: route_get_def route_lookup_eq [OF r])
  next
    case None
    obtain i rt1 where n: "route_new_list m1 rt = (i, rt1)" by force
    from route_new_list_cases [OF wf n] show ?thesis
    proof (elim disjE conjE exE)
      assume "i = -1" "\<not> m1" "rt1 = rt"
      then show ?thesis using wf l r None n by (simp add: route_get_def route_lookup_eq [OF r])
    next
      fix l0 z
      assume i: "i = idx rt" "idx rt1 = idx rt + 1" "idx rt1 \<le> entries rt1" "names rt1 = names rt"
        and z: "rlist rt = Some l0" "rlist rt1 = Some (l0 @ replicate z 0)" "int (length l0 + z) = entries rt1"
          "list_all (\<lambda>a. a = 0) (drop (nat (idx rt)) (l0 @ replicate z 0))"
      obtain rt2 where rt2: "route_add m2 rt1 name (idx rt) = Some (if m2 then 0 else -1, rt2)" "rt_wf rt2" "rlist rt2 = rlist rt1" "entries rt2 = entries rt1"
          "idx rt2 = idx rt1" "\<forall>j. route_lookup rt2 j = (if m2 \<and> j = name then Some (idx rt) else route_lookup rt j)"
        using route_add_wf [OF wf r [unfolded None] i(2,3,4) z(2), of m2] z(3) list_all_drop_Suc [OF z(4)] i(2) pos by (auto simp: nat_add_distrib)
      have "nat (idx rt) < length (l0 @ replicate z 0)" using i(2,3) z(3) pos by simp
      then have "(l0 @ replicate z 0) ! nat (idx rt) = 0" using z(4) Cons_nth_drop_Suc [of "nat (idx rt)" "l0 @ replicate z 0"]
        by (metis list.pred_inject(2))
      then show ?thesis
        using rt2 i z n r None nr pos by (cases m2) (auto simp: route_get_def route_lookup_eq [OF r])
    qed
  qed
qed

theorem route_get_spec_witness:
  "\<exists>rt. init_rlist True True True [] RT_NO RT_HASH_SIZE \<lparr>rlist = None, idx = 0, entries = 0, names = \<lparr>table = None, size_of = 0\<rparr>\<rparr> = Some (0, rt) \<and>
     (\<exists>i rt'. route_get True True rt ''foo'' = Some (i, rt') \<and> rt_wf rt')"
proof -
  let ?rt = "\<lparr>rlist = None, idx = 0, entries = 0, names = \<lparr>table = None, size_of = 0\<rparr>\<rparr>"
  have c: "0 < RT_NO" "0 < RT_HASH_SIZE" "RT_HASH_SIZE < 2 ^ 31" by (simp_all add: RT_NO_def RT_HASH_SIZE_def)
  obtain rt where "init_rlist True True True [] RT_NO RT_HASH_SIZE ?rt = Some (0, rt)" "rt_wf rt" using init_rlist_wf [OF c, of True "[]" ?rt] by blast
  then show ?thesis using route_get_spec [of rt True True "''foo''"] by blast
qed

end
