(* ===== verification/PrefixRoute.thy ===== *)
theory PrefixRoute
  imports Routes
begin

text \<open>
  Routing by prefix, \<^verbatim>\<open>src/sip_router/modules/prefix_route\<close>: the digit tree and its reference counted publication
  (\<^verbatim>\<open>tree.c\<close>), loading it from the database and routing a request (\<^verbatim>\<open>prefix_route.c\<close>).  A tree is only reachable through its
  root, so that an item is the value of its fields; \<open>None\<close> is a null pointer.  \<open>mem n\<close> is the outcome of the \<open>n\<close>-th
  allocation, and the state counts the allocations made and the items and trees allocated and not yet freed.
\<close>

section \<open>Items\<close>

definition DIGITS :: nat where "DIGITS = 10"

datatype tree_item = Item (digits: "tree_item option list") (iname: "string option") (route: int)

record pr_mem =
  calls :: nat
  live :: nat

definition shm_malloc :: "(nat \<Rightarrow> bool) \<Rightarrow> pr_mem \<Rightarrow> bool \<times> pr_mem" where
  "shm_malloc mem s = (mem (calls s), s\<lparr>calls := calls s + 1, live := live s + (if mem (calls s) then 1 else 0)\<rparr>)"

definition shm_free :: "pr_mem \<Rightarrow> pr_mem" where
  "shm_free s = s\<lparr>live := live s - 1\<rparr>"

definition tree_item_alloc :: "(nat \<Rightarrow> bool) \<Rightarrow> pr_mem \<Rightarrow> tree_item option \<times> pr_mem" where
  "tree_item_alloc mem s =
     (let (ok, s) = shm_malloc mem s in if \<not> ok then (None, s) else (Some (Item (replicate DIGITS None) None 0), s))"

fun tree_item_free :: "tree_item option \<Rightarrow> pr_mem \<Rightarrow> pr_mem" and tree_items_free :: "tree_item option list \<Rightarrow> pr_mem \<Rightarrow> pr_mem" where
  "tree_item_free None s = s"
| "tree_item_free (Some (Item ds nm r)) s = shm_free (tree_items_free ds s)"
| "tree_items_free [] s = s"
| "tree_items_free (d # ds) s = tree_items_free ds (tree_item_free d s)"

text \<open>The walk of \<^verbatim>\<open>tree_item_add\<close>; an item the walk goes through is put back with its changed child.\<close>

fun add_walk :: "(nat \<Rightarrow> bool) \<Rightarrow> string \<Rightarrow> int \<Rightarrow> tree_item \<Rightarrow> string \<Rightarrow> pr_mem \<Rightarrow> int \<times> tree_item \<times> pr_mem" where
  "add_walk mem rt ix (Item ds nm r) [] s = (0, Item ds (Some (take 15 rt)) ix, s)"
| "add_walk mem rt ix (Item ds nm r) (p # ps) s =
     (if \<not> is_digit p then add_walk mem rt ix (Item ds nm r) ps s
      else let d = digit_val p
           in case ds ! d of
                Some c \<Rightarrow> (let (err, c', s) = add_walk mem rt ix c ps s in (err, Item (ds[d := Some c']) nm r, s))
              | None \<Rightarrow>
                  (case tree_item_alloc mem s of
                     (None, s) \<Rightarrow> (-1, Item ds nm r, s)
                   | (Some c, s) \<Rightarrow> (let (err, c', s) = add_walk mem rt ix c ps s in (err, Item (ds[d := Some c']) nm r, s))))"

definition tree_item_add :: "(nat \<Rightarrow> bool) \<Rightarrow> tree_item option \<Rightarrow> string option \<Rightarrow> string \<Rightarrow> int \<Rightarrow> pr_mem \<Rightarrow> int \<times> tree_item option \<times> pr_mem" where
  "tree_item_add mem root prefix rt route_ix s =
     (case (root, prefix) of
        (Some item, Some p) \<Rightarrow>
          if route_ix \<le> 0 then (-1, root, s)
          else (let (err, item, s) = add_walk mem rt route_ix item p s in (err, Some item, s))
      | _ \<Rightarrow> (-1, root, s))"

fun get_walk :: "tree_item \<Rightarrow> string \<Rightarrow> int \<Rightarrow> int" where
  "get_walk item [] rt = rt"
| "get_walk item (p # ps) rt =
     (if \<not> is_digit p then get_walk item ps rt
      else let rt = (if route item > 0 then route item else rt)
           in case digits item ! digit_val p of None \<Rightarrow> rt | Some c \<Rightarrow> get_walk c ps rt)"

definition tree_item_get :: "tree_item option \<Rightarrow> string option \<Rightarrow> int" where
  "tree_item_get root user =
     (case (root, user) of
        (Some item, Some u) \<Rightarrow> if u = [] then -1 else get_walk item u 0
      | _ \<Rightarrow> -1)"

section \<open>The shared tree, one process\<close>

record tree =
  root :: "tree_item option"
  refcnt :: int

definition tree_alloc :: "(nat \<Rightarrow> bool) \<Rightarrow> pr_mem \<Rightarrow> tree option \<times> pr_mem" where
  "tree_alloc mem s = (let (ok, s) = shm_malloc mem s in (if ok then Some \<lparr>root = None, refcnt = 0\<rparr> else None, s))"

text \<open>Without other processes \<^verbatim>\<open>tree_flush\<close> waits for ever (\<open>None\<close>) on a tree that is referenced.\<close>

definition tree_flush :: "tree option \<Rightarrow> pr_mem \<Rightarrow> pr_mem option" where
  "tree_flush t s = (case t of None \<Rightarrow> Some s
     | Some t \<Rightarrow> if refcnt t > 0 then None else Some (shm_free (tree_item_free (root t) s)))"

record pr_state =
  shared_tree :: "tree option"
  pmem :: pr_mem

definition tree_swap :: "(nat \<Rightarrow> bool) \<Rightarrow> tree_item option \<Rightarrow> pr_state \<Rightarrow> (int \<times> pr_state) option" where
  "tree_swap mem rt s =
     (case tree_alloc mem (pmem s) of
        (None, m) \<Rightarrow> Some (-1, s\<lparr>pmem := m\<rparr>)
      | (Some new_tree, m) \<Rightarrow>
          (let old_tree = shared_tree s; s = s\<lparr>shared_tree := Some (new_tree\<lparr>root := rt\<rparr>), pmem := m\<rparr>
           in Option.bind (tree_flush old_tree (pmem s)) (\<lambda>m. Some (0, s\<lparr>pmem := m\<rparr>))))"

text \<open>\<^verbatim>\<open>tree_ref\<close> increments the count of the shared tree before anyone tests it for null.\<close>

definition tree_ref :: "pr_state \<Rightarrow> (tree \<times> pr_state) option" where
  "tree_ref s = (case shared_tree s of None \<Rightarrow> None
     | Some t \<Rightarrow> let t = t\<lparr>refcnt := refcnt t + 1\<rparr> in Some (t, s\<lparr>shared_tree := Some t\<rparr>))"

definition tree_deref :: "pr_state \<Rightarrow> pr_state" where
  "tree_deref s = s\<lparr>shared_tree := map_option (\<lambda>t. t\<lparr>refcnt := refcnt t - 1\<rparr>) (shared_tree s)\<rparr>"

definition tree_route_get :: "string option \<Rightarrow> pr_state \<Rightarrow> (int \<times> pr_state) option" where
  "tree_route_get user s =
     Option.bind (tree_ref s) (\<lambda>(t, s). Some (tree_item_get (root t) user, tree_deref s))"

definition tree_init :: "(nat \<Rightarrow> bool) \<Rightarrow> pr_mem \<Rightarrow> int \<times> pr_state" where
  "tree_init mem m = (let (ok, m) = shm_malloc mem m in (if ok then 0 else -1, \<lparr>shared_tree = None, pmem = m\<rparr>))"

definition tree_close :: "pr_state \<Rightarrow> pr_state option" where
  "tree_close s = Option.bind (tree_flush (shared_tree s) (pmem s)) (\<lambda>m. Some (s\<lparr>pmem := m\<rparr>))"

section \<open>Loading and routing\<close>

definition add_route :: "route_list \<Rightarrow> (nat \<Rightarrow> bool) \<Rightarrow> tree_item option \<Rightarrow> string \<Rightarrow> string \<Rightarrow> pr_mem \<Rightarrow> (int \<times> tree_item option \<times> pr_mem) option" where
  "add_route main_rt mem rt prefix route_name s =
     Option.bind (route_lookup main_rt route_name) (\<lambda>ix.
     if ix < 0 then Some (-1, rt, s)
     else if ix \<ge> entries main_rt then Some (-1, rt, s)
     else Some (tree_item_add mem rt (Some prefix) route_name ix s))"

text \<open>The rows of the table, as the database returns them: prefix and route name, each possibly null.\<close>

fun load_rows :: "route_list \<Rightarrow> (nat \<Rightarrow> bool) \<Rightarrow> tree_item option \<Rightarrow> (string option \<times> string option) list \<Rightarrow> pr_mem \<Rightarrow> (int \<times> tree_item option \<times> pr_mem) option" where
  "load_rows main_rt mem rt [] s = Some (0, rt, s)"
| "load_rows main_rt mem rt (row # rows) s =
     (case row of
        (Some prefix, Some route_name) \<Rightarrow>
          Option.bind (add_route main_rt mem rt prefix route_name s) (\<lambda>(err, rt, s).
          if err \<noteq> 0 then Some (err, rt, s) else load_rows main_rt mem rt rows s)
      | _ \<Rightarrow> load_rows main_rt mem rt rows s)"

text \<open>\<open>db\<close> is the result set, or \<open>None\<close> when the context, connection, command or query fails.\<close>

definition pr_db_load :: "route_list \<Rightarrow> (nat \<Rightarrow> bool) \<Rightarrow> (string option \<times> string option) list option \<Rightarrow> pr_state \<Rightarrow> (int \<times> pr_state) option" where
  "pr_db_load main_rt mem db s =
     (case db of None \<Rightarrow> Some (-1, s)
      | Some rows \<Rightarrow>
         (case tree_item_alloc mem (pmem s) of
            (None, m) \<Rightarrow> Some (-1, s\<lparr>pmem := m\<rparr>)
          | (Some r, m) \<Rightarrow>
              Option.bind (load_rows main_rt mem (Some r) rows m) (\<lambda>(err, rt, m).
              if err \<noteq> 0 then Some (err, s\<lparr>pmem := tree_item_free rt m\<rparr>)
              else tree_swap mem rt (s\<lparr>pmem := m\<rparr>))))"

definition mod_init :: "route_list \<Rightarrow> (nat \<Rightarrow> bool) \<Rightarrow> (string option \<times> string option) list option \<Rightarrow> pr_mem \<Rightarrow> (int \<times> pr_state) option" where
  "mod_init main_rt mem db m =
     (let (r, s) = tree_init mem m
      in if r \<noteq> 0 then Some (-1, s)
         else Option.bind (pr_db_load main_rt mem db s) (\<lambda>(r, s). Some (if r \<noteq> 0 then -1 else 0, s)))"

text \<open>\<open>uri\<close> is the user part of the parsed Request URI: \<open>None\<close> if parsing fails, \<open>Some None\<close> if there is no user.
  \<open>run\<close> is the result of running the actions of a route.\<close>

definition prefix_route :: "string option option \<Rightarrow> (int \<Rightarrow> int) \<Rightarrow> pr_state \<Rightarrow> (int \<times> pr_state) option" where
  "prefix_route uri run s =
     (case uri of None \<Rightarrow> Some (-1, s)
      | Some None \<Rightarrow> Some (-2, s)
      | Some (Some user) \<Rightarrow>
          Option.bind (tree_route_get (Some user) s) (\<lambda>(rt, s).
          if rt \<le> 0 then Some (-1, s)
          else Some (if run rt < 0 then -1 else 0, s)))"

section \<open>The shared tree, many processes\<close>

text \<open>
  Trees are numbered in the order of their allocation.  A process is at one of the accesses to shared memory of \<^verbatim>\<open>tree_route_get\<close>
  (\<open>At_ref\<close>, \<open>At_use\<close>, \<open>At_deref\<close>; \<^verbatim>\<open>tree_print\<close> is the same) or of \<^verbatim>\<open>tree_swap\<close> and \<^verbatim>\<open>tree_flush\<close>.  What happens under the lock is one access.
\<close>

datatype tree_pc = Idle | At_ref | At_use nat | At_deref nat | At_alloc | At_get nat | At_swap nat "nat option" | At_wait "nat option" | At_free nat | Crash

record tree_heap =
  shared :: "nat option"
  refs :: "nat \<Rightarrow> int"
  freed :: "nat set"
  fresh :: nat

fun tree_step :: "tree_pc \<Rightarrow> tree_heap \<Rightarrow> tree_pc \<times> tree_heap" where
  "tree_step At_ref h = (case shared h of None \<Rightarrow> (Crash, h) | Some t \<Rightarrow> (At_use t, h\<lparr>refs := (refs h)(t := refs h t + 1)\<rparr>))"
| "tree_step (At_use t) h = (At_deref t, h)"
| "tree_step (At_deref t) h = (Idle, h\<lparr>refs := (refs h)(t := refs h t - 1)\<rparr>)"
| "tree_step At_alloc h = (At_get (fresh h), h\<lparr>refs := (refs h)(fresh h := 0), fresh := fresh h + 1\<rparr>)"
| "tree_step (At_get n) h = (At_swap n (shared h), h)"
| "tree_step (At_swap n old) h = (At_wait old, h\<lparr>shared := Some n\<rparr>)"
| "tree_step (At_wait None) h = (Idle, h)"
| "tree_step (At_wait (Some t)) h = (if refs h t \<le> 0 then At_free t else At_wait (Some t), h)"
| "tree_step (At_free t) h = (Idle, h\<lparr>freed := insert t (freed h)\<rparr>)"
| "tree_step pc h = (pc, h)"

text \<open>The tree whose memory the next step of a process accesses.\<close>

fun touched :: "tree_pc \<Rightarrow> nat option" where
  "touched (At_use t) = Some t"
| "touched (At_deref t) = Some t"
| "touched (At_wait o') = o'"
| "touched (At_free t) = Some t"
| "touched _ = None"

fun reloading :: "tree_pc \<Rightarrow> bool" where
  "reloading Idle = False"
| "reloading At_ref = False"
| "reloading (At_use t) = False"
| "reloading (At_deref t) = False"
| "reloading _ = True"

text \<open>The states \<open>n\<close> processes reach after the first load; with \<open>excl\<close> a reload starts only when no other one is under way.\<close>

inductive tree_reach :: "bool \<Rightarrow> nat \<Rightarrow> tree_pc list \<Rightarrow> tree_heap \<Rightarrow> bool" for excl n where
  start: "tree_reach excl n (replicate n Idle) \<lparr>shared = Some 0, refs = \<lambda>_. 0, freed = {}, fresh = 1\<rparr>"
| read: "tree_reach excl n ps h \<Longrightarrow> p < n \<Longrightarrow> ps ! p = Idle \<Longrightarrow> tree_reach excl n (ps[p := At_ref]) h"
| reload: "tree_reach excl n ps h \<Longrightarrow> p < n \<Longrightarrow> ps ! p = Idle \<Longrightarrow> excl \<longrightarrow> filter reloading ps = [] \<Longrightarrow> tree_reach excl n (ps[p := At_alloc]) h"
| step: "tree_reach excl n ps h \<Longrightarrow> p < n \<Longrightarrow> tree_step (ps ! p) h = (pc, h') \<Longrightarrow> tree_reach excl n (ps[p := pc]) h'"

section \<open>The tree as a map from digit strings to routes\<close>

fun item_at :: "tree_item \<Rightarrow> string \<Rightarrow> int" where
  "item_at item [] = route item"
| "item_at item (p # ps) = (case digits item ! digit_val p of None \<Rightarrow> 0 | Some c \<Rightarrow> item_at c ps)"

definition digits_of :: "string \<Rightarrow> string" where
  "digits_of u = filter is_digit u"

text \<open>Every item has ten children and its route number is positive only with a name.\<close>

inductive item_wf :: "tree_item \<Rightarrow> bool" where
  item_wf: "length ds = DIGITS \<Longrightarrow> 0 \<le> r \<Longrightarrow> (0 < r \<longrightarrow> nm \<noteq> None) \<Longrightarrow> (\<And>c. Some c \<in> set ds \<Longrightarrow> item_wf c) \<Longrightarrow> item_wf (Item ds nm r)"

inductive_simps item_wf_iff: "item_wf (Item ds nm r)"

lemma item_wf_child:
  assumes "item_wf item" "is_digit p" "digits item ! digit_val p = Some c"
  shows "item_wf c"
proof (cases item)
  case (Item ds nm r)
  then have "Some c \<in> set ds" using assms digit_val_less [of p] by (metis DIGITS_def item_wf_iff nth_mem tree_item.sel(1))
  then show ?thesis using assms(1) by (simp add: Item item_wf_iff)
qed

lemma item_wf_new: "item_wf (Item (replicate DIGITS None) None 0)"
  by (auto simp: item_wf_iff)

lemma item_wf_update:
  assumes "item_wf (Item ds nm r)" "item_wf c"
  shows "item_wf (Item (ds[d := Some c]) nm r)"
  using assms by (auto simp: item_wf_iff dest!: subsetD [OF set_update_subset_insert])

text \<open>The route of the longest proper prefix that has one.\<close>

definition best_match :: "(string \<Rightarrow> int) \<Rightarrow> string \<Rightarrow> int \<Rightarrow> int" where
  "best_match f ds r = (let ms = filter (\<lambda>n. f (take n ds) > 0) [0..<length ds] in if ms = [] then r else f (take (last ms) ds))"

lemma best_match_Cons: "best_match f (p # ds) r = best_match (\<lambda>q. f (p # q)) ds (if f [] > 0 then f [] else r)"
proof -
  define ms where "ms = filter (\<lambda>n. f (p # take n ds) > 0) [0..<length ds]"
  have "[0..<length (p # ds)] = 0 # map Suc [0..<length ds]" by (simp only: list.size add_Suc_right add_0_right upt_conv_Cons zero_less_Suc map_Suc_upt)
  then have "filter (\<lambda>n. f (take n (p # ds)) > 0) [0..<length (p # ds)] = (if f [] > 0 then [0] else []) @ map Suc ms"
    by (simp add: filter_map o_def ms_def)
  moreover have "ms \<noteq> [] \<Longrightarrow> last (map Suc ms) = Suc (last ms)" by (simp add: last_map)
  ultimately show ?thesis by (auto simp: best_match_def Let_def simp flip: ms_def)
qed

lemma best_match_none: "best_match (\<lambda>q. 0) ds r = r"
  by (simp add: best_match_def)

lemma best_match_Nil: "best_match f [] r = r"
  by (simp add: best_match_def)

lemma get_walk_best: "get_walk item u r = best_match (item_at item) (digits_of u) r"
proof (induction u arbitrary: item r)
  case (Cons p u)
  show ?case
  proof (cases "is_digit p")
    case True
    then have d: "digits_of (p # u) = p # digits_of u" by (simp add: digits_of_def)
    show ?thesis
    proof (cases "digits item ! digit_val p")
      case None
      then show ?thesis using True by (simp add: d best_match_Cons best_match_none)
    next
      case (Some c)
      then show ?thesis using True Cons.IH [of c] by (simp add: d best_match_Cons)
    qed
  next
    case False
    then show ?thesis using Cons.IH by (simp add: digits_of_def)
  qed
qed (simp add: digits_of_def best_match_Nil)

section \<open>Adding a prefix\<close>

fun items :: "tree_item option \<Rightarrow> nat" and items_list :: "tree_item option list \<Rightarrow> nat" where
  "items None = 0"
| "items (Some (Item ds nm r)) = Suc (items_list ds)"
| "items_list [] = 0"
| "items_list (d # ds) = items d + items_list ds"

lemma items_list_update: "i < length ds \<Longrightarrow> items_list (ds[i := x]) + items (ds ! i) = items_list ds + items x"
  by (induction ds arbitrary: i) (auto split: nat.splits)

lemma items_list_replicate [simp]: "items_list (replicate n None) = 0"
  by (induction n) auto

lemma tree_item_alloc_cases:
  assumes "tree_item_alloc mem s = (c, s')"
  shows "c = None \<and> live s' = live s \<and> \<not> mem (calls s) \<or> c = Some (Item (replicate DIGITS None) None 0) \<and> live s' = Suc (live s) \<and> mem (calls s)"
  using assms by (auto simp: tree_item_alloc_def shm_malloc_def split: if_splits)

lemma digit_val_inj: "is_digit p \<Longrightarrow> is_digit q \<Longrightarrow> digit_val p = digit_val q \<Longrightarrow> p = q"
  by (metis digit_chr_digit_val)

lemma item_at_update:
  assumes "all_digits q" "is_digit p" "length ds = DIGITS"
  shows "item_at (Item (ds[digit_val p := Some c]) nm r) q =
    (case q of [] \<Rightarrow> r | x # q' \<Rightarrow> if x = p then item_at c q' else item_at (Item ds nm r) q)"
proof (cases q)
  case (Cons x q')
  have d: "digit_val p < length ds" using assms(2,3) digit_val_less by (simp add: DIGITS_def)
  show ?thesis
  proof (cases "x = p")
    case True
    then show ?thesis using d by (simp add: Cons)
  next
    case False
    then have "digit_val p \<noteq> digit_val x" using assms(1,2) digit_val_inj [of p x] by (auto simp: Cons)
    then show ?thesis using False by (simp add: Cons)
  qed
qed simp

text \<open>What a walk leaves: the route at the digits of the prefix if it succeeds, every other route unchanged, no item unaccounted for.\<close>

lemma add_walk_spec:
  assumes "item_wf item" "0 < ix" "add_walk mem rt ix item p s = (err, item', s')"
  shows "item_wf item' \<and> (err = 0 \<or> err = -1) \<and> live s' + items (Some item) = live s + items (Some item') \<and>
    (\<forall>q. all_digits q \<longrightarrow> item_at item' q = (if err = 0 \<and> q = digits_of p then ix else item_at item q))"
  using assms
proof (induction mem rt ix item p s arbitrary: err item' s' rule: add_walk.induct)
  case (1 mem rt ix ds nm r s)
  have "item_at (Item ds (Some (take 15 rt)) ix) q = item_at (Item ds nm r) q" if "q \<noteq> []" for q
    using that by (induction q) simp_all
  then show ?case using 1 by (auto simp: item_wf_iff digits_of_def)
next
  case (2 mem rt ix ds nm r p ps s)
  show ?case
  proof (cases "is_digit p")
    case False
    then show ?thesis using "2.IH"(1) [OF False "2.prems"(1,2)] "2.prems"(3) by (simp add: digits_of_def)
  next
    case True
    have l: "length ds = DIGITS" "digit_val p < length ds" using "2.prems"(1) digit_val_less [OF True] by (auto simp: item_wf_iff DIGITS_def)
    have fin: "item_wf item' \<and> (err = 0 \<or> err = -1) \<and> live s' + items (Some (Item ds nm r)) = live s + items (Some item') \<and>
        (\<forall>q. all_digits q \<longrightarrow> item_at item' q = (if err = 0 \<and> q = digits_of (p # ps) then ix else item_at (Item ds nm r) q))"
      if c: "item_wf c'" "err = 0 \<or> err = -1" "live s' + items (ds ! digit_val p) = live s + items (Some c')" "item' = Item (ds[digit_val p := Some c']) nm r"
        "\<And>q. all_digits q \<Longrightarrow> item_at c' q = (if err = 0 \<and> q = digits_of ps then ix else item_at (Item ds nm r) (p # q))" for c'
    proof (intro conjI allI impI)
      show "item_wf item'" using item_wf_update [OF "2.prems"(1) c(1)] c(4) by simp
      show "live s' + items (Some (Item ds nm r)) = live s + items (Some item')"
        using c(3) items_list_update [OF l(2), of "Some c'"] c(4) by simp
      show "item_at item' q = (if err = 0 \<and> q = digits_of (p # ps) then ix else item_at (Item ds nm r) q)" if "all_digits q" for q
        using item_at_update [OF that True l(1), of c' nm r] c(5) that True unfolding c(4)
        by (auto simp: digits_of_def split: list.splits)
    qed (rule c(2))
    show ?thesis
    proof (cases "ds ! digit_val p")
      case (Some c)
      obtain e c' t where w: "add_walk mem rt ix c ps s = (e, c', t)" by (cases "add_walk mem rt ix c ps s") auto
      have eq: "err = e" "item' = Item (ds[digit_val p := Some c']) nm r" "s' = t" using "2.prems"(3) True Some w by auto
      have "item_wf c" using item_wf_child [OF "2.prems"(1) True] Some by simp
      then show ?thesis using "2.IH"(3) [OF _ refl Some _ "2.prems"(2) w] True Some eq by (intro fin [of c']) auto
    next
      case None
      obtain a u where a: "tree_item_alloc mem s = (a, u)" by force
      from tree_item_alloc_cases [OF a] show ?thesis
      proof (elim disjE conjE)
        assume "a = None" "live u = live s"
        then show ?thesis using "2.prems" True None a by (auto simp: digits_of_def)
      next
        assume c: "a = Some (Item (replicate DIGITS None) None 0)" "live u = Suc (live s)"
        let ?c = "Item (replicate DIGITS None) None 0"
        obtain e c' t where w: "add_walk mem rt ix ?c ps u = (e, c', t)" by (cases "add_walk mem rt ix ?c ps u") auto
        have eq: "err = e" "item' = Item (ds[digit_val p := Some c']) nm r" "s' = t" using "2.prems"(3) True None a c w by auto
        have "item_at ?c q = 0" if "all_digits q" for q using that digit_val_less by (cases q) (auto simp: DIGITS_def)
        then show ?thesis
          using "2.IH"(2) [OF _ refl None a [unfolded c(1), symmetric] refl item_wf_new "2.prems"(2) w] True None eq c(2) by (intro fin [of c']) auto
      qed
    qed
  qed
qed

section \<open>Loading\<close>

text \<open>The map the rows denote: the last row of a digit string counts, rows with a null field are skipped.\<close>

fun prefix_map :: "route_list \<Rightarrow> (string option \<times> string option) list \<Rightarrow> (string \<Rightarrow> int) \<Rightarrow> string \<Rightarrow> int" where
  "prefix_map main_rt [] f = f"
| "prefix_map main_rt (row # rows) f = prefix_map main_rt rows
     (case row of (Some p, Some n) \<Rightarrow> f(digits_of p := the (route_lookup main_rt n)) | _ \<Rightarrow> f)"

lemma prefix_map_eq:
  "(\<And>q. all_digits q \<Longrightarrow> f q = g q) \<Longrightarrow> all_digits q \<Longrightarrow> prefix_map main_rt rows f q = prefix_map main_rt rows g q"
proof (induction rows arbitrary: f g)
  case (Cons row rows)
  show ?case by (simp, rule Cons.IH) (use Cons.prems in \<open>auto split: option.splits prod.splits\<close>)
qed simp

lemma all_digits_of [simp]: "all_digits (digits_of u)"
  by (induction u) (auto simp: digits_of_def)

lemma route_lookup_total:
  assumes "rt_wf main_rt"
  shows "\<exists>ix. route_lookup main_rt n = Some ix"
proof -
  have "ht_ok (names main_rt)" using assms by (simp add: rt_wf_def)
  then show ?thesis using sh.get_ok [of "names main_rt" n] by (auto simp: route_lookup_def)
qed

lemma add_route_cases:
  assumes "rt_wf main_rt" "item_wf item"
  shows "\<exists>err item' s'. add_route main_rt mem (Some item) p n s = Some (err, Some item', s') \<and> item_wf item' \<and>
    live s' + items (Some item) = live s + items (Some item') \<and> (err = 0 \<or> err = -1) \<and>
    (\<forall>q. all_digits q \<longrightarrow> item_at item' q = (if err = 0 \<and> q = digits_of p then the (route_lookup main_rt n) else item_at item q))"
proof -
  obtain ix where ix: "route_lookup main_rt n = Some ix" using route_lookup_total [OF assms(1)] by blast
  obtain err item' s' where w: "add_walk mem n ix item p s = (err, item', s')" by (cases "add_walk mem n ix item p s") auto
  show ?thesis
  proof (cases "0 < ix \<and> ix < entries main_rt")
    case True
    then show ?thesis using ix w add_walk_spec [OF assms(2) _ w] by (simp add: add_route_def tree_item_add_def)
  next
    case False
    then show ?thesis using ix assms(2) by (auto simp: add_route_def tree_item_add_def)
  qed
qed

lemma load_rows_spec:
  assumes "rt_wf main_rt" "item_wf item"
  shows "\<exists>err item' s'. load_rows main_rt mem (Some item) rows s = Some (err, Some item', s') \<and> item_wf item' \<and>
    live s' + items (Some item) = live s + items (Some item') \<and> (err = 0 \<or> err = -1) \<and>
    (err = 0 \<longrightarrow> (\<forall>q. all_digits q \<longrightarrow> item_at item' q = prefix_map main_rt rows (item_at item) q))"
  using assms(2)
proof (induction rows arbitrary: item s)
  case (Cons row rows)
  show ?case
  proof (cases "\<exists>p n. row = (Some p, Some n)")
    case True
    then obtain p n where row: "row = (Some p, Some n)" by blast
    obtain err item' s' where a: "add_route main_rt mem (Some item) p n s = Some (err, Some item', s')" "item_wf item'"
        "live s' + items (Some item) = live s + items (Some item')" "err = 0 \<or> err = -1"
        "\<forall>q. all_digits q \<longrightarrow> item_at item' q = (if err = 0 \<and> q = digits_of p then the (route_lookup main_rt n) else item_at item q)"
      using add_route_cases [OF assms(1) Cons.prems] by blast
    show ?thesis
    proof (cases "err = 0")
      case True
      have "prefix_map main_rt rows (item_at item') q = prefix_map main_rt rows ((item_at item)(digits_of p := the (route_lookup main_rt n))) q" if "all_digits q" for q
        by (rule prefix_map_eq [OF _ that]) (use a(5) True in simp)
      then show ?thesis using Cons.IH [OF a(2), of s'] a(1,3) True by (auto simp: row)
    next
      case False
      then show ?thesis using a by (simp add: row)
    qed
  next
    case False
    then show ?thesis using Cons.IH [OF Cons.prems, of s] by (cases row) (auto split: option.splits)
  qed
qed simp

lemma tree_free_live:
  "live s \<ge> items t \<Longrightarrow> live (tree_item_free t s) = live s - items t"
  "live s \<ge> items_list ds \<Longrightarrow> live (tree_items_free ds s) = live s - items_list ds"
  by (induction t s and ds s rule: tree_item_free_tree_items_free.induct) (auto simp: shm_free_def)

text \<open>The published tree is well formed, unreferenced, and accounted for.\<close>

definition tree_mem :: "tree option \<Rightarrow> nat" where
  "tree_mem t = (case t of None \<Rightarrow> 0 | Some t \<Rightarrow> Suc (items (root t)))"

definition pr_wf :: "pr_state \<Rightarrow> bool" where
  "pr_wf s = (tree_mem (shared_tree s) \<le> live (pmem s) \<and>
     (case shared_tree s of None \<Rightarrow> True | Some t \<Rightarrow> refcnt t = 0 \<and> (\<exists>item. root t = Some item \<and> item_wf item)))"

lemma tree_flush_ok:
  assumes "pr_wf s" "tree_mem (shared_tree s) \<le> live m"
  shows "\<exists>m'. tree_flush (shared_tree s) m = Some m' \<and> live m' + tree_mem (shared_tree s) = live m"
  using assms by (auto simp: tree_flush_def pr_wf_def tree_mem_def tree_free_live shm_free_def split: option.splits)

lemma prefix_route_eq:
  assumes "pr_wf s" "shared_tree s = Some t" "root t = Some item" "user \<noteq> []"
  shows "prefix_route (Some (Some user)) run s =
    Some (let i = best_match (item_at item) (digits_of user) 0 in if i \<le> 0 then -1 else if run i < 0 then -1 else 0, s)"
  using assms by (simp add: prefix_route_def tree_route_get_def tree_ref_def tree_item_get_def tree_deref_def get_walk_best Let_def)

lemma pr_db_load_cases:
  assumes wf: "rt_wf main_rt" "pr_wf s" and load: "pr_db_load main_rt mem (Some rows) s = Some (err, s')"
  shows "err \<noteq> 0 \<and> shared_tree s' = shared_tree s \<and> pr_wf s' \<and>
      (live (pmem s') = live (pmem s) \<or> (\<exists>item m. load_rows main_rt mem (Some (Item (replicate DIGITS None) None 0)) rows (snd (tree_item_alloc mem (pmem s))) =
        Some (0, Some item, m) \<and> \<not> mem (calls m) \<and> live (pmem s') = live (pmem s) + items (Some item))) \<or>
    err = 0 \<and> pr_wf s' \<and> live (pmem s') + tree_mem (shared_tree s) = live (pmem s) + tree_mem (shared_tree s') \<and>
      (\<exists>t item. shared_tree s' = Some t \<and> root t = Some item \<and> (\<forall>q. all_digits q \<longrightarrow> item_at item q = prefix_map main_rt rows (\<lambda>_. 0) q))"
proof -
  let ?new = "Item (replicate DIGITS None) None 0"
  obtain a m1 where a: "tree_item_alloc mem (pmem s) = (a, m1)" by force
  from tree_item_alloc_cases [OF a] show ?thesis
  proof (elim disjE conjE)
    assume "a = None" "live m1 = live (pmem s)"
    then show ?thesis using wf(2) load a by (auto simp: pr_db_load_def pr_wf_def)
  next
    assume c: "a = Some ?new" "live m1 = Suc (live (pmem s))"
    obtain e item m2 where l: "load_rows main_rt mem (Some ?new) rows m1 = Some (e, Some item, m2)" "item_wf item" "live m2 + 1 = live m1 + items (Some item)"
        "e = 0 \<or> e = -1" "e = 0 \<Longrightarrow> all_digits q \<Longrightarrow> item_at item q = prefix_map main_rt rows (item_at ?new) q" for q
      using load_rows_spec [OF wf(1) item_wf_new, of mem rows m1] by (auto simp del: load_rows.simps)
    have new0: "item_at ?new q = 0" if "all_digits q" for q using that digit_val_less by (cases q) (auto simp: DIGITS_def)
    have b: "tree_mem (shared_tree s) \<le> live (pmem s)" using wf(2) by (simp add: pr_wf_def)
    show ?thesis
    proof (cases "e = 0")
      case False
      then show ?thesis using load a c l(1,3) wf(2) b by (auto simp: pr_db_load_def pr_wf_def tree_free_live)
    next
      case True
      have swap: "tree_swap mem (Some item) (s\<lparr>pmem := m2\<rparr>) = Some (err, s')" using load a c l(1) True by (simp add: pr_db_load_def)
      show ?thesis
      proof (cases "mem (calls m2)")
        case False
        then have "err = -1" "s' = s\<lparr>pmem := m2\<lparr>calls := calls m2 + 1\<rparr>\<rparr>" using swap by (auto simp: tree_swap_def tree_alloc_def shm_malloc_def)
        then show ?thesis using False l(1,3) True wf(2) b a c by (auto simp: pr_wf_def)
      next
        case ok: True
        define m3 where "m3 = m2\<lparr>calls := calls m2 + 1, live := live m2 + 1\<rparr>"
        have m3: "live m3 = live (pmem s) + items (Some item) + 1" using l(3) c(2) by (simp add: m3_def)
        obtain m4 where m4: "tree_flush (shared_tree s) m3 = Some m4" "live m4 + tree_mem (shared_tree s) = live m3"
          using tree_flush_ok [OF wf(2), of m3] b m3 by auto
        have s': "err = 0" "s' = s\<lparr>shared_tree := Some \<lparr>root = Some item, refcnt = 0\<rparr>, pmem := m4\<rparr>"
          using swap ok m4(1) by (auto simp: tree_swap_def tree_alloc_def shm_malloc_def m3_def)
        have "item_at item q = prefix_map main_rt rows (\<lambda>_. 0) q" if "all_digits q" for q
          using l(5) [OF True that] prefix_map_eq [OF new0 that] by simp
        then show ?thesis using s' m4(2) m3 b l(2) by (auto simp: pr_wf_def tree_mem_def)
      qed
    qed
  qed
qed

text \<open>C19: After a successful load, \<^verbatim>\<open>prefix_route\<close> sends a request to the route of the longest prefix in the table that is a
  proper prefix of the digits of the user name, ignoring other characters; a later row overrides an earlier one.  It fails without
  running a route if there is none.  A prefix equal to all the digits is never used.  The shared state is the same afterwards.
  A load that fails keeps the old tree, and every other request is routed as before.\<close>

theorem prefix_route_spec:
  assumes "rt_wf main_rt" "pr_wf s" "pr_db_load main_rt mem (Some rows) s = Some (err, s')" "user \<noteq> []"
  shows "if err = 0
    then prefix_route (Some (Some user)) run s' =
      Some (let i = best_match (prefix_map main_rt rows (\<lambda>_. 0)) (digits_of user) 0 in if i \<le> 0 then -1 else if run i < 0 then -1 else 0, s')
    else shared_tree s' = shared_tree s"
proof (cases "err = 0")
  case True
  then obtain t item where t: "pr_wf s'" "shared_tree s' = Some t" "root t = Some item"
      "\<And>q. all_digits q \<Longrightarrow> item_at item q = prefix_map main_rt rows (\<lambda>_. 0) q"
    using pr_db_load_cases [OF assms(1-3)] by blast
  have "all_digits (take n (digits_of user))" for n using all_digits_of [of user] by (metis append_take_drop_id all_digits_simps(3))
  then have "best_match (item_at item) (digits_of user) 0 = best_match (prefix_map main_rt rows (\<lambda>_. 0)) (digits_of user) 0"
    using t(4) by (simp add: best_match_def Let_def)
  then show ?thesis using True prefix_route_eq [OF t(1-3) assms(4)] by simp
next
  case False
  then show ?thesis using pr_db_load_cases [OF assms(1-3)] by auto
qed

text \<open>C37: Loading never loses memory except in one case: a load that succeeds frees exactly the tree it replaces, and one that fails
  frees every item it allocated, unless the last allocation, of the tree structure, fails: then the whole new tree is leaked.\<close>

theorem pr_load_memory:
  assumes "rt_wf main_rt" "pr_wf s" "pr_db_load main_rt mem (Some rows) s = Some (err, s')"
  shows "pr_wf s' \<and>
    (err = 0 \<longrightarrow> live (pmem s') + tree_mem (shared_tree s) = live (pmem s) + tree_mem (shared_tree s')) \<and>
    (err \<noteq> 0 \<longrightarrow> live (pmem s') = live (pmem s) \<or>
       (\<exists>item m. load_rows main_rt mem (Some (Item (replicate DIGITS None) None 0)) rows (snd (tree_item_alloc mem (pmem s))) = Some (0, Some item, m) \<and>
          \<not> mem (calls m) \<and> live (pmem s') = live (pmem s) + items (Some item)))"
  using pr_db_load_cases [OF assms] by blast

section \<open>Readers and reloads\<close>

fun reads :: "nat \<Rightarrow> tree_pc \<Rightarrow> bool" where
  "reads t (At_use u) = (u = t)"
| "reads t (At_deref u) = (u = t)"
| "reads t _ = False"

abbreviation readers :: "nat \<Rightarrow> tree_pc list \<Rightarrow> nat" where
  "readers t ps \<equiv> length (filter (reads t) ps)"

fun pc_ok :: "tree_heap \<Rightarrow> tree_pc list \<Rightarrow> nat \<Rightarrow> tree_pc \<Rightarrow> bool" where
  "pc_ok h ps c (At_use t) = (t < fresh h \<and> t \<notin> freed h)"
| "pc_ok h ps c (At_deref t) = (t < fresh h \<and> t \<notin> freed h)"
| "pc_ok h ps c (At_get n) = (n < fresh h \<and> n \<notin> freed h \<and> n \<noteq> c)"
| "pc_ok h ps c (At_swap n old) = (n < fresh h \<and> n \<notin> freed h \<and> n \<noteq> c \<and> old = Some c)"
| "pc_ok h ps c (At_wait old) = (case old of None \<Rightarrow> True | Some t \<Rightarrow> t < fresh h \<and> t \<notin> freed h \<and> t \<noteq> c)"
| "pc_ok h ps c (At_free t) = (t < fresh h \<and> t \<notin> freed h \<and> t \<noteq> c \<and> readers t ps = 0)"
| "pc_ok h ps c Crash = False"
| "pc_ok h ps c _ = True"

definition tree_inv :: "nat \<Rightarrow> tree_pc list \<Rightarrow> tree_heap \<Rightarrow> bool" where
  "tree_inv n ps h \<longleftrightarrow> length ps = n \<and> (\<forall>t. refs h t = int (readers t ps)) \<and> (\<forall>t\<in>freed h. t < fresh h) \<and>
     length (filter reloading ps) \<le> 1 \<and> (\<exists>c. shared h = Some c \<and> c < fresh h \<and> c \<notin> freed h \<and> (\<forall>x\<in>set ps. pc_ok h ps c x))"

lemma length_filter_update:
  assumes "i < length xs"
  shows "length (filter P (xs[i := x])) + (if P (xs ! i) then 1 else 0) = length (filter P xs) + (if P x then 1 else 0)"
proof -
  have "length (filter P xs) = length (filter P (take i xs @ xs ! i # drop (Suc i) xs))" using id_take_nth_drop [OF assms] by simp
  then show ?thesis using upd_conv_take_nth_drop [OF assms, of x] by simp
qed

lemma filter_two:
  assumes "i < length xs" "j < length xs" "i \<noteq> j" "P (xs ! i)" "P (xs ! j)"
  shows "2 \<le> length (filter P xs)"
proof -
  have "card {i, j} \<le> card {k. k < length xs \<and> P (xs ! k)}" by (rule card_mono) (use assms in auto)
  then show ?thesis using assms(3) by (simp add: length_filter_conv_card)
qed

lemma inv_update:
  assumes inv: "tree_inv n ps h" "p < n" and ps': "ps' = ps[p := pc]"
    and c: "shared h = Some c" "shared h' = Some c'" "c' < fresh h'" "c' \<notin> freed h'" "\<forall>t\<in>freed h'. t < fresh h'"
    and r: "\<And>t. refs h' t = int (readers t ps')" "reloading pc \<Longrightarrow> reloading (ps ! p) \<or> filter reloading ps = []"
    and ok: "pc_ok h' ps' c' pc" "\<And>x. x \<in> set ps \<Longrightarrow> pc_ok h ps c x \<Longrightarrow> (reloading (ps ! p) \<Longrightarrow> \<not> reloading x) \<Longrightarrow> pc_ok h' ps' c' x"
  shows "tree_inv n ps' h'"
proof -
  have l: "p < length ps" "length ps = n" "length (filter reloading ps) \<le> 1" "\<forall>x\<in>set ps. pc_ok h ps c x" using inv c(1) by (auto simp: tree_inv_def)
  have "length (filter reloading ps') \<le> 1" using length_filter_update [OF l(1), of reloading pc] l(3) r(2) by (auto simp: ps' split: if_splits)
  moreover have "pc_ok h' ps' c' x" if x: "x \<in> set ps'" for x
  proof -
    obtain q where q: "q < n" "x = ps' ! q" using x l(2) by (auto simp: ps' in_set_conv_nth)
    show ?thesis
    proof (cases "q = p")
      case True
      then show ?thesis using q ok(1) l(1) by (simp add: ps')
    next
      case False
      then have "x = ps ! q" using q by (simp add: ps')
      moreover have "\<not> (reloading (ps ! p) \<and> reloading (ps ! q))" using filter_two [of p ps q reloading] l q(1) False by auto
      ultimately show ?thesis using ok(2) [of x] l q(1) by auto
    qed
  qed
  ultimately show ?thesis using c r(1) l(2) by (simp add: tree_inv_def ps')
qed

lemma readers_update:
  "p < length ps \<Longrightarrow> int (readers t (ps[p := pc])) = int (readers t ps) + (if reads t pc then 1 else 0) - (if reads t (ps ! p) then 1 else 0)"
  using length_filter_update [of p ps "reads t" pc] by (auto split: if_splits)

lemma pc_ok_mono:
  assumes "pc_ok h ps c x" "\<not> reloading x" "fresh h \<le> fresh h'" "\<And>t. reads t x \<Longrightarrow> t \<notin> freed h \<Longrightarrow> t \<notin> freed h'"
  shows "pc_ok h' ps' c' x"
  using assms by (cases x) auto

lemma pc_ok_readers:
  assumes "pc_ok h ps c x" "fresh h \<le> fresh h'" "freed h' = freed h" "\<And>t. t \<noteq> c \<Longrightarrow> readers t ps' \<le> readers t ps"
  shows "pc_ok h' ps' c x"
  using assms
proof (cases x)
  case (At_free t)
  then show ?thesis using assms(1,2,3) assms(4) [of t] by auto
qed (auto split: option.splits)

lemma step_inv:
  assumes inv: "tree_inv n ps h" "p < n" and step: "tree_step (ps ! p) h = (pc, h')"
  shows "tree_inv n (ps[p := pc]) h'"
proof -
  obtain c where c: "shared h = Some c" "c < fresh h" "c \<notin> freed h" "\<forall>x\<in>set ps. pc_ok h ps c x" and l: "length ps = n"
    and rf: "\<And>t. refs h t = int (readers t ps)" and fr: "\<forall>t\<in>freed h. t < fresh h"
    using inv(1) by (auto simp: tree_inv_def)
  have p: "p < length ps" "pc_ok h ps c (ps ! p)" using inv(2) l c(4) by auto
  note upd = inv_update [OF inv refl c(1)] and ru = readers_update [OF p(1)]
  have reader: ?thesis if nr: "\<not> reloading pc" "shared h' = shared h" "fresh h' = fresh h" "freed h' = freed h" "pc_ok h' (ps[p := pc]) c pc"
      "\<And>t. refs h' t = int (readers t (ps[p := pc]))" "\<And>t. t \<noteq> c \<Longrightarrow> reads t pc \<Longrightarrow> reads t (ps ! p)"
  proof (rule upd [of h' c])
    have "readers t (ps[p := pc]) \<le> readers t ps" if "t \<noteq> c" for t using ru [of t pc] nr(7) [OF that] by (auto split: if_splits)
    then show "pc_ok h' (ps[p := pc]) c x" if "pc_ok h ps c x" for x using pc_ok_readers [OF that, of h'] nr(3,4) by simp
  qed (use nr c fr in simp_all)
  have writer: ?thesis if w: "reloading (ps ! p)" "shared h' = Some c'" "c' < fresh h'" "c' \<notin> freed h'" "fresh h \<le> fresh h'" "\<forall>t\<in>freed h'. t < fresh h'"
      "\<And>t. t \<in> freed h' \<Longrightarrow> t \<in> freed h \<or> readers t ps = 0" "pc_ok h' (ps[p := pc]) c' pc" "\<And>t. refs h' t = int (readers t (ps[p := pc]))" for c'
  proof (rule upd [of h' c'])
    show "pc_ok h' (ps[p := pc]) c' x" if x: "x \<in> set ps" "pc_ok h ps c x" "reloading (ps ! p) \<Longrightarrow> \<not> reloading x" for x
    proof (rule pc_ok_mono [OF x(2) _ w(5)])
      show "t \<notin> freed h'" if "reads t x" "t \<notin> freed h" for t using w(7) [of t] that x(1) by (auto simp: filter_empty_conv)
    qed (use x(3) w(1) in simp)
  qed (use w in simp_all)
  show ?thesis
  proof (cases "ps ! p")
    case At_ref
    then have "pc = At_use c" "h' = h\<lparr>refs := (refs h)(c := refs h c + 1)\<rparr>" using step c(1) by auto
    then show ?thesis using At_ref c rf ru by (intro reader) auto
  next
    case (At_use t)
    then have "pc = At_deref t" "h' = h" using step by auto
    then show ?thesis using At_use rf ru p by (intro reader) auto
  next
    case (At_deref t)
    then have "pc = Idle" "h' = h\<lparr>refs := (refs h)(t := refs h t - 1)\<rparr>" using step by auto
    then show ?thesis using At_deref rf ru by (intro reader) auto
  next
    case At_alloc
    have "\<not> reads (fresh h) x" if "x \<in> set ps" for x using c(4) that by (cases x) auto
    moreover have "pc = At_get (fresh h)" "h' = h\<lparr>refs := (refs h)(fresh h := 0), fresh := fresh h + 1\<rparr>" using step At_alloc by auto
    ultimately show ?thesis using At_alloc c fr rf ru [of _ pc] by (intro writer [of c]) auto
  next
    case (At_get m)
    then have "pc = At_swap m (Some c)" "h' = h" using step c(1) by auto
    then show ?thesis using At_get c fr rf ru p by (intro writer [of c]) auto
  next
    case (At_swap m old)
    then have "pc = At_wait (Some c)" "h' = h\<lparr>shared := Some m\<rparr>" using step p(2) by auto
    then show ?thesis using At_swap c fr rf ru p by (intro writer [of m]) auto
  next
    case (At_wait old)
    show ?thesis
    proof (cases old)
      case None
      then have "pc = Idle" "h' = h" using step At_wait by auto
      then show ?thesis using At_wait c fr rf ru by (intro writer [of c]) auto
    next
      case (Some t)
      then have "h' = h" "pc = (if refs h t \<le> 0 then At_free t else At_wait (Some t))" using step At_wait by auto
      moreover have "readers t (ps[p := pc]) = readers t ps" using ru [of t pc] calculation At_wait by (auto split: if_splits)
      ultimately show ?thesis using At_wait Some c fr rf ru [of _ pc] p by (intro writer [of c]) (auto split: if_splits)
    qed
  next
    case (At_free t)
    then have "pc = Idle" "h' = h\<lparr>freed := insert t (freed h)\<rparr>" using step by auto
    then show ?thesis using At_free c fr rf ru p by (intro writer [of c]) auto
  next
    case Idle
    then have "pc = ps ! p" "h' = h" using step by simp_all
    then show ?thesis using inv(1) by simp
  next
    case Crash
    then show ?thesis using p(2) by simp
  qed
qed

lemma tree_reach_inv: "tree_reach True n ps h \<Longrightarrow> tree_inv n ps h"
proof (induction rule: tree_reach.induct)
  case start
  have "filter P (replicate n Idle) = []" if "\<not> P Idle" for P using that by (simp add: filter_empty_conv)
  then show ?case by (auto simp: tree_inv_def)
next
  case (read ps h p)
  obtain c where c: "shared h = Some c" "c < fresh h" "c \<notin> freed h" and l: "length ps = n" and rf: "\<And>t. refs h t = int (readers t ps)" and fr: "\<forall>t\<in>freed h. t < fresh h"
    using read.IH by (auto simp: tree_inv_def)
  have r: "readers t (ps[p := At_ref]) = readers t ps" for t using readers_update [of p ps t At_ref] read.hyps l by simp
  show ?case
    by (rule inv_update [OF read.IH read.hyps(2) refl c(1,1)]) (use c fr rf r in \<open>auto intro: pc_ok_readers\<close>)
next
  case (reload ps h p)
  obtain c where c: "shared h = Some c" "c < fresh h" "c \<notin> freed h" and l: "length ps = n" and rf: "\<And>t. refs h t = int (readers t ps)" and fr: "\<forall>t\<in>freed h. t < fresh h"
    using reload.IH by (auto simp: tree_inv_def)
  have r: "readers t (ps[p := At_alloc]) = readers t ps" for t using readers_update [of p ps t At_alloc] reload.hyps l by simp
  show ?case
    by (rule inv_update [OF reload.IH reload.hyps(2) refl c(1,1)]) (use c fr rf r reload.hyps in \<open>auto intro: pc_ok_readers\<close>)
next
  case (step ps h p pc h')
  then show ?case by (blast intro: step_inv)
qed

text \<open>C20: Whatever the interleaving of the processes that route requests and of reloads, as long as one reload at a time is under way,
  no process ever touches or frees a tree that was freed, none finds the shared pointer null, and a reload waiting for an old tree
  goes on as soon as no process reads that tree.\<close>

theorem tree_no_use_after_free:
  assumes "tree_reach True n ps h" "p < n"
  shows "ps ! p \<noteq> Crash \<and> (\<forall>t. touched (ps ! p) = Some t \<longrightarrow> t \<notin> freed h) \<and>
    (\<forall>t. ps ! p = At_wait (Some t) \<longrightarrow> (\<forall>q<n. \<not> reads t (ps ! q)) \<longrightarrow> tree_step (ps ! p) h = (At_free t, h))"
proof -
  obtain c where inv: "length ps = n" "\<forall>t. refs h t = int (readers t ps)" "\<forall>x\<in>set ps. pc_ok h ps c x"
    using tree_reach_inv [OF assms(1)] by (auto simp: tree_inv_def)
  have ok: "pc_ok h ps c (ps ! p)" using inv assms(2) by auto
  have "readers t ps = 0" if "\<forall>q<n. \<not> reads t (ps ! q)" for t using that inv(1) by (auto simp: filter_empty_conv in_set_conv_nth)
  then show ?thesis using ok inv(2) by (cases "ps ! p") auto
qed

text \<open>Two reloads that overlap both save the same old tree, and the second one frees it again.\<close>

definition overlap :: "nat list" where
  "overlap = [0, 0, 1, 1, 0, 1, 0, 1, 0]"

fun tree_exec :: "nat list \<Rightarrow> tree_pc list \<times> tree_heap \<Rightarrow> tree_pc list \<times> tree_heap" where
  "tree_exec [] s = s"
| "tree_exec (p # sched) (ps, h) = tree_exec sched (let (pc, h') = tree_step (ps ! p) h in (ps[p := pc], h'))"

lemma tree_exec_reach: "tree_reach e n ps h \<Longrightarrow> list_all (\<lambda>p. p < n) sched \<Longrightarrow> tree_exec sched (ps, h) = (ps', h') \<Longrightarrow> tree_reach e n ps' h'"
proof (induction sched arbitrary: ps h)
  case (Cons p sched)
  obtain pc h1 where s: "tree_step (ps ! p) h = (pc, h1)" by force
  have "tree_reach e n (ps[p := pc]) h1" by (rule tree_reach.step [OF Cons.prems(1) _ s]) (use Cons.prems in simp)
  then show ?case using Cons.IH Cons.prems s by simp
qed simp


theorem tree_no_use_after_free_witness:
  "tree_reach True 1 [At_use 0] \<lparr>shared = Some 0, refs = (\<lambda>_. 0)(0 := 1), freed = {}, fresh = 1\<rparr> \<and> touched ([At_use 0] ! 0) = Some 0 \<and> [At_use 0] ! 0 \<noteq> Crash"
proof -
  let ?h = "\<lparr>shared = Some 0, refs = \<lambda>_. 0, freed = {}, fresh = 1\<rparr>"
  have "tree_reach True 1 ((replicate 1 Idle)[0 := At_ref]) ?h" by (rule tree_reach.read [OF tree_reach.start]) simp_all
  then have "tree_reach True 1 ((replicate 1 Idle)[0 := At_ref, 0 := At_use 0]) (?h\<lparr>refs := (\<lambda>_. 0)(0 := 1)\<rparr>)" by (rule tree_reach.step) simp_all
  then have r: "tree_reach True 1 [At_use 0] \<lparr>shared = Some 0, refs = (\<lambda>_. 0)(0 := 1), freed = {}, fresh = 1\<rparr>" by simp
  then show ?thesis using tree_no_use_after_free [OF r, of 0] by simp
qed

text \<open>A routing table with the route \<^verbatim>\<open>NO\<close>, and a tree with one prefix.\<close>

lemma rt_demo: "\<exists>rt. rt_wf rt \<and> route_lookup rt ''NO'' = Some 1 \<and> entries rt = 2"
proof -
  let ?rt = "\<lparr>rlist = None, idx = 0, entries = 0, names = \<lparr>table = None, size_of = 0\<rparr>\<rparr>"
  have c: "0 < RT_NO" "0 < RT_HASH_SIZE" "RT_HASH_SIZE < 2 ^ 31" by (simp_all add: RT_NO_def RT_HASH_SIZE_def)
  obtain rt where rt: "rt_wf rt" "\<forall>k. route_lookup rt k = Some (if k = ''0'' then 0 else -1)" "idx rt = 1" "entries rt = 2"
    using init_rlist_wf [OF c, of True "[]" ?rt] by (auto simp: RT_NO_def)
  obtain l where l: "rlist rt = Some l" "int (length l) = 2" using rt(1,4) by (auto simp: rt_wf_def)
  obtain r where r: "str_hash_get (names rt) ''NO'' = Some r" using route_lookup_total [OF rt(1), of "''NO''"] by (auto simp: route_lookup_def bind_eq_Some_conv)
  have "0 \<le> en e" if "r = Some e" for e using rt(1) r that by (auto simp: rt_wf_def)
  then have "str_hash_get (names rt) ''NO'' = Some None" using r rt(2) route_lookup_eq [OF r] by (cases r) auto
  then obtain rt2 where "rt_wf rt2" "entries rt2 = 2" "route_lookup rt2 ''NO'' = Some 1"
    using route_add_wf [OF rt(1), of "''NO''" "rt\<lparr>idx := 2\<rparr>" l True] rt l by auto
  then show ?thesis by blast
qed

definition pr_boot :: pr_state where
  "pr_boot = \<lparr>shared_tree = None, pmem = \<lparr>calls = 0, live = 0\<rparr>\<rparr>"

definition rows0 :: "(string option \<times> string option) list" where
  "rows0 = [(Some ''+47'', Some ''NO''), (None, Some ''NO'')]"

lemma load_demo:
  assumes "route_lookup rt ''NO'' = Some 1" "entries rt = 2"
  shows "\<exists>s. pr_db_load rt (\<lambda>_. True) (Some rows0) pr_boot = Some (0, s)"
  using assms
  by (simp add: pr_db_load_def rows0_def pr_boot_def tree_item_alloc_def shm_malloc_def add_route_def tree_item_add_def tree_swap_def tree_alloc_def
      tree_flush_def is_digit_def digit_val_def DIGITS_def eval_nat_numeral)

theorem prefix_route_spec_witness:
  "\<exists>rt s. pr_db_load rt (\<lambda>_. True) (Some rows0) pr_boot = Some (0, s) \<and> prefix_route (Some (Some ''479'')) (\<lambda>_. 1) s = Some (0, s) \<and>
     prefix_route (Some (Some ''47'')) (\<lambda>_. 1) s = Some (-1, s)"
proof -
  obtain rt where rt: "rt_wf rt" "route_lookup rt ''NO'' = Some 1" "entries rt = 2" using rt_demo by blast
  obtain s where s: "pr_db_load rt (\<lambda>_. True) (Some rows0) pr_boot = Some (0, s)" using load_demo [OF rt(2,3)] by blast
  have b: "pr_wf pr_boot" by (simp add: pr_wf_def pr_boot_def tree_mem_def)
  have m: "prefix_map rt rows0 (\<lambda>_. 0) = (\<lambda>_. 0)(''47'' := 1)" by (simp add: rows0_def rt(2) digits_of_def is_digit_def)
  have "best_match ((\<lambda>_. 0)(''47'' := 1)) (digits_of ''479'') 0 = 1" "best_match ((\<lambda>_. 0)(''47'' := 1)) (digits_of ''47'') 0 = 0"
    by (simp_all add: best_match_def digits_of_def is_digit_def upt_rec)
  then show ?thesis
    using s prefix_route_spec [OF rt(1) b s, of "''479''" "\<lambda>_. 1"] prefix_route_spec [OF rt(1) b s, of "''47''" "\<lambda>_. 1"] by (auto simp: m)
qed

theorem pr_load_memory_witness:
  "\<exists>rt s. pr_db_load rt (\<lambda>_. True) (Some rows0) pr_boot = Some (0, s) \<and> pr_wf s \<and> live (pmem s) = tree_mem (shared_tree s)"
proof -
  obtain rt where rt: "rt_wf rt" "route_lookup rt ''NO'' = Some 1" "entries rt = 2" using rt_demo by blast
  obtain s where s: "pr_db_load rt (\<lambda>_. True) (Some rows0) pr_boot = Some (0, s)" using load_demo [OF rt(2,3)] by blast
  have b: "pr_wf pr_boot" by (simp add: pr_wf_def pr_boot_def tree_mem_def)
  have "tree_mem (shared_tree pr_boot) = 0" "live (pmem pr_boot) = 0" by (simp_all add: pr_boot_def tree_mem_def)
  then show ?thesis using s pr_load_memory [OF rt(1) b s] by auto
qed

end
