(* ===== verification/TcpRead.thy ===== *)
theory TcpRead
  imports SerPrelude
begin

text \<open>
  Cutting a TCP byte stream into SIP messages: \<^verbatim>\<open>tcp_read\<close>, \<^verbatim>\<open>tcp_read_headers\<close> and \<^verbatim>\<open>tcp_read_req\<close> of
  \<^verbatim>\<open>src/sip_router/tcp_read.c\<close> and the structures of \<^verbatim>\<open>tcp_conn.h\<close>, as compiled without TLS and STUN.
  Pointers into the read buffer are indices; the bytes between \<^verbatim>\<open>buf\<close> and \<^verbatim>\<open>pos\<close> are a list.  The content length is a 32 bit \<^verbatim>\<open>int\<close> that
  wraps.  A position before the buffer has no result.  What \<^verbatim>\<open>read\<close> will return is part of the state; \<open>recv\<close> is the outcome of
  \<^verbatim>\<open>receive_msg\<close> and \<open>ping\<close> the configuration variable \<^verbatim>\<open>crlf_ping\<close>.  Statistics and the blacklist are left out.
\<close>

section \<open>Requests\<close>

datatype tcp_req_errors = TCP_REQ_INIT | TCP_REQ_OK | TCP_READ_ERROR | TCP_REQ_OVERRUN | TCP_REQ_BAD_LEN

datatype tcp_req_states = H_SKIP_EMPTY | H_SKIP_EMPTY_CR_FOUND | H_SKIP_EMPTY_CRLF_FOUND | H_SKIP_EMPTY_CRLFCR_FOUND
  | H_SKIP | H_LF | H_LFCR | H_BODY | H_STARTWS
  | H_CONT_LEN1 | H_CONT_LEN2 | H_CONT_LEN3 | H_CONT_LEN4 | H_CONT_LEN5 | H_CONT_LEN6 | H_CONT_LEN7 | H_CONT_LEN8
  | H_CONT_LEN9 | H_CONT_LEN10 | H_CONT_LEN11 | H_CONT_LEN12 | H_CONT_LEN13 | H_L_COLON
  | H_CONT_LEN_BODY | H_CONT_LEN_BODY_PARSE | H_PING_CRLF

record tcp_req =
  buf :: string
  parsed :: nat
  start :: nat
  body :: "nat option"
  b_size :: nat
  content_len :: u32
  has_clen :: bool
  complete :: bool
  bytes_to_go :: int
  error :: tcp_req_errors
  state :: tcp_req_states

definition init_tcp_req :: "nat \<Rightarrow> tcp_req" where
  "init_tcp_req rd_buf_size = \<lparr>buf = [], parsed = 0, start = 0, body = None, b_size = rd_buf_size - 1, content_len = 0,
     has_clen = False, complete = False, bytes_to_go = 0, error = TCP_REQ_OK, state = H_SKIP_EMPTY\<rparr>"

abbreviation (input) LF :: char where "LF \<equiv> CHR 0x0A"
abbreviation (input) CR :: char where "CR \<equiv> CHR 0x0D"
abbreviation (input) HT :: char where "HT \<equiv> CHR 0x09"
abbreviation (input) SP :: char where "SP \<equiv> CHR 0x20"

section \<open>The header automaton\<close>

text \<open>One pass of the loop at position \<open>p\<close>: go on, leave the loop, or a position before the buffer.\<close>

datatype hdr_res = Next nat tcp_req | Skip nat tcp_req | Bad_pos

definition crlf_default_skip :: "char \<Rightarrow> tcp_req \<Rightarrow> tcp_req" where
  "crlf_default_skip c r = (if c = LF then r\<lparr>state := H_LF\<rparr> else r\<lparr>state := H_SKIP\<rparr>)"

definition content_len_beg :: "char \<Rightarrow> tcp_req \<Rightarrow> tcp_req_states option" where
  "content_len_beg c r =
     (if c = SP \<or> c = HT then Some (if \<not> has_clen r then H_STARTWS else H_SKIP)
      else if c = CHR ''C'' \<or> c = CHR ''c'' then Some (if \<not> has_clen r then H_CONT_LEN1 else H_SKIP)
      else if c = CHR ''l'' \<or> c = CHR ''L'' then Some (if \<not> has_clen r then H_L_COLON else H_SKIP)
      else None)"

definition change_state :: "char \<Rightarrow> char \<Rightarrow> tcp_req_states \<Rightarrow> char \<Rightarrow> tcp_req \<Rightarrow> tcp_req" where
  "change_state upper lower newstate c r = (if c = upper \<or> c = lower then r\<lparr>state := newstate\<rparr> else crlf_default_skip c r)"

definition end_of_headers :: "nat \<Rightarrow> tcp_req \<Rightarrow> hdr_res" where
  "end_of_headers p r =
     (let r = r\<lparr>state := H_BODY\<rparr>
      in if has_clen r then
           (let r = r\<lparr>body := Some (p + 1), bytes_to_go := sint (content_len r)\<rparr>
            in if bytes_to_go r = 0 then Skip (p + 1) (r\<lparr>complete := True\<rparr>) else Next (p + 1) r)
         else Next (p + 1) (r\<lparr>error := TCP_REQ_BAD_LEN\<rparr>))"

definition read_body :: "nat \<Rightarrow> tcp_req \<Rightarrow> hdr_res" where
  "read_body p r =
     (let remaining = int (length (buf r) - p);
          remaining = (if remaining > bytes_to_go r then bytes_to_go r else remaining);
          r = r\<lparr>bytes_to_go := bytes_to_go r - remaining\<rparr>;
          p' = int p + remaining
      in if p' < 0 then Bad_pos
         else if bytes_to_go r = 0 then Skip (nat p') (r\<lparr>complete := True\<rparr>) else Next (nat p') r)"

definition skip_line :: "nat \<Rightarrow> tcp_req \<Rightarrow> hdr_res" where
  "skip_line p r =
     (let n = length (takeWhile (\<lambda>c. c \<noteq> LF) (drop p (buf r)))
      in if p + n < length (buf r) then Next (p + n + 1) (r\<lparr>state := H_LF\<rparr>) else Next (length (buf r)) r)"

definition skip_empty :: "bool \<Rightarrow> char \<Rightarrow> nat \<Rightarrow> tcp_req \<Rightarrow> tcp_req" where
  "skip_empty ping c p r =
     (if c = LF then r
      else if c = CR then (if ping then r\<lparr>state := H_SKIP_EMPTY_CR_FOUND, start := p\<rparr> else r)
      else if c = SP \<or> c = HT then r
      else if c = CHR ''C'' \<or> c = CHR ''c'' then r\<lparr>state := H_CONT_LEN1, start := p\<rparr>
      else if c = CHR ''l'' \<or> c = CHR ''L'' then r\<lparr>state := H_L_COLON, start := p\<rparr>
      else r\<lparr>state := H_SKIP, start := p\<rparr>)"

definition l_colon :: "char \<Rightarrow> tcp_req \<Rightarrow> tcp_req" where
  "l_colon c r =
     (if c = SP \<or> c = HT then r else if c = CHR '':'' then r\<lparr>state := H_CONT_LEN_BODY\<rparr> else crlf_default_skip c r)"

definition cont_len_body :: "char \<Rightarrow> tcp_req \<Rightarrow> tcp_req" where
  "cont_len_body c r =
     (if c = SP \<or> c = HT then r
      else if is_digit c then r\<lparr>state := H_CONT_LEN_BODY_PARSE, content_len := of_nat (digit_val c)\<rparr>
      else crlf_default_skip c r)"

definition cont_len_body_parse :: "char \<Rightarrow> tcp_req \<Rightarrow> tcp_req" where
  "cont_len_body_parse c r =
     (if is_digit c then r\<lparr>content_len := content_len r * 10 + of_nat (digit_val c)\<rparr>
      else if c = CR \<or> c = SP \<or> c = HT then r\<lparr>state := H_SKIP, has_clen := True\<rparr>
      else if c = LF then r\<lparr>state := H_LF, has_clen := True\<rparr>
      else r\<lparr>state := H_SKIP\<rparr>)"

text \<open>\<open>None\<close> is the \<^verbatim>\<open>abort\<close> on a state the automaton cannot be in.\<close>

definition hdr_step :: "bool \<Rightarrow> nat \<Rightarrow> tcp_req \<Rightarrow> hdr_res option" where
  "hdr_step ping p r =
     (let c = buf r ! p
      in case state r of
           H_BODY \<Rightarrow> Some (read_body p r)
         | H_SKIP \<Rightarrow> Some (skip_line p r)
         | H_LF \<Rightarrow> Some (if c = CR then Next (p + 1) (r\<lparr>state := H_LFCR\<rparr>)
             else if c = LF then end_of_headers p r
             else case content_len_beg c r of Some st \<Rightarrow> Next (p + 1) (r\<lparr>state := st\<rparr>) | None \<Rightarrow> Next (p + 1) (r\<lparr>state := H_SKIP\<rparr>))
         | H_LFCR \<Rightarrow> Some (if c = LF then end_of_headers p r else Next (p + 1) (r\<lparr>state := H_SKIP\<rparr>))
         | H_STARTWS \<Rightarrow> Some (case content_len_beg c r of Some st \<Rightarrow> Next (p + 1) (r\<lparr>state := st\<rparr>) | None \<Rightarrow> Next (p + 1) (crlf_default_skip c r))
         | H_SKIP_EMPTY \<Rightarrow> Some (Next (p + 1) (skip_empty ping c p r))
         | H_SKIP_EMPTY_CR_FOUND \<Rightarrow>
             Some (if c = LF then Next (p + 1) (r\<lparr>state := H_SKIP_EMPTY_CRLF_FOUND\<rparr>) else Next p (r\<lparr>state := H_SKIP_EMPTY\<rparr>))
         | H_SKIP_EMPTY_CRLF_FOUND \<Rightarrow>
             Some (if c = CR then Next (p + 1) (r\<lparr>state := H_SKIP_EMPTY_CRLFCR_FOUND\<rparr>) else Next p (r\<lparr>state := H_SKIP_EMPTY\<rparr>))
         | H_SKIP_EMPTY_CRLFCR_FOUND \<Rightarrow>
             Some (if c = LF then Skip (p + 1) (r\<lparr>state := H_PING_CRLF, has_clen := True, complete := True\<rparr>)
              else Next p (r\<lparr>state := H_SKIP_EMPTY\<rparr>))
         | H_CONT_LEN1 \<Rightarrow> Some (Next (p + 1) (change_state CHR ''O'' CHR ''o'' H_CONT_LEN2 c r))
         | H_CONT_LEN2 \<Rightarrow> Some (Next (p + 1) (change_state CHR ''N'' CHR ''n'' H_CONT_LEN3 c r))
         | H_CONT_LEN3 \<Rightarrow> Some (Next (p + 1) (change_state CHR ''T'' CHR ''t'' H_CONT_LEN4 c r))
         | H_CONT_LEN4 \<Rightarrow> Some (Next (p + 1) (change_state CHR ''E'' CHR ''e'' H_CONT_LEN5 c r))
         | H_CONT_LEN5 \<Rightarrow> Some (Next (p + 1) (change_state CHR ''N'' CHR ''n'' H_CONT_LEN6 c r))
         | H_CONT_LEN6 \<Rightarrow> Some (Next (p + 1) (change_state CHR ''T'' CHR ''t'' H_CONT_LEN7 c r))
         | H_CONT_LEN7 \<Rightarrow> Some (Next (p + 1) (change_state CHR ''-'' CHR ''_'' H_CONT_LEN8 c r))
         | H_CONT_LEN8 \<Rightarrow> Some (Next (p + 1) (change_state CHR ''L'' CHR ''l'' H_CONT_LEN9 c r))
         | H_CONT_LEN9 \<Rightarrow> Some (Next (p + 1) (change_state CHR ''E'' CHR ''e'' H_CONT_LEN10 c r))
         | H_CONT_LEN10 \<Rightarrow> Some (Next (p + 1) (change_state CHR ''N'' CHR ''n'' H_CONT_LEN11 c r))
         | H_CONT_LEN11 \<Rightarrow> Some (Next (p + 1) (change_state CHR ''G'' CHR ''g'' H_CONT_LEN12 c r))
         | H_CONT_LEN12 \<Rightarrow> Some (Next (p + 1) (change_state CHR ''T'' CHR ''t'' H_CONT_LEN13 c r))
         | H_CONT_LEN13 \<Rightarrow> Some (Next (p + 1) (change_state CHR ''H'' CHR ''h'' H_L_COLON c r))
         | H_L_COLON \<Rightarrow> Some (Next (p + 1) (l_colon c r))
         | H_CONT_LEN_BODY \<Rightarrow> Some (Next (p + 1) (cont_len_body c r))
         | H_CONT_LEN_BODY_PARSE \<Rightarrow> Some (Next (p + 1) (cont_len_body_parse c r))
         | H_PING_CRLF \<Rightarrow> None)"

text \<open>Every pass moves forward or leaves a state that looks back at the same character.\<close>

definition looks_back :: "tcp_req \<Rightarrow> nat" where
  "looks_back r = (if state r = H_SKIP_EMPTY_CR_FOUND \<or> state r = H_SKIP_EMPTY_CRLF_FOUND \<or> state r = H_SKIP_EMPTY_CRLFCR_FOUND then 1 else 0)"

lemmas hdr_defs = crlf_default_skip_def content_len_beg_def change_state_def end_of_headers_def skip_empty_def l_colon_def
  cont_len_body_def cont_len_body_parse_def

lemma read_body_Next:
  "p < length (buf r) \<Longrightarrow> read_body p r = Next p' r' \<Longrightarrow> p' = length (buf r) \<and> r' = r\<lparr>bytes_to_go := bytes_to_go r - int (length (buf r) - p)\<rparr> \<and> int (length (buf r) - p) < bytes_to_go r"
  by (auto simp: read_body_def Let_def split: if_splits)

lemma skip_line_Next:
  "p < length (buf r) \<Longrightarrow> skip_line p r = Next p' r' \<Longrightarrow> p < p' \<and> p' \<le> length (buf r) \<and> buf r' = buf r \<and> (state r' = state r \<or> state r' = H_LF)"
  by (auto simp: skip_line_def Let_def split: if_splits)

lemma buf_kept [simp]:
  "buf (crlf_default_skip c r) = buf r" "buf (change_state a b st c r) = buf r" "buf (skip_empty ping c p r) = buf r" "buf (l_colon c r) = buf r"
  "buf (cont_len_body c r) = buf r" "buf (cont_len_body_parse c r) = buf r"
  by (simp_all add: hdr_defs)

lemma end_of_headers_Next: "end_of_headers p r = Next p' r' \<Longrightarrow> p' = p + 1 \<and> buf r' = buf r"
  by (auto simp: end_of_headers_def Let_def split: if_splits)

lemma hdr_step_char:
  assumes "state r \<noteq> H_BODY" "state r \<noteq> H_SKIP" "hdr_step ping p r = Some (Next p' r')"
  shows "buf r' = buf r \<and> (p' = p + 1 \<or> p' = p \<and> looks_back r = 1 \<and> state r' = H_SKIP_EMPTY)"
  using assms end_of_headers_Next [of p r p' r']
  by (cases "state r") (auto simp: hdr_step_def looks_back_def Let_def split: if_splits option.splits)

lemma hdr_step_Next:
  assumes "p < length (buf r)" "hdr_step ping p r = Some (Next p' r')"
  shows "buf r' = buf r \<and> p \<le> p' \<and> p' \<le> length (buf r) \<and> 2 * (length (buf r) - p') + looks_back r' < 2 * (length (buf r) - p) + looks_back r"
proof -
  consider "state r = H_BODY" | "state r = H_SKIP" | "state r \<noteq> H_BODY" "state r \<noteq> H_SKIP" by blast
  then show ?thesis
  proof cases
    case 1
    then show ?thesis using assms read_body_Next [OF assms(1), of p' r'] by (auto simp: hdr_step_def looks_back_def)
  next
    case 2
    then show ?thesis using assms skip_line_Next [OF assms(1), of p' r'] by (auto simp: hdr_step_def looks_back_def)
  next
    case 3
    have "looks_back r' \<le> 1" by (simp add: looks_back_def)
    moreover have "state r' = H_SKIP_EMPTY \<Longrightarrow> looks_back r' = 0" by (simp add: looks_back_def)
    ultimately show ?thesis using hdr_step_char [OF 3 assms(2)] assms(1) by auto
  qed
qed

function (sequential) headers_loop :: "bool \<Rightarrow> nat \<Rightarrow> tcp_req \<Rightarrow> (nat \<times> tcp_req) option" where
  "headers_loop ping p r =
     (if p < length (buf r) \<and> error r = TCP_REQ_OK then
        (case hdr_step ping p r of
           None \<Rightarrow> None
         | Some Bad_pos \<Rightarrow> None
         | Some (Skip p' r') \<Rightarrow> Some (p', r')
         | Some (Next p' r') \<Rightarrow> headers_loop ping p' r')
      else Some (p, r))"
  by pat_completeness auto
termination
proof (relation "measure (\<lambda>(ping, p, r). 2 * (length (buf r) - p) + looks_back r)")
  fix ping p r x y p' r'
  assume "p < length (buf r) \<and> error r = TCP_REQ_OK" "hdr_step ping p r = Some x" "x = Next p' r'"
  then show "((ping, p', r'), ping, p, r) \<in> measure (\<lambda>(ping, p, r). 2 * (length (buf r) - p) + looks_back r)"
    using hdr_step_Next [of p r ping p' r'] by simp
qed simp

declare headers_loop.simps [simp del]

section \<open>Connections\<close>

datatype tcp_conn_states = S_CONN_ERROR | S_CONN_BAD | S_CONN_OK | S_CONN_INIT | S_CONN_EOF | S_CONN_ACCEPT | S_CONN_CONNECT

datatype conn_cmds = CONN_DESTROY | CONN_ERROR | CONN_EOF | CONN_RELEASE | CONN_GET_FD | CONN_NEW | CONN_QUEUED_WRITE | CONN_NEW_PENDING_WRITE
  | CONN_NEW_COMPLETE

text \<open>What \<^verbatim>\<open>read\<close> returns, and what the process does with a message.\<close>

datatype read_result = Bytes string | Would_block | Interrupted | Failed

datatype tcp_event = Receive_msg string | Pong

record tcp_connection =
  req :: tcp_req
  cstate :: tcp_conn_states
  sock :: "read_result list"
  events :: "tcp_event list"

record rd_flags =
  short_read :: bool
  eof :: bool
  force_eof :: bool

fun sys_read :: "nat \<Rightarrow> read_result list \<Rightarrow> read_result \<times> read_result list" where
  "sys_read n [] = (Would_block, [])"
| "sys_read n (Bytes d # s) = (if length d \<le> n then (Bytes d, s) else (Bytes (take n d), Bytes (drop n d) # s))"
| "sys_read n (Interrupted # s) = sys_read n s"
| "sys_read n (x # s) = (x, s)"

definition established :: "tcp_conn_states \<Rightarrow> tcp_conn_states" where
  "established s = (if s = S_CONN_CONNECT \<or> s = S_CONN_ACCEPT then S_CONN_OK else s)"

definition tcp_read :: "tcp_connection \<Rightarrow> rd_flags \<Rightarrow> int \<times> tcp_connection \<times> rd_flags" where
  "tcp_read c fl =
     (let bytes_free = b_size (req c) - length (buf (req c))
      in if bytes_free = 0 then (-1, c\<lparr>req := (req c)\<lparr>error := TCP_REQ_OVERRUN\<rparr>\<rparr>, fl)
         else case sys_read bytes_free (sock c) of
           (Bytes d, s) \<Rightarrow>
             (let c = c\<lparr>sock := s\<rparr>
              in if length d \<noteq> bytes_free then
                   (let (c, fl) = (if d = [] \<or> force_eof fl then (c\<lparr>cstate := S_CONN_EOF\<rparr>, fl\<lparr>eof := True\<rparr>)
                                   else (c\<lparr>cstate := established (cstate c)\<rparr>, fl))
                    in (int (length d), c\<lparr>req := (req c)\<lparr>buf := buf (req c) @ d\<rparr>\<rparr>, fl\<lparr>short_read := True\<rparr>))
                 else (int (length d), c\<lparr>cstate := established (cstate c), req := (req c)\<lparr>buf := buf (req c) @ d\<rparr>\<rparr>, fl))
         | (Failed, s) \<Rightarrow> (-1, c\<lparr>sock := s, req := (req c)\<lparr>error := TCP_READ_ERROR\<rparr>\<rparr>, fl)
         | (_, s) \<Rightarrow> (0, c\<lparr>sock := s\<rparr>, fl\<lparr>short_read := True\<rparr>))"

definition tcp_read_headers :: "bool \<Rightarrow> tcp_connection \<Rightarrow> rd_flags \<Rightarrow> (int \<times> tcp_connection \<times> rd_flags) option" where
  "tcp_read_headers ping c fl =
     (let (bytes, c, fl, done) =
        (if parsed (req c) < length (buf (req c)) then (0, c, fl, False)
         else let (bytes, c, fl) = tcp_read c fl in (bytes, c, fl, bytes \<le> 0))
      in if done then Some (bytes, c, fl)
         else Option.bind (headers_loop ping (parsed (req c)) (req c)) (\<lambda>(p, r).
              Some (bytes, c\<lparr>req := r\<lparr>parsed := p\<rparr>\<rparr>, fl)))"

text \<open>The bytes after the message are moved to the start of the buffer.\<close>

definition next_req :: "tcp_req \<Rightarrow> tcp_req" where
  "next_req r = r\<lparr>buf := drop (parsed r) (buf r), parsed := 0, start := 0, body := None, error := TCP_REQ_OK, state := H_SKIP_EMPTY,
     has_clen := False, complete := False, content_len := 0, bytes_to_go := 0\<rparr>"

datatype req_res = Done conn_cmds tcp_connection rd_flags int | Again tcp_connection rd_flags int

definition event_of :: "(string \<Rightarrow> bool) \<Rightarrow> tcp_req \<Rightarrow> tcp_event \<times> bool" where
  "event_of recv r =
     (let msg = drop (start r) (take (parsed r) (buf r))
      in if state r = H_PING_CRLF then (Pong, True) else (Receive_msg msg, recv msg))"

text \<open>A message that would end before it starts has no result: its length is a huge unsigned number.\<close>

definition req_complete :: "(string \<Rightarrow> bool) \<Rightarrow> tcp_connection \<Rightarrow> rd_flags \<Rightarrow> int \<Rightarrow> req_res option" where
  "req_complete recv con fl total_bytes =
     (let r = req con
      in if \<not> has_clen r then Some (Done CONN_ERROR (con\<lparr>req := r\<lparr>error := TCP_REQ_BAD_LEN\<rparr>\<rparr>) fl total_bytes)
         else if parsed r < start r then None
         else Some (let (ev, ok) = event_of recv r;
                  con = con\<lparr>events := events con @ [ev]\<rparr>
              in if \<not> ok then Done CONN_ERROR con fl total_bytes
                 else let con = con\<lparr>req := next_req r\<rparr>
                      in if parsed r < length (buf r) then Again con fl total_bytes
                         else Done (if cstate con = S_CONN_EOF then CONN_EOF else CONN_RELEASE) con fl total_bytes))"

definition req_pass :: "bool \<Rightarrow> (string \<Rightarrow> bool) \<Rightarrow> tcp_connection \<Rightarrow> rd_flags \<Rightarrow> int \<Rightarrow> req_res option" where
  "req_pass ping recv con fl total_bytes =
     (if error (req con) = TCP_REQ_OK then
        Option.bind (tcp_read_headers ping con fl) (\<lambda>(bytes, con, fl).
        if bytes = -1 then Some (Done CONN_ERROR con fl total_bytes)
        else let total_bytes = total_bytes + bytes
             in if cstate con = S_CONN_EOF \<and> \<not> complete (req con) then Some (Done CONN_EOF con fl total_bytes)
                else if error (req con) \<noteq> TCP_REQ_OK then Some (Done CONN_ERROR con fl total_bytes)
                else if complete (req con) then req_complete recv con fl total_bytes
                else Some (Done CONN_RELEASE con fl total_bytes))
      else Some (Done CONN_ERROR con fl total_bytes))"

text \<open>The loop over the messages in the buffer; it has no result if it never ends.\<close>

partial_function (option) req_loop :: "bool \<Rightarrow> (string \<Rightarrow> bool) \<Rightarrow> tcp_connection \<Rightarrow> rd_flags \<Rightarrow> int \<Rightarrow> (conn_cmds \<times> tcp_connection \<times> rd_flags \<times> int) option" where
  "req_loop ping recv con fl total_bytes =
     Option.bind (req_pass ping recv con fl total_bytes) (\<lambda>x. case x of
       Done resp con fl total_bytes \<Rightarrow> Some (resp, con, fl, total_bytes)
     | Again con fl total_bytes \<Rightarrow> req_loop ping recv con fl total_bytes)"

definition tcp_read_req :: "bool \<Rightarrow> (string \<Rightarrow> bool) \<Rightarrow> tcp_connection \<Rightarrow> rd_flags \<Rightarrow> (conn_cmds \<times> tcp_connection \<times> rd_flags \<times> int) option" where
  "tcp_read_req ping recv con fl = req_loop ping recv con fl 0"

section \<open>The loop and more bytes\<close>

abbreviation ext :: "tcp_req \<Rightarrow> string \<Rightarrow> tcp_req" where
  "ext r w \<equiv> r\<lparr>buf := buf r @ w\<rparr>"

fun ext_res :: "string \<Rightarrow> hdr_res \<Rightarrow> hdr_res" where
  "ext_res w (Next p r) = Next p (ext r w)"
| "ext_res w (Skip p r) = Skip p (ext r w)"
| "ext_res w Bad_pos = Bad_pos"

lemma helpers_buf:
  "crlf_default_skip c (r\<lparr>buf := b\<rparr>) = (crlf_default_skip c r)\<lparr>buf := b\<rparr>" "change_state x y st c (r\<lparr>buf := b\<rparr>) = (change_state x y st c r)\<lparr>buf := b\<rparr>"
  "skip_empty ping c p (r\<lparr>buf := b\<rparr>) = (skip_empty ping c p r)\<lparr>buf := b\<rparr>" "l_colon c (r\<lparr>buf := b\<rparr>) = (l_colon c r)\<lparr>buf := b\<rparr>"
  "cont_len_body c (r\<lparr>buf := b\<rparr>) = (cont_len_body c r)\<lparr>buf := b\<rparr>" "cont_len_body_parse c (r\<lparr>buf := b\<rparr>) = (cont_len_body_parse c r)\<lparr>buf := b\<rparr>"
  "content_len_beg c (r\<lparr>buf := b\<rparr>) = content_len_beg c r"
  by (simp_all add: hdr_defs)

lemma hdr_step_ext:
  assumes "p < length (buf r)" "state r \<noteq> H_BODY" "state r \<noteq> H_SKIP"
  shows "hdr_step ping p (ext r w) = map_option (ext_res w) (hdr_step ping p r)"
proof -
  have n: "(buf r @ w) ! p = buf r ! p" using assms(1) by (simp add: nth_append)
  have e: "end_of_headers p (ext r w) = ext_res w (end_of_headers p r)"
    by (simp add: end_of_headers_def Let_def)
  show ?thesis
    using assms(2,3) by (cases "state r") (simp_all add: hdr_step_def Let_def n e helpers_buf split: option.splits)
qed

lemma flags_kept [simp]:
  "complete (crlf_default_skip c r) = complete r" "complete (change_state a b st c r) = complete r" "complete (skip_empty ping c p r) = complete r"
  "complete (l_colon c r) = complete r" "complete (cont_len_body c r) = complete r" "complete (cont_len_body_parse c r) = complete r"
  "error (crlf_default_skip c r) = error r" "error (change_state a b st c r) = error r" "error (skip_empty ping c p r) = error r"
  "error (l_colon c r) = error r" "error (cont_len_body c r) = error r" "error (cont_len_body_parse c r) = error r"
  "b_size (crlf_default_skip c r) = b_size r" "b_size (change_state a b st c r) = b_size r" "b_size (skip_empty ping c p r) = b_size r"
  "b_size (l_colon c r) = b_size r" "b_size (cont_len_body c r) = b_size r" "b_size (cont_len_body_parse c r) = b_size r"
  by (simp_all add: hdr_defs)

lemma helpers_start:
  "start (crlf_default_skip c r) = start r" "start (change_state a b st c r) = start r" "start (l_colon c r) = start r"
  "start (cont_len_body c r) = start r" "start (cont_len_body_parse c r) = start r" "start r \<le> p \<Longrightarrow> start (skip_empty ping c p r) \<le> p"
  by (simp_all add: hdr_defs)

fun res_flags :: "tcp_req \<Rightarrow> hdr_res \<Rightarrow> bool" where
  "res_flags r (Next p' r') = (complete r' = complete r \<and> b_size r' = b_size r)"
| "res_flags r (Skip p' r') = (complete r' \<and> error r' = error r \<and> b_size r' = b_size r \<and> buf r' = buf r)"
| "res_flags r Bad_pos = True"

lemma res_flags_parts: "res_flags r (end_of_headers p r)" "res_flags r (read_body p r)" "res_flags r (skip_line p r)"
  by (simp_all add: end_of_headers_def read_body_def skip_line_def Let_def)

lemma hdr_step_flags: "hdr_step ping p r = Some x \<Longrightarrow> res_flags r x"
  by (cases "state r") (auto simp: hdr_step_def Let_def res_flags_parts split: option.splits)

lemma headers_loop_end:
  "headers_loop ping p r = Some (q, r') \<Longrightarrow> p \<le> length (buf r) \<Longrightarrow> \<not> complete r' \<Longrightarrow> error r' = TCP_REQ_OK \<Longrightarrow> q = length (buf r) \<and> buf r' = buf r"
proof (induction ping p r rule: headers_loop.induct)
  case (1 ping p r)
  show ?case
  proof (cases "p < length (buf r) \<and> error r = TCP_REQ_OK")
    case False
    then show ?thesis using "1.prems" by (auto simp: headers_loop.simps [of ping p r])
  next
    case True
    then obtain x where x: "hdr_step ping p r = Some x" using "1.prems"(1) by (auto simp: headers_loop.simps [of ping p r] split: option.splits)
    show ?thesis
    proof (cases x)
      case (Next p' r1)
      then have "headers_loop ping p' r1 = Some (q, r')" using "1.prems"(1) True x by (simp add: headers_loop.simps [of ping p r])
      then show ?thesis using "1.IH" [OF True x Next] hdr_step_Next [of p r ping p' r1] True x Next "1.prems"(3,4) by simp
    next
      case (Skip p' r1)
      then show ?thesis using "1.prems" True x hdr_step_flags [OF x] by (simp add: headers_loop.simps [of ping p r])
    next
      case Bad_pos
      then show ?thesis using "1.prems" True x by (simp add: headers_loop.simps [of ping p r])
    qed
  qed
qed

lemma takeWhile_less: "\<exists>x\<in>set xs. \<not> P x \<Longrightarrow> length (takeWhile P xs) < length xs"
  by (induction xs) auto

lemma skip_line_ext:
  assumes "p < length (buf r)" and st: "state r = H_SKIP"
  shows "skip_line p (ext r w) = (case skip_line p r of Next p' r' \<Rightarrow> if state r' = H_LF then Next p' (ext r' w) else skip_line (length (buf r)) (ext r w) | x \<Rightarrow> x)"
proof (cases "LF \<in> set (drop p (buf r))")
  case True
  then have "takeWhile (\<lambda>c. c \<noteq> LF) (drop p (buf r) @ w) = takeWhile (\<lambda>c. c \<noteq> LF) (drop p (buf r))" by (auto simp: takeWhile_append1)
  moreover have "p + length (takeWhile (\<lambda>c. c \<noteq> LF) (drop p (buf r))) < length (buf r)"
    using takeWhile_less [of "drop p (buf r)" "\<lambda>c. c \<noteq> LF"] True by auto
  ultimately show ?thesis using assms by (simp add: skip_line_def Let_def)
next
  case False
  then have t: "takeWhile (\<lambda>c. c \<noteq> LF) (drop p (buf r)) = drop p (buf r)" by (auto simp: takeWhile_eq_all_conv)
  have "takeWhile (\<lambda>c. c \<noteq> LF) (drop p (buf r) @ w) = drop p (buf r) @ takeWhile (\<lambda>c. c \<noteq> LF) w" using False by (intro takeWhile_append2) auto
  then have "p + length (takeWhile (\<lambda>c. c \<noteq> LF) (drop p (buf r @ w))) = length (buf r) + length (takeWhile (\<lambda>c. c \<noteq> LF) w)" using assms(1) by simp
  moreover have d: "drop (length (buf r)) (buf r @ w) = w" by simp
  ultimately have "skip_line p (ext r w) = skip_line (length (buf r)) (ext r w)" by (simp add: skip_line_def Let_def d del: drop_append)
  moreover have "length (takeWhile (\<lambda>c. c \<noteq> LF) (drop p (buf r))) = length (buf r) - p" unfolding t by simp
  then have "skip_line p r = Next (length (buf r)) r" using assms(1) by (simp add: skip_line_def Let_def)
  ultimately show ?thesis using st by simp
qed

lemma read_body_ext:
  assumes "p < length (buf r)"
  shows "read_body p (ext r w) = (case read_body p r of Next p' r' \<Rightarrow> read_body (length (buf r)) (ext r' w) | x \<Rightarrow> ext_res w x)"
  using assms by (auto simp: read_body_def Let_def of_nat_diff)

lemma headers_loop_append:
  "headers_loop ping p r = Some (q, r') \<Longrightarrow> p \<le> length (buf r) \<Longrightarrow> \<not> complete r \<Longrightarrow>
   headers_loop ping p (ext r w) = (if complete r' \<or> error r' \<noteq> TCP_REQ_OK then Some (q, ext r' w) else headers_loop ping q (ext r' w))"
proof (induction ping p r rule: headers_loop.induct)
  case (1 ping p r)
  note u = headers_loop.simps [of ping p r] and ue = headers_loop.simps [of ping p "ext r w"]
  show ?case
  proof (cases "p < length (buf r) \<and> error r = TCP_REQ_OK")
    case False
    then have "q = p" "r' = r" using "1.prems"(1) by (auto simp: u)
    then show ?thesis using False "1.prems"(2,3) by (cases "error r = TCP_REQ_OK") (simp_all add: ue)
  next
    case True
    then have lt: "p < length (buf r)" and ok: "error r = TCP_REQ_OK" by simp_all
    obtain x where x: "hdr_step ping p r = Some x" using "1.prems"(1) True by (auto simp: u split: option.splits)
    have IH: ?thesis if "x = Next p' r1" "hdr_step ping p (ext r w) = Some (Next p' (ext r1 w))" for p' r1
    proof -
      have "headers_loop ping p' r1 = Some (q, r')" using "1.prems"(1) True x that(1) by (simp add: u)
      moreover have "\<not> complete r1" "p' \<le> length (buf r1)" using hdr_step_flags [OF x] hdr_step_Next [of p r ping p' r1] lt x that(1) "1.prems"(3) by auto
      ultimately show ?thesis using "1.IH" [OF True x that(1)] that(2) True by (simp add: ue)
    qed
    have SK: ?thesis if "x = Skip p' r1" "hdr_step ping p (ext r w) = Some (Skip p' (ext r1 w))" for p' r1
      using "1.prems"(1) True x that hdr_step_flags [OF x] by (simp add: u ue)
    have BULK: ?thesis if n: "x = Next p' r1" "p' = length (buf r)" "buf r1 = buf r" "error r1 = TCP_REQ_OK" "\<not> complete r1" "hdr_step ping p (ext r w) = Some y"
        "hdr_step ping (length (buf r)) (ext r1 w) = Some z" "y = z" for p' r1 y z
    proof -
      have "headers_loop ping p' r1 = Some (q, r')" using "1.prems"(1) True x n(1) by (simp add: u)
      then have q: "q = length (buf r)" "r' = r1" using n(2,3) by (auto simp: headers_loop.simps [of ping "length (buf r)" r1])
      have "headers_loop ping p (ext r w) = headers_loop ping (length (buf r)) (ext r1 w)"
      proof (cases "w = []")
        case True
        then show ?thesis using "1.prems"(1) q n(3) by (simp add: headers_loop.simps [of ping "length (buf r)"])
      next
        case False
        have "headers_loop ping (length (buf r)) (ext r1 w) = (case z of Bad_pos \<Rightarrow> None | Skip p' r' \<Rightarrow> Some (p', r') | Next p' r' \<Rightarrow> headers_loop ping p' r')"
          unfolding headers_loop.simps [of ping "length (buf r)" "ext r1 w"] using n(3,4,7) False by simp
        then show ?thesis unfolding ue using n(6,8) lt ok by simp
      qed
      then show ?thesis using q n(4,5) by simp
    qed
    consider "state r = H_BODY" | "state r = H_SKIP" | "state r \<noteq> H_BODY" "state r \<noteq> H_SKIP" by blast
    then show ?thesis
    proof cases
      case 3
      then show ?thesis using hdr_step_ext [OF lt 3, of ping w] x IH SK "1.prems"(1) True by (cases x) (auto simp: u)
    next
      case st: 1
      then have b: "x = read_body p r" "hdr_step ping p (ext r w) = Some (read_body p (ext r w))" using x by (simp_all add: hdr_step_def)
      show ?thesis
      proof (cases x)
        case (Next p' r1)
        note n = read_body_Next [OF lt, of p' r1]
        have r1: "p' = length (buf r)" "state r1 = H_BODY" "buf r1 = buf r" "error r1 = TCP_REQ_OK" "\<not> complete r1" using n b(1) Next st True "1.prems"(3) by auto
        have "hdr_step ping (length (buf r)) (ext r1 w) = Some (read_body (length (buf r)) (ext r1 w))" using r1 by (simp add: hdr_step_def)
        moreover have "read_body p (ext r w) = read_body (length (buf r)) (ext r1 w)" using read_body_ext [OF lt, of w] b(1) [symmetric] Next by simp
        ultimately show ?thesis by (rule BULK [OF Next r1(1) r1(3-5) b(2)])
      qed (use read_body_ext [OF lt, of w] b SK "1.prems"(1) True x in \<open>auto simp: u\<close>)
    next
      case st: 2
      then have b: "x = skip_line p r" "hdr_step ping p (ext r w) = Some (skip_line p (ext r w))" using x by (simp_all add: hdr_step_def)
      then obtain p' r1 where Next: "x = Next p' r1" by (auto simp: skip_line_def Let_def split: if_splits)
      show ?thesis
      proof (cases "state r1 = H_LF")
        case True
        then show ?thesis using IH [OF Next] skip_line_ext [OF lt st, of w] b(1) [symmetric] b(2) Next by simp
      next
        case False
        then have r1: "p' = length (buf r)" "r1 = r" using b(1) Next by (auto simp: skip_line_def Let_def split: if_splits)
        have "hdr_step ping (length (buf r)) (ext r1 w) = Some (skip_line (length (buf r)) (ext r1 w))" using r1 st by (simp add: hdr_step_def)
        moreover have "skip_line p (ext r w) = skip_line (length (buf r)) (ext r1 w)" using skip_line_ext [OF lt st, of w] b(1) [symmetric] Next False r1 by simp
        ultimately show ?thesis using r1 \<open>p < length (buf r) \<and> error r = TCP_REQ_OK\<close> "1.prems"(3) by (intro BULK [OF Next r1(1) _ _ _ b(2)]) auto
      qed
    qed
  qed
qed

text \<open>In the body the content length is known.\<close>

definition hdr_inv :: "tcp_req \<Rightarrow> bool" where
  "hdr_inv r \<longleftrightarrow> (state r = H_BODY \<and> error r = TCP_REQ_OK \<longrightarrow> has_clen r)"

fun res_inv :: "hdr_res \<Rightarrow> bool" where
  "res_inv (Next p' r') = hdr_inv r'"
| "res_inv (Skip p' r') = has_clen r'"
| "res_inv Bad_pos = True"

lemma helpers_state:
  "state (crlf_default_skip c r) \<noteq> H_BODY" "st \<noteq> H_BODY \<Longrightarrow> state (change_state a b st c r) \<noteq> H_BODY"
  "state r \<noteq> H_BODY \<Longrightarrow> state (skip_empty ping c p r) \<noteq> H_BODY" "state r \<noteq> H_BODY \<Longrightarrow> state (l_colon c r) \<noteq> H_BODY"
  "state r \<noteq> H_BODY \<Longrightarrow> state (cont_len_body c r) \<noteq> H_BODY" "state r \<noteq> H_BODY \<Longrightarrow> state (cont_len_body_parse c r) \<noteq> H_BODY"
  "content_len_beg c r \<noteq> Some H_BODY"
  by (simp_all add: hdr_defs)

lemma res_inv_parts: "res_inv (end_of_headers p r)" "hdr_inv r \<Longrightarrow> state r = H_BODY \<Longrightarrow> error r = TCP_REQ_OK \<Longrightarrow> res_inv (read_body p r)"
  "state r = H_SKIP \<Longrightarrow> res_inv (skip_line p r)"
  by (simp_all add: end_of_headers_def read_body_def skip_line_def Let_def hdr_inv_def)

lemma hdr_step_inv:
  assumes "hdr_inv r" "error r = TCP_REQ_OK" "hdr_step ping p r = Some x"
  shows "res_inv x"
proof -
  have i: "state r' \<noteq> H_BODY \<Longrightarrow> hdr_inv r'" for r' by (simp add: hdr_inv_def)
  have b: "content_len_beg c r = Some st \<Longrightarrow> hdr_inv (r\<lparr>state := st\<rparr>)" for c st using helpers_state(7) [of c r] by (auto simp: hdr_inv_def)
  show ?thesis
    using assms b by (cases "state r") (auto simp: hdr_step_def Let_def res_inv_parts helpers_state i split: option.splits)
qed

lemma hdr_step_start:
  assumes "p < length (buf r)" "start r \<le> p" "hdr_step ping p r = Some x"
  shows "(case x of Next p' r' \<Rightarrow> start r' \<le> p' | Skip p' r' \<Rightarrow> start r' = start r | Bad_pos \<Rightarrow> True)"
proof -
  have "start (skip_empty ping c p r) \<le> Suc p" for c using helpers_start(6) [OF assms(2), of ping c] by simp
  then show ?thesis
    using assms by (cases "state r") (auto simp: hdr_step_def Let_def helpers_start end_of_headers_def read_body_def skip_line_def split: option.splits)
qed

lemma headers_loop_start:
  "headers_loop ping p r = Some (q, r') \<Longrightarrow> start r \<le> p \<Longrightarrow> p \<le> length (buf r) \<Longrightarrow> start r' \<le> length (buf r)"
proof (induction ping p r rule: headers_loop.induct)
  case (1 ping p r)
  note u = headers_loop.simps [of ping p r]
  show ?case
  proof (cases "p < length (buf r) \<and> error r = TCP_REQ_OK")
    case False
    then show ?thesis using "1.prems" by (auto simp: u)
  next
    case True
    then obtain x where x: "hdr_step ping p r = Some x" using "1.prems"(1) by (auto simp: u split: option.splits)
    note i = hdr_step_start [OF _ "1.prems"(2) x]
    show ?thesis
    proof (cases x)
      case (Next p' r1)
      then have "headers_loop ping p' r1 = Some (q, r')" using "1.prems"(1) True x by (simp add: u)
      then show ?thesis using "1.IH" [OF True x Next] hdr_step_Next [of p r ping p' r1] True x Next i by simp
    qed (use "1.prems" True x i in \<open>simp_all add: u\<close>)
  qed
qed

lemma headers_loop_inv:
  "headers_loop ping p r = Some (q, r') \<Longrightarrow> hdr_inv r \<Longrightarrow> \<not> complete r \<Longrightarrow> p \<le> length (buf r) \<Longrightarrow>
   hdr_inv r' \<and> (complete r' \<longrightarrow> has_clen r' \<and> error r' = TCP_REQ_OK) \<and> b_size r' = b_size r \<and> buf r' = buf r"
proof (induction ping p r rule: headers_loop.induct)
  case (1 ping p r)
  note u = headers_loop.simps [of ping p r]
  show ?case
  proof (cases "p < length (buf r) \<and> error r = TCP_REQ_OK")
    case False
    then show ?thesis using "1.prems" by (auto simp: u)
  next
    case True
    then obtain x where x: "hdr_step ping p r = Some x" using "1.prems"(1) by (auto simp: u split: option.splits)
    note i = hdr_step_inv [OF "1.prems"(2) _ x] and f = hdr_step_flags [OF x]
    show ?thesis
    proof (cases x)
      case (Next p' r1)
      then have "headers_loop ping p' r1 = Some (q, r')" using "1.prems"(1) True x by (simp add: u)
      then show ?thesis using "1.IH" [OF True x Next] hdr_step_Next [of p r ping p' r1] True x Next "1.prems"(3) i f by simp
    next
      case (Skip p' r1)
      then show ?thesis using "1.prems" True x i f by (simp add: u hdr_inv_def)
    next
      case Bad_pos
      then show ?thesis using "1.prems" True x by (simp add: u)
    qed
  qed
qed

section \<open>The stream\<close>

text \<open>
  What one byte at a time makes of a stream: the answer to the caller, the messages, and the request that remains.
  A negative content length, after which the automaton would go back in the buffer, has no result.
\<close>

fun stream :: "bool \<Rightarrow> (string \<Rightarrow> bool) \<Rightarrow> tcp_req \<Rightarrow> string \<Rightarrow> (conn_cmds \<times> tcp_event list \<times> tcp_req) option" where
  "stream ping recv r [] = Some (CONN_RELEASE, [], r)"
| "stream ping recv r (c # w) =
     Option.bind (headers_loop ping (length (buf r)) (ext r [c])) (\<lambda>(q, r1).
     if q \<noteq> length (buf r1) then None
     else let r1 = r1\<lparr>parsed := q\<rparr>
          in if error r1 \<noteq> TCP_REQ_OK then Some (CONN_ERROR, [], r1)
             else if complete r1 then
               (let (ev, ok) = event_of recv r1
                in if ok then map_option (\<lambda>(resp, evs, r). (resp, ev # evs, r)) (stream ping recv (next_req r1) w)
                   else Some (CONN_ERROR, [ev], r1))
             else stream ping recv r1 w)"

text \<open>Between two reads every byte is parsed and no message is complete.\<close>

definition resting :: "tcp_req \<Rightarrow> bool" where
  "resting r \<longleftrightarrow> parsed r = length (buf r) \<and> \<not> complete r \<and> error r = TCP_REQ_OK \<and> hdr_inv r \<and> start r \<le> length (buf r)"

lemma resting_init: "resting (init_tcp_req n)"
  by (simp add: resting_def init_tcp_req_def hdr_inv_def)

lemma resting_next: "parsed r = length (buf r) \<Longrightarrow> resting (next_req r)"
  by (simp add: resting_def next_req_def hdr_inv_def)

fun parsed_res :: "nat \<Rightarrow> hdr_res \<Rightarrow> hdr_res" where
  "parsed_res n (Next p r) = Next p (r\<lparr>parsed := n\<rparr>)"
| "parsed_res n (Skip p r) = Skip p (r\<lparr>parsed := n\<rparr>)"
| "parsed_res n Bad_pos = Bad_pos"

lemma helpers_parsed:
  "crlf_default_skip c (r\<lparr>parsed := b\<rparr>) = (crlf_default_skip c r)\<lparr>parsed := b\<rparr>" "change_state x y st c (r\<lparr>parsed := b\<rparr>) = (change_state x y st c r)\<lparr>parsed := b\<rparr>"
  "skip_empty ping c p (r\<lparr>parsed := b\<rparr>) = (skip_empty ping c p r)\<lparr>parsed := b\<rparr>" "l_colon c (r\<lparr>parsed := b\<rparr>) = (l_colon c r)\<lparr>parsed := b\<rparr>"
  "cont_len_body c (r\<lparr>parsed := b\<rparr>) = (cont_len_body c r)\<lparr>parsed := b\<rparr>" "cont_len_body_parse c (r\<lparr>parsed := b\<rparr>) = (cont_len_body_parse c r)\<lparr>parsed := b\<rparr>"
  "content_len_beg c (r\<lparr>parsed := b\<rparr>) = content_len_beg c r" "end_of_headers p (r\<lparr>parsed := b\<rparr>) = parsed_res b (end_of_headers p r)"
  "read_body p (r\<lparr>parsed := b\<rparr>) = parsed_res b (read_body p r)" "skip_line p (r\<lparr>parsed := b\<rparr>) = parsed_res b (skip_line p r)"
  by (simp_all add: hdr_defs read_body_def skip_line_def Let_def)

lemma hdr_step_parsed: "hdr_step ping p (r\<lparr>parsed := n\<rparr>) = map_option (parsed_res n) (hdr_step ping p r)"
  by (cases "state r") (simp_all add: hdr_step_def Let_def helpers_parsed split: option.splits)

lemma loop_parsed: "headers_loop ping p (r\<lparr>parsed := n\<rparr>) = map_option (\<lambda>(q, r). (q, r\<lparr>parsed := n\<rparr>)) (headers_loop ping p r)"
proof (induction ping p r rule: headers_loop.induct)
  case (1 ping p r)
  note u = headers_loop.simps [of ping p r] headers_loop.simps [of ping p "r\<lparr>parsed := n\<rparr>"]
  show ?case
  proof (cases "p < length (buf r) \<and> error r = TCP_REQ_OK")
    case False
    then show ?thesis by (auto simp: u)
  next
    case True
    show ?thesis
    proof (cases "hdr_step ping p r")
      case None
      then show ?thesis using True by (simp add: u hdr_step_parsed)
    next
      case (Some x)
      then show ?thesis using True "1.IH" [OF True Some] by (cases x) (simp_all add: u hdr_step_parsed)
    qed
  qed
qed

lemma event_of_ext: "q \<le> length (buf r) \<Longrightarrow> event_of recv ((ext r w)\<lparr>parsed := q\<rparr>) = event_of recv (r\<lparr>parsed := q\<rparr>)"
  by (simp add: event_of_def)

lemma next_req_ext: "q = length (buf r) \<Longrightarrow> (next_req ((ext r w)\<lparr>parsed := q\<rparr>))\<lparr>buf := []\<rparr> = next_req (r\<lparr>parsed := q\<rparr>)"
  by (cases r) (simp add: next_req_def)

text \<open>The stream, from the whole rest of the buffer.\<close>

definition stream_cases :: "bool \<Rightarrow> (string \<Rightarrow> bool) \<Rightarrow> nat \<Rightarrow> string \<Rightarrow> conn_cmds \<Rightarrow> tcp_event list \<Rightarrow> tcp_req \<Rightarrow> tcp_req \<Rightarrow> bool" where
  "stream_cases ping recv n w resp evs r' r1 \<longleftrightarrow>
     (error r1 \<noteq> TCP_REQ_OK \<longrightarrow> resp = CONN_ERROR \<and> evs = []) \<and>
     (error r1 = TCP_REQ_OK \<and> \<not> complete r1 \<longrightarrow> parsed r1 = n + length w \<and> resp = CONN_RELEASE \<and> evs = [] \<and> r' = r1 \<and> resting r1) \<and>
     (complete r1 \<longrightarrow> n < parsed r1 \<and> parsed r1 \<le> n + length w \<and> has_clen r1 \<and> start r1 \<le> parsed r1 \<and>
       (\<exists>ev ok. event_of recv r1 = (ev, ok) \<and> (\<not> ok \<longrightarrow> resp = CONN_ERROR \<and> evs = [ev]) \<and>
         (ok \<longrightarrow> (\<exists>evs'. stream ping recv ((next_req r1)\<lparr>buf := []\<rparr>) (drop (parsed r1 - n) w) = Some (resp, evs', r') \<and> evs = ev # evs'))))"

lemma stream_cases_Cons: "stream_cases ping recv (Suc n) w resp evs r' r1 \<Longrightarrow> stream_cases ping recv n (c # w) resp evs r' r1"
proof -
  assume a: "stream_cases ping recv (Suc n) w resp evs r' r1"
  have "drop (parsed r1 - n) (c # w) = drop (parsed r1 - Suc n) w" if "Suc n < parsed r1" using that by (simp add: drop_Cons' flip: diff_Suc_eq_diff_pred)
  then show ?thesis using a unfolding stream_cases_def by auto
qed

lemma stream_loop:
  assumes "stream ping recv r w = Some (resp, evs, r')" "resting r"
  shows "\<exists>q r1. headers_loop ping (length (buf r)) (ext r w) = Some (q, r1) \<and> buf r1 = buf r @ w \<and> stream_cases ping recv (length (buf r)) w resp evs r' (r1\<lparr>parsed := q\<rparr>)"
  using assms
proof (induction w arbitrary: r)
  case Nil
  have "headers_loop ping (length (buf r)) r = Some (length (buf r), r)" by (simp add: headers_loop.simps [of ping "length (buf r)" r])
  moreover have "r\<lparr>parsed := length (buf r)\<rparr> = r" using Nil.prems(2) by (simp add: resting_def)
  ultimately show ?case using Nil.prems by (intro exI [of _ "length (buf r)"] exI [of _ r]) (simp add: stream_cases_def resting_def hdr_inv_def)
next
  case (Cons c w)
  have res: "\<not> complete r" "error r = TCP_REQ_OK" "hdr_inv r" "parsed r = length (buf r)" "start r \<le> length (buf r)" using Cons.prems(2) by (simp_all add: resting_def)
  obtain q r1 where l: "headers_loop ping (length (buf r)) (ext r [c]) = Some (q, r1)" "q = length (buf r1)"
    using Cons.prems(1) by (auto simp: bind_eq_Some_conv split: if_splits)
  have inv: "hdr_inv r1" "complete r1 \<Longrightarrow> has_clen r1" "complete r1 \<Longrightarrow> error r1 = TCP_REQ_OK" "buf r1 = buf r @ [c]"
    using headers_loop_inv [OF l(1)] res by (simp_all add: hdr_inv_def)
  have st: "start r1 \<le> q" using headers_loop_start [OF l(1)] res l(2) inv(4) by simp
  have app: "headers_loop ping (length (buf r)) (ext r (c # w)) = (if complete r1 \<or> error r1 \<noteq> TCP_REQ_OK then Some (q, ext r1 w) else headers_loop ping q (ext r1 w))"
    using headers_loop_append [OF l(1), of w] res by simp
  consider "error r1 \<noteq> TCP_REQ_OK" | "error r1 = TCP_REQ_OK" "complete r1" | "error r1 = TCP_REQ_OK" "\<not> complete r1" by blast
  then show ?case
  proof cases
    case 1
    then have "resp = CONN_ERROR" "evs = []" using Cons.prems(1) l by auto
    then show ?thesis using 1 app inv by (auto simp: stream_cases_def)
  next
    case 2
    obtain ev ok where e: "event_of recv (r1\<lparr>parsed := q\<rparr>) = (ev, ok)" by force
    have ev: "event_of recv ((ext r1 w)\<lparr>parsed := q\<rparr>) = (ev, ok)" using e l(2) event_of_ext [of q r1 recv w] by simp
    have nr: "(next_req ((ext r1 w)\<lparr>parsed := q\<rparr>))\<lparr>buf := []\<rparr> = next_req (r1\<lparr>parsed := q\<rparr>)" by (rule next_req_ext [OF l(2)])
    have ok: "ok \<Longrightarrow> \<exists>evs'. stream ping recv (next_req (r1\<lparr>parsed := q\<rparr>)) w = Some (resp, evs', r') \<and> evs = ev # evs'" "\<not> ok \<Longrightarrow> resp = CONN_ERROR \<and> evs = [ev]"
      using Cons.prems(1) l 2 e by (auto split: if_splits)
    have "stream_cases ping recv (length (buf r)) (c # w) resp evs r' ((ext r1 w)\<lparr>parsed := q\<rparr>)"
      unfolding stream_cases_def using 2 l(2) inv st ev nr ok by simp
    then show ?thesis using app 2 inv(4) by (intro exI [of _ q] exI [of _ "ext r1 w"]) simp
  next
    case 3
    have "resting (r1\<lparr>parsed := q\<rparr>)" using 3 l inv st by (simp add: resting_def hdr_inv_def)
    moreover have "stream ping recv (r1\<lparr>parsed := q\<rparr>) w = Some (resp, evs, r')" using Cons.prems(1) l 3 by simp
    ultimately obtain q' r2 where r2: "headers_loop ping (length (buf r1)) (ext (r1\<lparr>parsed := q\<rparr>) w) = Some (q', r2)" "buf r2 = buf r1 @ w"
        "stream_cases ping recv (length (buf r1)) w resp evs r' (r2\<lparr>parsed := q'\<rparr>)"
      using Cons.IH [of "r1\<lparr>parsed := q\<rparr>"] by auto
    have eq: "ext (r1\<lparr>parsed := q\<rparr>) w = (ext r1 w)\<lparr>parsed := q\<rparr>" by simp
    have "map_option (\<lambda>(x, r). (x, r\<lparr>parsed := q\<rparr>)) (headers_loop ping q (ext r1 w)) = Some (q', r2)"
      using r2(1) unfolding eq l(2) [symmetric] loop_parsed .
    then obtain r3 where r3: "headers_loop ping q (ext r1 w) = Some (q', r3)" "r2 = r3\<lparr>parsed := q\<rparr>" by auto
    then show ?thesis using app 3 r2(2,3) inv(4) stream_cases_Cons [of ping recv "length (buf r)" w] by (intro exI [of _ q'] exI [of _ r3]) simp
  qed
qed

section \<open>Reads of any size\<close>

lemma next_req_split: "next_req r = ext ((next_req r)\<lparr>buf := []\<rparr>) (drop (parsed r) (buf r))"
  by (simp add: next_req_def)

lemma req_loop_stream:
  assumes "stream ping recv r w = Some (resp, evs, r')" "resting r" "w \<noteq> []" "req con = ext r w" "cstate con \<noteq> S_CONN_EOF"
  shows "\<exists>con'. req_loop ping recv con fl n = Some (resp, con', fl, n) \<and> events con' = events con @ evs \<and> sock con' = sock con \<and> cstate con' = cstate con \<and>
    (resp = CONN_RELEASE \<longrightarrow> req con' = r' \<and> resting r')"
  using assms
proof (induction "length w" arbitrary: r w evs con rule: less_induct)
  case less
  obtain q r1 where l: "headers_loop ping (length (buf r)) (ext r w) = Some (q, r1)" "buf r1 = buf r @ w"
      "stream_cases ping recv (length (buf r)) w resp evs r' (r1\<lparr>parsed := q\<rparr>)"
    using stream_loop [OF less.prems(1,2)] by blast
  define R where "R = r1\<lparr>parsed := q\<rparr>"
  have R: "buf R = buf r @ w" "stream_cases ping recv (length (buf r)) w resp evs r' R" "parsed R = q" using l by (simp_all add: R_def)
  have res: "parsed r = length (buf r)" "error r = TCP_REQ_OK" using less.prems(2) by (simp_all add: resting_def)
  have hd: "tcp_read_headers ping con fl = Some (0, con\<lparr>req := R\<rparr>, fl)"
    using less.prems(3,4) res l(1) by (simp add: tcp_read_headers_def R_def)
  have pass: "req_pass ping recv con fl n = (if error R \<noteq> TCP_REQ_OK then Some (Done CONN_ERROR (con\<lparr>req := R\<rparr>) fl n)
      else if complete R then req_complete recv (con\<lparr>req := R\<rparr>) fl n else Some (Done CONN_RELEASE (con\<lparr>req := R\<rparr>) fl n))"
    using less.prems(4,5) res(2) by (simp add: req_pass_def hd)
  consider "error R \<noteq> TCP_REQ_OK" | "error R = TCP_REQ_OK" "\<not> complete R" | "error R = TCP_REQ_OK" "complete R" by blast
  then show ?case
  proof cases
    case 1
    then show ?thesis using R(2) by (simp add: req_loop.simps [of ping recv con] pass stream_cases_def)
  next
    case 2
    then show ?thesis using R(2) by (simp add: req_loop.simps [of ping recv con] pass stream_cases_def)
  next
    case 3
    let ?r = "(next_req R)\<lparr>buf := []\<rparr>" and ?w = "drop (q - length (buf r)) w"
    obtain ev ok where e: "event_of recv R = (ev, ok)" "length (buf r) < q" "q \<le> length (buf r) + length w" "has_clen R" "start R \<le> q"
        "\<not> ok \<Longrightarrow> resp = CONN_ERROR \<and> evs = [ev]" "ok \<Longrightarrow> \<exists>evs'. stream ping recv ?r ?w = Some (resp, evs', r') \<and> evs = ev # evs'"
      using R(2,3) 3 unfolding stream_cases_def by blast
    show ?thesis
    proof (cases ok)
      case False
      then show ?thesis using e 3 R(3) by (simp add: req_loop.simps [of ping recv con] pass req_complete_def Let_def)
    next
      case True
      then obtain evs' where st: "stream ping recv ?r ?w = Some (resp, evs', r')" "evs = ev # evs'" using e(7) by blast
      have rest: "resting ?r" by (simp add: resting_def next_req_def hdr_inv_def)
      define con2 where "con2 = con\<lparr>events := events con @ [ev], req := next_req R\<rparr>"
      have w: "drop q (buf R) = ?w" using R(1) e(2) by simp
      have c2: "req con2 = ext ?r ?w" using next_req_split [of R] R(3) w by (simp add: con2_def)
      have rc: "req_complete recv (con\<lparr>req := R\<rparr>) fl n = Some (if q < length (buf R) then Again con2 fl n else Done CONN_RELEASE con2 fl n)"
        using e(1,4,5) True R(3) less.prems(5) by (simp add: req_complete_def Let_def con2_def)
      show ?thesis
      proof (cases "q < length (buf R)")
        case more: True
        then have ne: "?w \<noteq> []" and lt: "length ?w < length w" using R(1) e(2) by auto
        have cs: "cstate con2 \<noteq> S_CONN_EOF" using less.prems(5) by (simp add: con2_def)
        obtain con' where "req_loop ping recv con2 fl n = Some (resp, con', fl, n)" "events con' = events con2 @ evs'" "sock con' = sock con2" "cstate con' = cstate con2"
            "resp = CONN_RELEASE \<longrightarrow> req con' = r' \<and> resting r'"
          using less.hyps [OF lt st(1) rest ne c2 cs] by blast
        then show ?thesis using more 3 st(2) by (simp add: req_loop.simps [of ping recv con] pass rc con2_def)
      next
        case False
        then have "?w = []" using R(1) by simp
        then have "resp = CONN_RELEASE" "evs' = []" "r' = ?r" "next_req R = ?r" using st(1) next_req_split [of R] w R(3) by auto
        then show ?thesis using False 3 st(2) rest by (simp add: req_loop.simps [of ping recv con] pass rc con2_def)
      qed
    qed
  qed
qed

definition no_flags :: rd_flags where
  "no_flags = \<lparr>short_read = False, eof = False, force_eof = False\<rparr>"

text \<open>One read event per chunk, until the connection is given back.\<close>

fun run_chunks :: "bool \<Rightarrow> (string \<Rightarrow> bool) \<Rightarrow> tcp_connection \<Rightarrow> string list \<Rightarrow> (conn_cmds \<times> tcp_connection) option" where
  "run_chunks ping recv con [] = Some (CONN_RELEASE, con)"
| "run_chunks ping recv con (c # cs) =
     Option.bind (tcp_read_req ping recv (con\<lparr>sock := [Bytes c]\<rparr>) no_flags) (\<lambda>(resp, con, _).
     if resp \<noteq> CONN_RELEASE then Some (resp, con) else run_chunks ping recv con cs)"

text \<open>Each chunk fits into the buffer behind the bytes of the message that is not complete yet.\<close>

fun fits :: "bool \<Rightarrow> (string \<Rightarrow> bool) \<Rightarrow> tcp_req \<Rightarrow> string list \<Rightarrow> bool" where
  "fits ping recv r [] = True"
| "fits ping recv r (c # cs) = (c \<noteq> [] \<and> length (buf r) + length c \<le> b_size r \<and>
     (case stream ping recv r c of Some (CONN_RELEASE, _, r') \<Rightarrow> fits ping recv r' cs | _ \<Rightarrow> True))"

lemma stream_append:
  "stream ping recv r (u @ v) = (case stream ping recv r u of None \<Rightarrow> None
     | Some (resp, evs, r1) \<Rightarrow> if resp = CONN_RELEASE then map_option (\<lambda>(a, b, c). (a, evs @ b, c)) (stream ping recv r1 v) else Some (resp, evs, r1))"
proof (induction u arbitrary: r)
  case Nil
  then show ?case by (simp add: option.map_ident case_prod_beta')
next
  case (Cons c u)
  show ?case
  proof (cases "headers_loop ping (length (buf r)) (ext r [c])")
    case None
    then show ?thesis by simp
  next
    case (Some x)
    then show ?thesis by (cases x) (auto simp: Cons.IH Let_def option.map_comp o_def case_prod_beta' split: option.splits prod.splits)
  qed
qed

lemma tcp_read_req_chunk:
  assumes "stream ping recv r c = Some (resp, evs, r')" "resting r" "c \<noteq> []" "length (buf r) + length c \<le> b_size r" "req con = r" "cstate con \<noteq> S_CONN_EOF"
  shows "\<exists>con' fl n. tcp_read_req ping recv (con\<lparr>sock := [Bytes c]\<rparr>) no_flags = Some (resp, con', fl, n) \<and> events con' = events con @ evs \<and>
    cstate con' \<noteq> S_CONN_EOF \<and> (resp = CONN_RELEASE \<longrightarrow> req con' = r' \<and> resting r')"
proof -
  let ?con = "con\<lparr>sock := [], cstate := established (cstate con), req := ext r c\<rparr>"
  let ?fl = "no_flags\<lparr>short_read := length c \<noteq> b_size r - length (buf r)\<rparr>"
  have res: "parsed r = length (buf r)" "error r = TCP_REQ_OK" using assms(2) by (simp_all add: resting_def)
  have rd: "tcp_read (con\<lparr>sock := [Bytes c]\<rparr>) no_flags = (int (length c), ?con, ?fl)"
    using assms(3-5) by (auto simp: tcp_read_def Let_def no_flags_def)
  have "req_pass ping recv (con\<lparr>sock := [Bytes c]\<rparr>) no_flags 0 = req_pass ping recv ?con ?fl (int (length c))"
    using assms(3,5) res by (cases "headers_loop ping (length (buf r)) (ext r c)")
      (auto simp: req_pass_def tcp_read_headers_def rd)
  then have "tcp_read_req ping recv (con\<lparr>sock := [Bytes c]\<rparr>) no_flags = req_loop ping recv ?con ?fl (int (length c))"
    unfolding tcp_read_req_def req_loop.simps [of ping recv "con\<lparr>sock := [Bytes c]\<rparr>"] req_loop.simps [of ping recv ?con] by simp
  moreover have "cstate ?con \<noteq> S_CONN_EOF" using assms(6) by (simp add: established_def)
  ultimately show ?thesis using req_loop_stream [OF assms(1-3), of ?con ?fl "int (length c)"] by auto
qed

lemma run_chunks_stream:
  assumes "stream ping recv (req con) (concat cs) = Some (resp, evs, r')" "resting (req con)" "fits ping recv (req con) cs" "cstate con \<noteq> S_CONN_EOF"
  shows "\<exists>con'. run_chunks ping recv con cs = Some (resp, con') \<and> events con' = events con @ evs \<and> (resp = CONN_RELEASE \<longrightarrow> req con' = r')"
  using assms
proof (induction cs arbitrary: con evs)
  case Nil
  then show ?case by simp
next
  case (Cons c cs)
  obtain resp1 evs1 r1 where s1: "stream ping recv (req con) c = Some (resp1, evs1, r1)"
    using Cons.prems(1) by (auto simp: stream_append split: option.splits)
  obtain con1 fl n where t: "tcp_read_req ping recv (con\<lparr>sock := [Bytes c]\<rparr>) no_flags = Some (resp1, con1, fl, n)" "events con1 = events con @ evs1"
      "cstate con1 \<noteq> S_CONN_EOF" "resp1 = CONN_RELEASE \<longrightarrow> req con1 = r1 \<and> resting r1"
    using tcp_read_req_chunk [OF s1 Cons.prems(2) _ _ refl Cons.prems(4)] Cons.prems(3) by auto
  show ?case
  proof (cases "resp1 = CONN_RELEASE")
    case False
    then show ?thesis using Cons.prems(1) s1 t by (auto simp: stream_append)
  next
    case True
    then obtain evs2 where s2: "stream ping recv (req con1) (concat cs) = Some (resp, evs2, r')" "evs = evs1 @ evs2"
      using Cons.prems(1) s1 t(4) by (auto simp: stream_append)
    have "fits ping recv (req con1) cs" "resting (req con1)" using Cons.prems(3) s1 t(4) True by simp_all
    then show ?thesis using Cons.IH [OF s2(1) _ _ t(3)] t(1,2) s2(2) True by auto
  qed
qed

end
