(* ===== verification/TcpStream.thy ===== *)
theory TcpStream
  imports TcpRead
begin

text \<open>
  SIP messages on the byte stream that \<^verbatim>\<open>tcp_read_req\<close> cuts: which bytes are a message, that messages sent one after another come out
  whole whatever the sizes of the reads, and what a content length beyond the range of an \<^verbatim>\<open>int\<close> does.
\<close>

section \<open>Messages on the stream\<close>

text \<open>A byte the automaton takes.\<close>

lemma stream_Next:
  assumes "hdr_step ping (length (buf r)) (ext r [c]) = Some (Next (Suc (length (buf r))) (r1\<lparr>buf := buf r @ [c]\<rparr>))" "error r = TCP_REQ_OK" "error r1 = TCP_REQ_OK" "\<not> complete r1"
  shows "stream ping recv r (c # w) = stream ping recv (r1\<lparr>buf := buf r @ [c], parsed := Suc (length (buf r))\<rparr>) w"
proof -
  have "headers_loop ping (length (buf r)) (ext r [c]) = Some (Suc (length (buf r)), r1\<lparr>buf := buf r @ [c]\<rparr>)"
    using assms(1,2) by (simp add: headers_loop.simps [of ping "length (buf r)"] headers_loop.simps [of ping "Suc (length (buf r))"])
  then show ?thesis using assms(3,4) by simp
qed

declare stream.simps(2) [simp del]

abbreviation go :: "tcp_req \<Rightarrow> string \<Rightarrow> tcp_req_states \<Rightarrow> tcp_req" where
  "go r w st \<equiv> r\<lparr>buf := buf r @ w, parsed := length (buf r) + length w, state := st\<rparr>"

abbreviation (input) open_req :: "tcp_req \<Rightarrow> bool" where
  "open_req r \<equiv> error r = TCP_REQ_OK \<and> \<not> complete r"

lemma stream_go:
  assumes "hdr_step ping (length (buf r)) (ext r [c]) = Some (Next (Suc (length (buf r))) (r\<lparr>buf := buf r @ [c], state := st\<rparr>))" "open_req r"
  shows "stream ping recv r (c # w) = stream ping recv (go r [c] st) w"
proof -
  have e: "r\<lparr>buf := buf r @ [c], state := st\<rparr> = (r\<lparr>state := st\<rparr>)\<lparr>buf := buf r @ [c]\<rparr>"
    "go r [c] st = (r\<lparr>state := st\<rparr>)\<lparr>buf := buf r @ [c], parsed := Suc (length (buf r))\<rparr>" by simp_all
  show ?thesis unfolding e(2) by (intro stream_Next assms(1) [unfolded e(1)]) (use assms(2) in simp_all)
qed

lemma stream_skip:
  "LF \<notin> set u \<Longrightarrow> state r = H_SKIP \<Longrightarrow> open_req r \<Longrightarrow> stream ping recv r (u @ LF # w) = stream ping recv (go r (u @ [LF]) H_LF) w"
proof (induction u arbitrary: r)
  case Nil
  then show ?case using stream_go [of ping r LF H_LF recv w] by (simp add: hdr_step_def skip_line_def)
next
  case (Cons c u)
  have "stream ping recv r (c # u @ LF # w) = stream ping recv (go r [c] H_SKIP) (u @ LF # w)"
    using Cons.prems by (intro stream_go) (auto simp: hdr_step_def skip_line_def)
  then show ?case using Cons.IH [of "go r [c] H_SKIP"] Cons.prems by simp
qed

text \<open>The name of the header, after its first letter.\<close>

definition cl_states :: "tcp_req_states list" where
  "cl_states = [H_CONT_LEN1, H_CONT_LEN2, H_CONT_LEN3, H_CONT_LEN4, H_CONT_LEN5, H_CONT_LEN6, H_CONT_LEN7, H_CONT_LEN8, H_CONT_LEN9, H_CONT_LEN10,
     H_CONT_LEN11, H_CONT_LEN12, H_CONT_LEN13, H_L_COLON]"

definition cl_name :: "(char \<times> char) list" where
  "cl_name = zip ''ONTENT-LENGTH'' ''ontent_length''"

fun name_match :: "(char \<times> char) list \<Rightarrow> string \<Rightarrow> bool" where
  "name_match [] w = True"
| "name_match (x # xs) [] = False"
| "name_match (x # xs) (c # w) = ((c = fst x \<or> c = snd x) \<and> name_match xs w)"

lemma less_13: "i < 13 \<longleftrightarrow> i \<in> {0, 1, 2, 3, 4, 5, 6, 7, 8, 9, 10, 11, 12 :: nat}"
  by (simp, presburger)

lemma cl_step:
  assumes "i < 13" "state r = cl_states ! i" "p < length (buf r)"
  shows "hdr_step ping p r = Some (Next (Suc p) (if buf r ! p = fst (cl_name ! i) \<or> buf r ! p = snd (cl_name ! i) then r\<lparr>state := cl_states ! Suc i\<rparr> else crlf_default_skip (buf r ! p) r))"
  using assms unfolding less_13 by (auto simp: cl_states_def cl_name_def hdr_step_def change_state_def)

lemma name_match_drop:
  "i < 13 \<Longrightarrow> name_match (drop i cl_name) (c # u) \<longleftrightarrow> (c = fst (cl_name ! i) \<or> c = snd (cl_name ! i)) \<and> name_match (drop (Suc i) cl_name) u"
  "i < 13 \<Longrightarrow> \<not> name_match (drop i cl_name) []" "i < 13 \<Longrightarrow> fst (cl_name ! i) \<noteq> LF \<and> snd (cl_name ! i) \<noteq> LF"
  unfolding less_13 by (auto simp: cl_name_def)

lemma stream_no_clen:
  "LF \<notin> set u \<Longrightarrow> i < 13 \<Longrightarrow> state r = cl_states ! i \<Longrightarrow> \<not> name_match (drop i cl_name) u \<Longrightarrow> open_req r \<Longrightarrow>
   stream ping recv r (u @ LF # w) = stream ping recv (go r (u @ [LF]) H_LF) w"
proof (induction u arbitrary: r i)
  case Nil
  then have "stream ping recv r (LF # w) = stream ping recv (go r [LF] H_LF) w"
    using cl_step [of i "ext r [LF]" "length (buf r)" ping] name_match_drop(3) [of i] by (intro stream_go) (auto simp: crlf_default_skip_def)
  then show ?case by simp
next
  case (Cons c u)
  note st = cl_step [of i "ext r [c]" "length (buf r)" ping]
  show ?case
  proof (cases "c = fst (cl_name ! i) \<or> c = snd (cl_name ! i)")
    case False
    then have "stream ping recv r (c # u @ LF # w) = stream ping recv (go r [c] H_SKIP) (u @ LF # w)"
      using Cons.prems st by (intro stream_go) (auto simp: crlf_default_skip_def)
    then show ?thesis using Cons.prems stream_skip [of u "go r [c] H_SKIP"] by simp
  next
    case True
    then have n: "\<not> name_match (drop (Suc i) cl_name) u" using Cons.prems name_match_drop(1) by simp
    then have "Suc i < 13" using Cons.prems(2) by (cases "i = 12") (auto simp: cl_name_def)
    moreover have "stream ping recv r (c # u @ LF # w) = stream ping recv (go r [c] (cl_states ! Suc i)) (u @ LF # w)"
      using True Cons.prems st by (intro stream_go) auto
    ultimately show ?thesis using Cons.IH [of "Suc i" "go r [c] (cl_states ! Suc i)"] Cons.prems n by simp
  qed
qed

text \<open>A line that says nothing about the length: it is not empty, does not start with white space or \<^verbatim>\<open>l\<close>, and is no \<^verbatim>\<open>Content-Length\<close>.\<close>

definition plain_line :: "string \<Rightarrow> bool" where
  "plain_line u \<longleftrightarrow> u \<noteq> [] \<and> LF \<notin> set u \<and> hd u \<notin> {CR, SP, HT, CHR ''l'', CHR ''L''} \<and>
     \<not> (hd u \<in> {CHR ''C'', CHR ''c''} \<and> name_match cl_name (tl u))"

lemma first_char:
  assumes "c \<notin> {CR, SP, HT, CHR ''l'', CHR ''L'', LF}" "state r = H_LF \<and> \<not> has_clen r \<or> state r = H_SKIP_EMPTY \<and> start r = length (buf r)"
  shows "hdr_step ping (length (buf r)) (ext r [c]) =
    Some (Next (Suc (length (buf r))) (r\<lparr>buf := buf r @ [c], state := if c \<in> {CHR ''C'', CHR ''c''} then cl_states ! 0 else H_SKIP\<rparr>))"
  using assms(2)
proof
  assume "state r = H_LF \<and> \<not> has_clen r"
  then show ?thesis using assms(1) by (simp add: hdr_step_def cl_states_def content_len_beg_def)
next
  assume a: "state r = H_SKIP_EMPTY \<and> start r = length (buf r)"
  have "(r\<lparr>buf := b, start := start r, state := st\<rparr>) = (r\<lparr>buf := b, state := st\<rparr>)" for b st by (cases r) simp
  then show ?thesis using assms(1) a by (simp add: hdr_step_def cl_states_def skip_empty_def)
qed

lemma stream_line:
  assumes "plain_line u" "state r = H_LF \<and> \<not> has_clen r \<or> state r = H_SKIP_EMPTY \<and> start r = length (buf r)" "open_req r"
  shows "stream ping recv r (u @ LF # w) = stream ping recv (go r (u @ [LF]) H_LF) w"
proof -
  obtain c v where u: "u = c # v" using assms(1) by (auto simp: plain_line_def neq_Nil_conv)
  have p: "LF \<notin> set v" "c \<notin> {CR, SP, HT, CHR ''l'', CHR ''L'', LF}" "c \<in> {CHR ''C'', CHR ''c''} \<Longrightarrow> \<not> name_match (drop 0 cl_name) v"
    using assms(1) by (auto simp: plain_line_def u)
  have st: "hdr_step ping (length (buf r)) (ext r [c]) =
      Some (Next (Suc (length (buf r))) (r\<lparr>buf := buf r @ [c], state := if c \<in> {CHR ''C'', CHR ''c''} then cl_states ! 0 else H_SKIP\<rparr>))"
    by (rule first_char [OF p(2) assms(2)])
  show ?thesis
    unfolding u append_Cons stream_go [OF st assms(3)]
    using stream_no_clen [OF p(1), of 0 "go r [c] (cl_states ! 0)"] p(3) stream_skip [OF p(1), of "go r [c] H_SKIP"] assms(3) by auto
qed

abbreviation lines :: "string list \<Rightarrow> string" where
  "lines us \<equiv> concat (map (\<lambda>u. u @ [LF]) us)"

lemma stream_lines:
  "list_all plain_line us \<Longrightarrow> state r = H_LF \<Longrightarrow> \<not> has_clen r \<Longrightarrow> open_req r \<Longrightarrow> parsed r = length (buf r) \<Longrightarrow>
   stream ping recv r (lines us @ w) = stream ping recv (go r (lines us) H_LF) w"
proof (induction us arbitrary: r)
  case Nil
  then have "go r [] H_LF = r" by (cases r) simp
  then show ?case by simp
next
  case (Cons u us)
  have "stream ping recv r (lines (u # us) @ w) = stream ping recv (go r (u @ [LF]) H_LF) (lines us @ w)"
    using stream_line [of u r ping recv "lines us @ w"] Cons.prems by simp
  also have "\<dots> = stream ping recv (go (go r (u @ [LF]) H_LF) (lines us) H_LF) w"
    using Cons.prems by (intro Cons.IH) simp_all
  finally show ?case by (simp add: add.assoc)
qed

subsection \<open>The content length\<close>

lemma stream_name:
  "name_match (drop i cl_name) u \<Longrightarrow> length u + i = 13 \<Longrightarrow> state r = cl_states ! i \<Longrightarrow> open_req r \<Longrightarrow> parsed r = length (buf r) \<Longrightarrow>
   stream ping recv r (u @ w) = stream ping recv (go r u H_L_COLON) w"
proof (induction u arbitrary: r i)
  case Nil
  then have "go r [] H_L_COLON = r" by (cases r) (simp add: cl_states_def)
  then show ?case by simp
next
  case (Cons c u)
  have i: "i < 13" using Cons.prems(2) by simp
  have m: "c = fst (cl_name ! i) \<or> c = snd (cl_name ! i)" "name_match (drop (Suc i) cl_name) u" using Cons.prems(1) name_match_drop(1) [OF i] by simp_all
  have "stream ping recv r ((c # u) @ w) = stream ping recv (go r [c] (cl_states ! Suc i)) (u @ w)"
    unfolding append_Cons using m(1) Cons.prems cl_step [OF i, of "ext r [c]" "length (buf r)" ping] by (intro stream_go) auto
  also have "\<dots> = stream ping recv (go (go r [c] (cl_states ! Suc i)) u H_L_COLON) w"
    using Cons.prems m(2) by (intro Cons.IH [of "Suc i"]) simp_all
  finally show ?case by simp
qed

definition all_ws :: "string \<Rightarrow> bool" where
  "all_ws u = list_all (\<lambda>c. c = SP \<or> c = HT) u"

lemma stream_ws:
  "all_ws u \<Longrightarrow> state r = st \<Longrightarrow> st = H_L_COLON \<or> st = H_CONT_LEN_BODY \<Longrightarrow> open_req r \<Longrightarrow> parsed r = length (buf r) \<Longrightarrow>
   stream ping recv r (u @ w) = stream ping recv (go r u st) w"
proof (induction u arbitrary: r)
  case Nil
  then have "go r [] st = r" by (cases r) simp
  then show ?case by simp
next
  case (Cons c u)
  have e: "(ext r [c])\<lparr>state := st\<rparr> = ext r [c]" using Cons.prems(2) by (cases r) simp
  have "stream ping recv r ((c # u) @ w) = stream ping recv (go r [c] st) (u @ w)"
    unfolding append_Cons using Cons.prems e by (intro stream_go) (auto simp: hdr_step_def l_colon_def cont_len_body_def all_ws_def)
  also have "\<dots> = stream ping recv (go (go r [c] st) u st) w"
    using Cons.prems by (intro Cons.IH) (simp_all add: all_ws_def)
  finally show ?case by simp
qed

abbreviation go_len :: "tcp_req \<Rightarrow> string \<Rightarrow> tcp_req_states \<Rightarrow> u32 \<Rightarrow> bool \<Rightarrow> tcp_req" where
  "go_len r w st n h \<equiv> r\<lparr>content_len := n, has_clen := h, buf := buf r @ w, parsed := length (buf r) + length w, state := st\<rparr>"

lemma stream_go_len:
  assumes "hdr_step ping (length (buf r)) (ext r [c]) = Some (Next (Suc (length (buf r))) (r\<lparr>content_len := n, has_clen := h, buf := buf r @ [c], state := st\<rparr>))" "open_req r"
  shows "stream ping recv r (c # w) = stream ping recv (go_len r [c] st n h) w"
proof -
  have e: "r\<lparr>content_len := n, has_clen := h, buf := buf r @ [c], state := st\<rparr> = (r\<lparr>content_len := n, has_clen := h, state := st\<rparr>)\<lparr>buf := buf r @ [c]\<rparr>"
    "go_len r [c] st n h = (r\<lparr>content_len := n, has_clen := h, state := st\<rparr>)\<lparr>buf := buf r @ [c], parsed := Suc (length (buf r))\<rparr>" by simp_all
  show ?thesis unfolding e(2) by (intro stream_Next assms(1) [unfolded e(1)]) (use assms(2) in simp_all)
qed

lemma digit_not_ws: "is_digit c \<Longrightarrow> c \<noteq> SP \<and> c \<noteq> HT \<and> c \<noteq> CR \<and> c \<noteq> LF"
  by (auto simp: is_digit_def)

lemma stream_digits:
  "all_digits u \<Longrightarrow> state r = H_CONT_LEN_BODY_PARSE \<Longrightarrow> content_len r = of_nat n \<Longrightarrow> \<not> has_clen r \<Longrightarrow> open_req r \<Longrightarrow> parsed r = length (buf r) \<Longrightarrow>
   stream ping recv r (u @ w) = stream ping recv (go_len r u H_CONT_LEN_BODY_PARSE (of_nat (foldl (\<lambda>v c. v * 10 + digit_val c) n u)) False) w"
proof (induction u arbitrary: r n)
  case Nil
  then have "go_len r [] H_CONT_LEN_BODY_PARSE (of_nat n) False = r" by (cases r) simp
  then show ?case by simp
next
  case (Cons c u)
  let ?n = "n * 10 + digit_val c"
  have d: "is_digit c" "all_digits u" using Cons.prems(1) by (simp_all add: all_digits_def)
  have "(ext r [c])\<lparr>content_len := x\<rparr> = r\<lparr>content_len := x, has_clen := False, buf := buf r @ [c], state := H_CONT_LEN_BODY_PARSE\<rparr>" for x
    using Cons.prems(2,4) by (cases r) simp
  then have "stream ping recv r ((c # u) @ w) = stream ping recv (go_len r [c] H_CONT_LEN_BODY_PARSE (of_nat ?n) False) (u @ w)"
    unfolding append_Cons using Cons.prems d(1) by (intro stream_go_len) (simp_all add: hdr_step_def cont_len_body_parse_def)
  also have "\<dots> = stream ping recv (go_len (go_len r [c] H_CONT_LEN_BODY_PARSE (of_nat ?n) False) u H_CONT_LEN_BODY_PARSE (of_nat (foldl (\<lambda>v c. v * 10 + digit_val c) ?n u)) False) w"
    using Cons.prems d(2) by (intro Cons.IH) simp_all
  finally show ?case by simp
qed

text \<open>A \<^verbatim>\<open>Content-Length\<close> line, in its long or its short form.\<close>

record clen_line =
  cl_hdr :: string
  ws1 :: string
  ws2 :: string
  digits :: string
  cl_tail :: string

definition clen_text :: "clen_line \<Rightarrow> string" where
  "clen_text l = cl_hdr l @ ws1 l @ [CHR '':''] @ ws2 l @ digits l @ cl_tail l"

definition clen_ok :: "clen_line \<Rightarrow> bool" where
  "clen_ok l \<longleftrightarrow> (cl_hdr l = ''l'' \<or> cl_hdr l = ''L'' \<or>
       length (cl_hdr l) = 14 \<and> hd (cl_hdr l) \<in> {CHR ''C'', CHR ''c''} \<and> name_match cl_name (tl (cl_hdr l))) \<and>
     all_ws (ws1 l) \<and> all_ws (ws2 l) \<and> digits l \<noteq> [] \<and> all_digits (digits l) \<and>
     LF \<notin> set (cl_tail l) \<and> (cl_tail l = [] \<or> hd (cl_tail l) \<in> {CR, SP, HT})"

lemma clen_first:
  assumes "state r = H_LF" "\<not> has_clen r" "c \<in> {CHR ''l'', CHR ''L'', CHR ''C'', CHR ''c''}"
  shows "hdr_step ping (length (buf r)) (ext r [c]) =
    Some (Next (Suc (length (buf r))) (r\<lparr>buf := buf r @ [c], state := if c \<in> {CHR ''C'', CHR ''c''} then cl_states ! 0 else H_L_COLON\<rparr>))"
proof -
  consider "c = CHR ''l''" | "c = CHR ''L''" | "c = CHR ''C''" | "c = CHR ''c''" using assms(3) by blast
  then show ?thesis by cases (use assms(1,2) in \<open>simp_all add: hdr_step_def content_len_beg_def cl_states_def\<close>)
qed

lemma stream_hdr:
  assumes "clen_ok l" "state r = H_LF" "\<not> has_clen r" "open_req r" "parsed r = length (buf r)"
  shows "stream ping recv r (cl_hdr l @ w) = stream ping recv (go r (cl_hdr l) H_L_COLON) w"
proof (cases "cl_hdr l = ''l'' \<or> cl_hdr l = ''L''")
  case True
  then obtain c where c: "cl_hdr l = [c]" "c \<in> {CHR ''l'', CHR ''L''}" by auto
  have "hdr_step ping (length (buf r)) (ext r [c]) = Some (Next (Suc (length (buf r))) (r\<lparr>buf := buf r @ [c], state := H_L_COLON\<rparr>))"
    using clen_first [OF assms(2,3), of c] c(2) by auto
  then show ?thesis using stream_go [OF _ assms(4)] c(1) by simp
next
  case False
  then obtain c u where c: "cl_hdr l = c # u" "c \<in> {CHR ''C'', CHR ''c''}" "length u + 0 = 13" "name_match (drop 0 cl_name) u"
    using assms(1) by (cases "cl_hdr l") (auto simp: clen_ok_def)
  have "hdr_step ping (length (buf r)) (ext r [c]) = Some (Next (Suc (length (buf r))) (r\<lparr>buf := buf r @ [c], state := cl_states ! 0\<rparr>))"
    using clen_first [OF assms(2,3), of c] c(2) by auto
  then have "stream ping recv r ((c # u) @ w) = stream ping recv (go r [c] (cl_states ! 0)) (u @ w)"
    unfolding append_Cons by (rule stream_go [OF _ assms(4)])
  also have "\<dots> = stream ping recv (go (go r [c] (cl_states ! 0)) u H_L_COLON) w"
    using assms(4) by (intro stream_name [OF c(4,3)]) simp_all
  finally show ?thesis using c(1) by simp
qed

lemma stream_value:
  assumes "all_digits u" "u \<noteq> []" "state r = H_CONT_LEN_BODY" "\<not> has_clen r" "open_req r"
  shows "stream ping recv r (u @ w) = stream ping recv (go_len r u H_CONT_LEN_BODY_PARSE (of_nat (dec_value u)) False) w"
proof -
  obtain c v where u: "u = c # v" using assms(2) by (cases u) auto
  have d: "is_digit c" "all_digits v" using assms(1) by (simp_all add: all_digits_def u)
  let ?r = "go_len r [c] H_CONT_LEN_BODY_PARSE (of_nat (digit_val c)) False"
  have e: "(ext r [c])\<lparr>content_len := x, state := y\<rparr> = r\<lparr>content_len := x, has_clen := False, buf := buf r @ [c], state := y\<rparr>" for x y
    using assms(4) by (cases r) simp
  have "stream ping recv r ((c # v) @ w) = stream ping recv ?r (v @ w)"
    unfolding append_Cons using assms d(1) e digit_not_ws [OF d(1)] by (intro stream_go_len) (simp_all add: hdr_step_def cont_len_body_def)
  also have "\<dots> = stream ping recv (go_len ?r v H_CONT_LEN_BODY_PARSE (of_nat (foldl (\<lambda>v c. v * 10 + digit_val c) (digit_val c) v)) False) w"
    using assms d(2) by (intro stream_digits) simp_all
  finally show ?thesis by (simp add: u dec_value_def)
qed

lemma stream_tail:
  assumes "LF \<notin> set u" "u = [] \<or> hd u \<in> {CR, SP, HT}" "state r = H_CONT_LEN_BODY_PARSE" "open_req r"
  shows "stream ping recv r (u @ LF # w) = stream ping recv (go_len r (u @ [LF]) H_LF (content_len r) True) w"
proof (cases u)
  case Nil
  have e: "(ext r [LF])\<lparr>state := H_LF, has_clen := True\<rparr> = r\<lparr>content_len := content_len r, has_clen := True, buf := buf r @ [LF], state := H_LF\<rparr>"
    by (cases r) simp
  have "stream ping recv r (LF # w) = stream ping recv (go_len r [LF] H_LF (content_len r) True) w"
    using assms e by (intro stream_go_len) (simp_all add: hdr_step_def cont_len_body_parse_def is_digit_def)
  then show ?thesis by (simp add: Nil)
next
  case (Cons c v)
  have c: "c \<in> {CR, SP, HT}" "\<not> is_digit c" using assms(2) digit_not_ws [of c] by (auto simp: Cons)
  let ?r = "go_len r [c] H_SKIP (content_len r) True"
  have e: "(ext r [c])\<lparr>state := H_SKIP, has_clen := True\<rparr> = r\<lparr>content_len := content_len r, has_clen := True, buf := buf r @ [c], state := H_SKIP\<rparr>"
    by (cases r) simp
  have "stream ping recv r ((c # v) @ LF # w) = stream ping recv ?r (v @ LF # w)"
    unfolding append_Cons using assms c e by (intro stream_go_len) (auto simp: hdr_step_def cont_len_body_parse_def)
  also have "\<dots> = stream ping recv (go ?r (v @ [LF]) H_LF) w"
    using assms by (intro stream_skip) (simp_all add: Cons)
  finally show ?thesis by (simp add: Cons)
qed

lemma stream_clen:
  assumes "clen_ok l" "state r = H_LF" "\<not> has_clen r" "open_req r" "parsed r = length (buf r)"
  shows "stream ping recv r (clen_text l @ LF # w) = stream ping recv (go_len r (clen_text l @ [LF]) H_LF (of_nat (dec_value (digits l))) True) w"
proof -
  have ok: "all_ws (ws1 l)" "all_ws (ws2 l)" "digits l \<noteq> []" "all_digits (digits l)" "LF \<notin> set (cl_tail l)" "cl_tail l = [] \<or> hd (cl_tail l) \<in> {CR, SP, HT}"
    using assms(1) by (simp_all add: clen_ok_def)
  define r1 where "r1 = go r (cl_hdr l) H_L_COLON"
  define r2 where "r2 = go r1 (ws1 l) H_L_COLON"
  define r3 where "r3 = go r2 [CHR '':''] H_CONT_LEN_BODY"
  define r4 where "r4 = go r3 (ws2 l) H_CONT_LEN_BODY"
  define r5 where "r5 = go_len r4 (digits l) H_CONT_LEN_BODY_PARSE (of_nat (dec_value (digits l))) False"
  note rs = r1_def r2_def r3_def r4_def r5_def
  have "stream ping recv r (cl_hdr l @ ws1 l @ CHR '':'' # ws2 l @ digits l @ cl_tail l @ LF # w) = stream ping recv r1 (ws1 l @ CHR '':'' # ws2 l @ digits l @ cl_tail l @ LF # w)"
    unfolding r1_def by (rule stream_hdr [OF assms])
  also have "\<dots> = stream ping recv r2 (CHR '':'' # ws2 l @ digits l @ cl_tail l @ LF # w)"
    unfolding r2_def using assms ok(1) by (intro stream_ws) (simp_all add: r1_def)
  also have "\<dots> = stream ping recv r3 (ws2 l @ digits l @ cl_tail l @ LF # w)"
    unfolding r3_def using assms by (intro stream_go) (simp_all add: r1_def r2_def hdr_step_def l_colon_def)
  also have "\<dots> = stream ping recv r4 (digits l @ cl_tail l @ LF # w)"
    unfolding r4_def using assms ok(2) by (intro stream_ws) (simp_all add: r1_def r2_def r3_def)
  also have "\<dots> = stream ping recv r5 (cl_tail l @ LF # w)"
    unfolding r5_def using assms ok(3,4) by (intro stream_value) (simp_all add: r1_def r2_def r3_def r4_def)
  also have "\<dots> = stream ping recv (go_len r5 (cl_tail l @ [LF]) H_LF (content_len r5) True) w"
    using assms ok(5,6) by (intro stream_tail) (simp_all add: rs)
  finally show ?thesis by (simp add: clen_text_def rs ac_simps)
qed

text \<open>Once the length is known, any line that is not empty is skipped.\<close>

definition other_line :: "string \<Rightarrow> bool" where
  "other_line u \<longleftrightarrow> u \<noteq> [] \<and> LF \<notin> set u \<and> hd u \<noteq> CR"

lemma stream_others:
  "list_all other_line us \<Longrightarrow> state r = H_LF \<Longrightarrow> has_clen r \<Longrightarrow> open_req r \<Longrightarrow> parsed r = length (buf r) \<Longrightarrow>
   stream ping recv r (lines us @ w) = stream ping recv (go r (lines us) H_LF) w"
proof (induction us arbitrary: r)
  case Nil
  then have "go r [] H_LF = r" by (cases r) simp
  then show ?case by simp
next
  case (Cons u us)
  obtain c v where u: "u = c # v" "LF \<notin> set v" "c \<noteq> LF" "c \<noteq> CR" using Cons.prems(1) by (cases u) (auto simp: other_line_def)
  have st: "hdr_step ping (length (buf r)) (ext r [c]) = Some (Next (Suc (length (buf r))) (r\<lparr>buf := buf r @ [c], state := H_SKIP\<rparr>))"
    using Cons.prems(2,3) u(3,4) by (simp add: hdr_step_def content_len_beg_def)
  have "stream ping recv r (c # v @ LF # lines us @ w) = stream ping recv (go r [c] H_SKIP) (v @ LF # lines us @ w)"
    by (rule stream_go [OF st Cons.prems(4)])
  also have "\<dots> = stream ping recv (go (go r [c] H_SKIP) (v @ [LF]) H_LF) (lines us @ w)"
    using Cons.prems(4) by (intro stream_skip [OF u(2)]) simp_all
  also have "\<dots> = stream ping recv (go (go (go r [c] H_SKIP) (v @ [LF]) H_LF) (lines us) H_LF) w"
    using Cons.prems by (intro Cons.IH) simp_all
  finally show ?case by (simp add: u(1) ac_simps)
qed

subsection \<open>The body\<close>

text \<open>What follows a message that is complete.\<close>

definition deliver :: "bool \<Rightarrow> (string \<Rightarrow> bool) \<Rightarrow> tcp_req \<Rightarrow> string \<Rightarrow> (conn_cmds \<times> tcp_event list \<times> tcp_req) option" where
  "deliver ping recv r w =
     (let (ev, ok) = event_of recv r
      in if ok then map_option (\<lambda>(resp, evs, r). (resp, ev # evs, r)) (stream ping recv (next_req r) w) else Some (CONN_ERROR, [ev], r))"

lemma stream_Skip:
  assumes "hdr_step ping (length (buf r)) (ext r [c]) = Some (Skip (Suc (length (buf r))) r1)" "error r = TCP_REQ_OK" "error r1 = TCP_REQ_OK" "complete r1" "buf r1 = buf r @ [c]"
  shows "stream ping recv r (c # w) = deliver ping recv (r1\<lparr>parsed := Suc (length (buf r))\<rparr>) w"
proof -
  have "headers_loop ping (length (buf r)) (ext r [c]) = Some (Suc (length (buf r)), r1)"
    using assms(1,2) by (simp add: headers_loop.simps [of ping "length (buf r)"])
  then show ?thesis using assms(3-5) by (simp add: deliver_def stream.simps(2) Let_def)
qed

abbreviation finished :: "tcp_req \<Rightarrow> string \<Rightarrow> tcp_req" where
  "finished r b \<equiv> r\<lparr>bytes_to_go := 0, complete := True, buf := buf r @ b, parsed := length (buf r) + length b\<rparr>"

lemma stream_body:
  "b \<noteq> [] \<Longrightarrow> state r = H_BODY \<Longrightarrow> bytes_to_go r = int (length b) \<Longrightarrow> open_req r \<Longrightarrow>
   stream ping recv r (b @ w) = deliver ping recv (finished r b) w"
proof (induction b arbitrary: r)
  case Nil
  then show ?case by simp
next
  case (Cons c b)
  show ?case
  proof (cases "b = []")
    case True
    have "hdr_step ping (length (buf r)) (ext r [c]) = Some (Skip (Suc (length (buf r))) (r\<lparr>buf := buf r @ [c], bytes_to_go := 0, complete := True\<rparr>))"
      using Cons.prems(2,3) True by (simp add: hdr_step_def read_body_def nat_add_distrib)
    then have "stream ping recv r (c # w) = deliver ping recv ((r\<lparr>buf := buf r @ [c], bytes_to_go := 0, complete := True\<rparr>)\<lparr>parsed := Suc (length (buf r))\<rparr>) w"
      using Cons.prems(4) by (intro stream_Skip) simp_all
    moreover have "(r\<lparr>buf := buf r @ [c], bytes_to_go := 0, complete := True\<rparr>)\<lparr>parsed := Suc (length (buf r))\<rparr> = finished r [c]" by simp
    ultimately show ?thesis unfolding True by simp
  next
    case False
    let ?r = "(r\<lparr>bytes_to_go := int (length b)\<rparr>)\<lparr>buf := buf r @ [c], parsed := Suc (length (buf r))\<rparr>"
    have "hdr_step ping (length (buf r)) (ext r [c]) = Some (Next (Suc (length (buf r))) ((r\<lparr>bytes_to_go := int (length b)\<rparr>)\<lparr>buf := buf r @ [c]\<rparr>))"
      using Cons.prems(2,3) False by (simp add: hdr_step_def read_body_def nat_add_distrib)
    then have "stream ping recv r (c # b @ w) = stream ping recv ?r (b @ w)"
      using Cons.prems(4) by (intro stream_Next) simp_all
    also have "\<dots> = deliver ping recv (finished ?r b) w"
      using Cons.prems False by (intro Cons.IH) simp_all
    finally show ?thesis by simp
  qed
qed

lemma sint_small: "n < 2 ^ 31 \<Longrightarrow> sint (of_nat n :: u32) = int n"
  by (simp add: signed_of_nat signed_take_bit_int_eq_self)

lemma stream_lf:
  assumes "content_len r = of_nat (length b)" "length b < 2 ^ 31" "state r = H_LF \<or> state r = H_LFCR" "has_clen r" "open_req r"
  shows "\<exists>r'. stream ping recv r (LF # b @ w) = deliver ping recv r' w \<and> complete r' \<and> state r' = H_BODY \<and> buf r' = buf r @ LF # b \<and>
    parsed r' = Suc (length (buf r) + length b) \<and> start r' = start r \<and> b_size r' = b_size r"
proof -
  define r1 where "r1 = r\<lparr>state := H_BODY, body := Some (Suc (length (buf r))), bytes_to_go := int (length b)\<rparr>"
  have hs: "hdr_step ping (length (buf r)) (ext r [LF]) = Some (end_of_headers (length (buf r)) (ext r [LF]))" using assms(3) by (auto simp: hdr_step_def)
  have eoh: "end_of_headers (length (buf r)) (ext r [LF]) = (if b = [] then Skip (Suc (length (buf r))) ((r1\<lparr>buf := buf r @ [LF]\<rparr>)\<lparr>complete := True\<rparr>)
      else Next (Suc (length (buf r))) (r1\<lparr>buf := buf r @ [LF]\<rparr>))"
    using assms(1,2,4) by (simp add: end_of_headers_def r1_def sint_small)
  show ?thesis
  proof (cases "b = []")
    case True
    define R where "R = ((r1\<lparr>buf := buf r @ [LF]\<rparr>)\<lparr>complete := True\<rparr>)\<lparr>parsed := Suc (length (buf r))\<rparr>"
    have "stream ping recv r (LF # w) = deliver ping recv R w"
      unfolding R_def using hs eoh True assms(5) by (intro stream_Skip) (simp_all add: r1_def)
    then show ?thesis using True by (intro exI [of _ R]) (simp add: R_def r1_def)
  next
    case False
    define R where "R = finished (r1\<lparr>buf := buf r @ [LF], parsed := Suc (length (buf r))\<rparr>) b"
    have "stream ping recv r (LF # b @ w) = stream ping recv (r1\<lparr>buf := buf r @ [LF], parsed := Suc (length (buf r))\<rparr>) (b @ w)"
      using hs eoh False assms(5) by (intro stream_Next) (simp_all add: r1_def)
    also have "\<dots> = deliver ping recv R w"
      unfolding R_def using False assms(5) by (intro stream_body) (simp_all add: r1_def)
    finally show ?thesis by (intro exI [of _ R]) (simp add: R_def r1_def)
  qed
qed

lemma stream_end:
  assumes "bl = [LF] \<or> bl = [CR, LF]" "content_len r = of_nat (length b)" "length b < 2 ^ 31" "state r = H_LF" "has_clen r" "open_req r"
  shows "\<exists>r'. stream ping recv r (bl @ b @ w) = deliver ping recv r' w \<and> complete r' \<and> state r' = H_BODY \<and> buf r' = buf r @ bl @ b \<and>
    parsed r' = length (buf r') \<and> start r' = start r \<and> b_size r' = b_size r"
  using assms(1)
proof
  assume "bl = [LF]"
  then show ?thesis using stream_lf [of r b ping recv w] assms by fastforce
next
  assume bl: "bl = [CR, LF]"
  have "hdr_step ping (length (buf r)) (ext r [CR]) = Some (Next (Suc (length (buf r))) (r\<lparr>buf := buf r @ [CR], state := H_LFCR\<rparr>))"
    using assms(4) by (simp add: hdr_step_def)
  then have "stream ping recv r (CR # LF # b @ w) = stream ping recv (go r [CR] H_LFCR) (LF # b @ w)" by (rule stream_go [OF _ assms(6)])
  then show ?thesis using stream_lf [of "go r [CR] H_LFCR" b ping recv w] assms bl by fastforce
qed

section \<open>Messages\<close>

text \<open>A message: lines that do not give the length, the first line among them, the line that does, more lines, the empty line, the body.\<close>

record sip_text =
  pre_lines :: "string list"
  clen_hdr :: clen_line
  post_lines :: "string list"
  blank :: string
  msg_body :: string

definition head_text :: "sip_text \<Rightarrow> string" where
  "head_text m = lines (pre_lines m) @ clen_text (clen_hdr m) @ [LF] @ lines (post_lines m)"

definition msg_text :: "sip_text \<Rightarrow> string" where
  "msg_text m = head_text m @ blank m @ msg_body m"

definition head_ok :: "sip_text \<Rightarrow> bool" where
  "head_ok m \<longleftrightarrow> pre_lines m \<noteq> [] \<and> list_all plain_line (pre_lines m) \<and> clen_ok (clen_hdr m) \<and> list_all other_line (post_lines m) \<and>
     (blank m = [LF] \<or> blank m = [CR, LF])"

abbreviation clen_value :: "sip_text \<Rightarrow> nat" where
  "clen_value m \<equiv> dec_value (digits (clen_hdr m))"

definition msg_ok :: "sip_text \<Rightarrow> bool" where
  "msg_ok m \<longleftrightarrow> head_ok m \<and> clen_value m = length (msg_body m) \<and> length (msg_body m) < 2 ^ 31"

lemma next_req_init: "parsed r = length (buf r) \<Longrightarrow> b_size r = n - 1 \<Longrightarrow> next_req r = init_tcp_req n"
  by (cases r) (simp add: next_req_def init_tcp_req_def)

lemma stream_head:
  assumes "head_ok m"
  shows "stream ping recv (init_tcp_req n) (head_text m @ w) = stream ping recv (go_len (init_tcp_req n) (head_text m) H_LF (of_nat (clen_value m)) True) w"
proof -
  obtain u us where us: "pre_lines m = u # us" using assms by (auto simp: head_ok_def neq_Nil_conv)
  have ok: "plain_line u" "list_all plain_line us" "clen_ok (clen_hdr m)" "list_all other_line (post_lines m)"
    using assms by (simp_all add: head_ok_def us)
  let ?i = "init_tcp_req n"
  define r1 where "r1 = go ?i (u @ [LF]) H_LF"
  define r2 where "r2 = go r1 (lines us) H_LF"
  define r3 where "r3 = go_len r2 (clen_text (clen_hdr m) @ [LF]) H_LF (of_nat (clen_value m)) True"
  note ini = init_tcp_req_def
  have "stream ping recv ?i (u @ LF # lines us @ clen_text (clen_hdr m) @ LF # lines (post_lines m) @ w) =
      stream ping recv r1 (lines us @ clen_text (clen_hdr m) @ LF # lines (post_lines m) @ w)"
    unfolding r1_def using ok(1) by (intro stream_line) (simp_all add: ini)
  also have "\<dots> = stream ping recv r2 (clen_text (clen_hdr m) @ LF # lines (post_lines m) @ w)"
    unfolding r2_def using ok(2) by (intro stream_lines) (simp_all add: ini r1_def)
  also have "\<dots> = stream ping recv r3 (lines (post_lines m) @ w)"
    unfolding r3_def using ok(3) by (intro stream_clen) (simp_all add: ini r1_def r2_def)
  also have "\<dots> = stream ping recv (go r3 (lines (post_lines m)) H_LF) w"
    using ok(4) by (intro stream_others) (simp_all add: ini r1_def r2_def r3_def)
  finally show ?thesis by (simp add: head_text_def us r1_def r2_def r3_def ac_simps)
qed

lemma stream_msg:
  assumes "msg_ok m" "recv (msg_text m)"
  shows "stream ping recv (init_tcp_req n) (msg_text m @ w) =
    map_option (\<lambda>(resp, evs, r). (resp, Receive_msg (msg_text m) # evs, r)) (stream ping recv (init_tcp_req n) w)"
proof -
  have ok: "head_ok m" "blank m = [LF] \<or> blank m = [CR, LF]" "clen_value m = length (msg_body m)" "length (msg_body m) < 2 ^ 31"
    using assms(1) by (auto simp: msg_ok_def head_ok_def)
  define r4 where "r4 = go_len (init_tcp_req n) (head_text m) H_LF (of_nat (length (msg_body m))) True"
  have st: "stream ping recv (init_tcp_req n) (msg_text m @ w) = stream ping recv r4 (blank m @ msg_body m @ w)"
    using stream_head [OF ok(1), of ping recv n "blank m @ msg_body m @ w"] ok(3) by (simp add: msg_text_def r4_def)
  obtain r' where r': "stream ping recv r4 (blank m @ msg_body m @ w) = deliver ping recv r' w" "state r' = H_BODY" "buf r' = buf r4 @ blank m @ msg_body m"
      "parsed r' = length (buf r')" "start r' = start r4" "b_size r' = b_size r4"
    using stream_end [OF ok(2) _ ok(4), of r4 ping recv w] by (auto simp: init_tcp_req_def r4_def)
  have "buf r' = msg_text m" "start r' = 0" "next_req r' = init_tcp_req n"
    using r' by (simp_all add: init_tcp_req_def r4_def msg_text_def next_req_init)
  then show ?thesis using st r' assms(2) by (simp add: deliver_def event_of_def)
qed

lemma stream_msgs:
  "list_all msg_ok ms \<Longrightarrow> list_all (\<lambda>m. recv (msg_text m)) ms \<Longrightarrow>
   stream ping recv (init_tcp_req n) (concat (map msg_text ms)) = Some (CONN_RELEASE, map (\<lambda>m. Receive_msg (msg_text m)) ms, init_tcp_req n)"
  by (induction ms) (simp_all add: stream_msg)

subsection \<open>Room in the buffer\<close>

fun ev_len :: "tcp_event \<Rightarrow> nat" where
  "ev_len (Receive_msg m) = length m"
| "ev_len Pong = 0"

text \<open>The bytes of the messages are bytes that were read.\<close>

lemma stream_Cons_cases:
  assumes "stream ping recv r (c # w) = Some (CONN_RELEASE, evs, r')" "resting r"
  obtains r1 where "buf r1 = buf r @ [c]" "resting r1" "b_size r1 = b_size r" "stream ping recv r1 w = Some (CONN_RELEASE, evs, r')"
  | r1 ev evs' where "resting r1" "buf r1 = []" "b_size r1 = b_size r" "ev_len ev \<le> Suc (length (buf r))" "evs = ev # evs'"
      "stream ping recv r1 w = Some (CONN_RELEASE, evs', r')"
proof -
  obtain q r1 where l: "headers_loop ping (length (buf r)) (ext r [c]) = Some (q, r1)" "q = length (buf r1)"
    using assms(1) by (auto simp: stream.simps(2) bind_eq_Some_conv split: if_splits)
  have res: "\<not> complete r" "error r = TCP_REQ_OK" "hdr_inv r" "start r \<le> length (buf r)" using assms(2) by (simp_all add: resting_def)
  have inv: "hdr_inv r1" "buf r1 = buf r @ [c]" "b_size r1 = b_size r" using headers_loop_inv [OF l(1)] res by (simp_all add: hdr_inv_def)
  have s: "start r1 \<le> length (buf r1)" using headers_loop_start [OF l(1)] res inv(2) by simp
  have ok: "error r1 = TCP_REQ_OK" using assms(1) l by (auto simp: stream.simps(2) Let_def split: if_splits)
  let ?R = "r1\<lparr>parsed := q\<rparr>"
  show ?thesis
  proof (cases "complete r1")
    case False
    have "resting ?R" using False ok inv l(2) s by (simp add: resting_def hdr_inv_def)
    moreover have "stream ping recv ?R w = Some (CONN_RELEASE, evs, r')" using assms(1) l ok False by (simp add: stream.simps(2) Let_def)
    ultimately show ?thesis using that(1) [of ?R] inv by simp
  next
    case True
    obtain ev o' where e: "event_of recv ?R = (ev, o')" by force
    have "ev_len ev \<le> length (buf r1)" using e by (auto simp: event_of_def Let_def split: if_splits)
    moreover obtain evs' where "stream ping recv (next_req ?R) w = Some (CONN_RELEASE, evs', r')" "evs = ev # evs'"
      using assms(1) l ok True e by (auto simp: stream.simps(2) Let_def split: if_splits)
    moreover have "resting (next_req ?R)" using l(2) by (intro resting_next) simp
    ultimately show ?thesis using that(2) [of "next_req ?R" ev evs'] inv l(2) by (simp add: next_req_def)
  qed
qed

lemma stream_bytes:
  "stream ping recv r w = Some (CONN_RELEASE, evs, r') \<Longrightarrow> resting r \<Longrightarrow>
   resting r' \<and> b_size r' = b_size r \<and> sum_list (map ev_len evs) + length (buf r') \<le> length (buf r) + length w"
proof (induction w arbitrary: r evs)
  case Nil
  then show ?case by simp
next
  case (Cons c w)
  from Cons.prems show ?case by (cases rule: stream_Cons_cases) (use Cons.IH in fastforce)+
qed

lemma stream_first:
  "stream ping recv r w = Some (CONN_RELEASE, e # evs, r') \<Longrightarrow> resting r \<Longrightarrow>
   sum_list (map ev_len (e # evs)) = length (buf r) + length w \<Longrightarrow> length (buf r) \<le> ev_len e"
proof (induction w arbitrary: r)
  case Nil
  then show ?case by simp
next
  case (Cons c w)
  from Cons.prems(1,2) show ?case
  proof (cases rule: stream_Cons_cases)
    case (1 r1)
    then show ?thesis using Cons.IH [of r1] Cons.prems(3) by simp
  next
    case (2 r1 ev evs')
    then show ?thesis using stream_bytes [of ping recv r1 w evs' r'] Cons.prems(3) by simp
  qed
qed

lemma fits_tight:
  "stream ping recv r (concat cs) = Some (CONN_RELEASE, evs, r') \<Longrightarrow> resting r \<Longrightarrow> sum_list (map ev_len evs) = length (buf r) + length (concat cs) \<Longrightarrow>
   list_all (\<lambda>e. ev_len e \<le> k) evs \<Longrightarrow> list_all (\<lambda>c. c \<noteq> [] \<and> k + length c \<le> b_size r) cs \<Longrightarrow> fits ping recv r cs"
proof (induction cs arbitrary: r evs)
  case Nil
  then show ?case by simp
next
  case (Cons c cs)
  have room: "length (buf r) \<le> k"
  proof (cases evs)
    case (Cons e es)
    then show ?thesis using stream_first [of ping recv r "concat (c # cs)" e es r'] Cons.prems by simp
  qed (use Cons.prems in simp)
  obtain evs1 r1 evs2 where s: "stream ping recv r c = Some (CONN_RELEASE, evs1, r1)" "stream ping recv r1 (concat cs) = Some (CONN_RELEASE, evs2, r')" "evs = evs1 @ evs2"
    using Cons.prems(1) by (auto simp: stream_append split: option.splits if_splits)
  note b1 = stream_bytes [OF s(1) Cons.prems(2)]
  have "sum_list (map ev_len evs2) = length (buf r1) + length (concat cs)"
    using b1 stream_bytes [OF s(2)] Cons.prems(3) s(3) by simp
  then have "fits ping recv r1 cs" using b1 Cons.prems(4,5) s(3) by (intro Cons.IH [OF s(2)]) simp_all
  then show ?case using room s(1) Cons.prems(5) by simp
qed

section \<open>The properties\<close>

text \<open>C4: framing.  SIP messages sent one after another on a connection, each with a \<^verbatim>\<open>Content-Length\<close> that fits an \<^verbatim>\<open>int\<close>, are handed to
  \<^verbatim>\<open>receive_msg\<close> one by one, each exactly as it was sent, however the bytes are cut into reads, as long as the longest message and
  the longest read together fit into the buffer.  The connection is released with an empty request.
\<close>

theorem tcp_framing:
  assumes "list_all msg_ok ms" and "list_all (\<lambda>m. recv (msg_text m) \<and> length (msg_text m) \<le> k) ms"
    and "list_all (\<lambda>c. c \<noteq> [] \<and> k + length c \<le> n) cs" and "concat cs = concat (map msg_text ms)"
    and "req con = init_tcp_req (n + 1)" and "cstate con \<noteq> S_CONN_EOF"
  shows "\<exists>con'. run_chunks ping recv con cs = Some (CONN_RELEASE, con') \<and> events con' = events con @ map (\<lambda>m. Receive_msg (msg_text m)) ms \<and>
    req con' = init_tcp_req (n + 1)"
proof -
  let ?evs = "map (\<lambda>m. Receive_msg (msg_text m)) ms"
  have st: "stream ping recv (req con) (concat cs) = Some (CONN_RELEASE, ?evs, init_tcp_req (n + 1))"
    unfolding assms(4,5) using assms(1,2) by (intro stream_msgs) (simp_all add: list_all_iff)
  have "sum_list (map ev_len ?evs) = length (concat (map msg_text ms))" by (induction ms) simp_all
  then have "fits ping recv (req con) cs"
    using assms(2,3,4,5) resting_init [of "n + 1"] by (intro fits_tight [OF st, of k]) (auto simp: list_all_iff init_tcp_req_def)
  then show ?thesis using run_chunks_stream [OF st] assms(5,6) resting_init [of "n + 1"] by auto
qed

definition demo_msg :: "string \<Rightarrow> string \<Rightarrow> sip_text" where
  "demo_msg d b = \<lparr>pre_lines = [''INVITE sip:a SIP/2.0'' @ [CR], ''Contact: b'' @ [CR]],
     clen_hdr = \<lparr>cl_hdr = ''Content-Length'', ws1 = [], ws2 = '' '', digits = d, cl_tail = [CR]\<rparr>, post_lines = [''Subject: x'' @ [CR]], blank = [CR, LF], msg_body = b\<rparr>"

definition demo_con :: tcp_connection where
  "demo_con = \<lparr>req = init_tcp_req 201, cstate = S_CONN_OK, sock = [], events = []\<rparr>"

theorem tcp_framing_witness:
  "\<exists>con'. run_chunks False (\<lambda>_. True) demo_con [take 50 (msg_text (demo_msg ''3'' ''abc'')), drop 50 (msg_text (demo_msg ''3'' ''abc'')) @ msg_text (demo_msg ''0'' [])] =
     Some (CONN_RELEASE, con') \<and> events con' = [Receive_msg (msg_text (demo_msg ''3'' ''abc'')), Receive_msg (msg_text (demo_msg ''0'' []))]"
proof -
  let ?m = "demo_msg ''3'' ''abc''" and ?n = "demo_msg ''0'' []"
  let ?cs = "[take 50 (msg_text ?m), drop 50 (msg_text ?m) @ msg_text ?n]"
  have h: "head_ok ?m" "head_ok ?n" "clen_value ?m = 3" "clen_value ?n = 0" by code_simp+
  then have a: "list_all msg_ok [?m, ?n]" by (simp add: msg_ok_def demo_msg_def)
  have b: "list_all (\<lambda>m. (\<lambda>_. True) (msg_text m) \<and> length (msg_text m) \<le> 80) [?m, ?n]" by code_simp
  have c: "list_all (\<lambda>c. c \<noteq> [] \<and> 80 + length c \<le> 200) ?cs" by code_simp
  have d: "concat ?cs = concat (map msg_text [?m, ?n])" by simp
  have e: "req demo_con = init_tcp_req (200 + 1)" "cstate demo_con \<noteq> S_CONN_EOF" by (simp_all add: demo_con_def)
  show ?thesis using tcp_framing [OF a b c d e, of False] by (auto simp: demo_con_def)
qed

text \<open>C5: segmentation.  What a connection makes of its input does not depend on how the bytes are cut into reads: the calls of
  \<^verbatim>\<open>tcp_read_req\<close>, one for each read that fits into the buffer, return, give the answer and deliver the messages and pongs that the bytes
  give when they are parsed one at a time, unless the parser would have to go back because of a negative content length.
\<close>

theorem tcp_segmentation:
  assumes "resting (req con)" and "cstate con \<noteq> S_CONN_EOF" and "fits ping recv (req con) cs" and "stream ping recv (req con) (concat cs) \<noteq> None"
  shows "map_option (\<lambda>(resp, con'). (resp, events con')) (run_chunks ping recv con cs) =
    map_option (\<lambda>(resp, evs, _). (resp, events con @ evs)) (stream ping recv (req con) (concat cs))"
proof -
  obtain resp evs r' where s: "stream ping recv (req con) (concat cs) = Some (resp, evs, r')" using assms(4) by (cases "stream ping recv (req con) (concat cs)") auto
  then show ?thesis using run_chunks_stream [OF s assms(1,3,2)] by auto
qed

theorem tcp_segmentation_witness:
  "map_option (\<lambda>(resp, con'). (resp, events con')) (run_chunks True (\<lambda>_. True) demo_con [[CR, LF, CR], [LF, CHR ''A'', LF, CHR ''l'', CHR '':'', CHR ''1'', LF, LF, CHR ''x'']]) =
   Some (CONN_RELEASE, [Pong, Receive_msg [CHR ''A'', LF, CHR ''l'', CHR '':'', CHR ''1'', LF, LF, CHR ''x'']])"
proof -
  let ?cs = "[[CR, LF, CR], [LF, CHR ''A'', LF, CHR ''l'', CHR '':'', CHR ''1'', LF, LF, CHR ''x'']]"
  have a: "resting (req demo_con)" "cstate demo_con \<noteq> S_CONN_EOF" by (simp_all add: demo_con_def resting_init)
  have f: "fits True (\<lambda>_. True) (req demo_con) ?cs" by code_simp
  have s: "map_option (\<lambda>(resp, evs, _). (resp, events demo_con @ evs)) (stream True (\<lambda>_. True) (req demo_con) (concat ?cs)) =
    Some (CONN_RELEASE, [Pong, Receive_msg [CHR ''A'', LF, CHR ''l'', CHR '':'', CHR ''1'', LF, LF, CHR ''x'']])" by code_simp
  then have "stream True (\<lambda>_. True) (req demo_con) (concat ?cs) \<noteq> None" by auto
  then show ?thesis using tcp_segmentation [OF a f] s by simp
qed

lemma stream_blank:
  assumes "bl = [LF] \<or> bl = [CR, LF]" "sint (content_len r) \<noteq> 0" "state r = H_LF" "has_clen r" "open_req r"
  shows "\<exists>r'. stream ping recv r bl = Some (CONN_RELEASE, [], r') \<and> \<not> complete r' \<and> error r' = TCP_REQ_OK \<and> has_clen r' \<and> state r' = H_BODY \<and>
    bytes_to_go r' = sint (content_len r) \<and> buf r' = buf r @ bl \<and> start r' = start r"
proof -
  have lf: "\<exists>r'. stream ping recv r0 [LF] = Some (CONN_RELEASE, [], r') \<and> \<not> complete r' \<and> error r' = TCP_REQ_OK \<and> has_clen r' \<and> state r' = H_BODY \<and>
      bytes_to_go r' = sint (content_len r0) \<and> buf r' = buf r0 @ [LF] \<and> start r' = start r0"
    if s: "sint (content_len r0) \<noteq> 0" "state r0 = H_LF \<or> state r0 = H_LFCR" "has_clen r0" "open_req r0" for r0
  proof -
    define r1 where "r1 = r0\<lparr>state := H_BODY, body := Some (Suc (length (buf r0))), bytes_to_go := sint (content_len r0)\<rparr>"
    have "hdr_step ping (length (buf r0)) (ext r0 [LF]) = Some (Next (Suc (length (buf r0))) (r1\<lparr>buf := buf r0 @ [LF]\<rparr>))"
      using s by (auto simp: hdr_step_def end_of_headers_def r1_def Let_def)
    then have "stream ping recv r0 [LF] = stream ping recv (r1\<lparr>buf := buf r0 @ [LF], parsed := Suc (length (buf r0))\<rparr>) []"
      using s(4) by (intro stream_Next) (simp_all add: r1_def)
    then show ?thesis using s by (simp add: r1_def)
  qed
  from assms(1) show ?thesis
  proof
    assume "bl = [LF]"
    then show ?thesis using lf [of r] assms by simp
  next
    assume bl: "bl = [CR, LF]"
    have "hdr_step ping (length (buf r)) (ext r [CR]) = Some (Next (Suc (length (buf r))) (r\<lparr>buf := buf r @ [CR], state := H_LFCR\<rparr>))"
      using assms(3) by (simp add: hdr_step_def)
    then have "stream ping recv r [CR, LF] = stream ping recv (go r [CR] H_LFCR) [LF]" by (rule stream_go [OF _ assms(5)])
    then show ?thesis using lf [of "go r [CR] H_LFCR"] assms bl by simp
  qed
qed

lemma sint_wrap: "0 < k \<Longrightarrow> k \<le> 2 ^ 31 \<Longrightarrow> sint (of_nat (2 ^ 32 - k) :: u32) = - int k"
proof -
  assume k: "0 < k" "k \<le> 2 ^ 31"
  have "(4294967296 :: u32) = 0" by code_simp
  then have e: "(of_nat (2 ^ 32 - k) :: u32) = of_int (- int k)" using k by (simp add: of_nat_diff)
  have "signed_take_bit 31 (- int k) = - int k" using k by (intro signed_take_bit_int_eq_self) simp_all
  then show ?thesis unfolding e signed_of_int by simp
qed

lemma headers_wrap:
  assumes "head_ok m" "msg_body m = []" "clen_value m = 2 ^ 32 - k" "0 < k" "k \<le> 2 ^ 31" "k \<le> length (msg_text m)" "x \<noteq> []"
  shows "\<exists>r. headers_loop ping 0 ((init_tcp_req n)\<lparr>buf := msg_text m @ x\<rparr>) = Some (length (msg_text m) - k, r) \<and>
    buf r = msg_text m @ x \<and> complete r \<and> error r = TCP_REQ_OK \<and> has_clen r \<and> state r = H_BODY \<and> start r = 0"
proof -
  let ?i = "init_tcp_req n"
  define r4 where "r4 = go_len ?i (head_text m) H_LF (of_nat (clen_value m)) True"
  have bl: "blank m = [LF] \<or> blank m = [CR, LF]" using assms(1) by (auto simp: head_ok_def)
  have c: "sint (content_len r4) = - int k" using assms(3-5) sint_wrap [of k] by (simp add: r4_def)
  obtain r' where r': "stream ping (\<lambda>_. True) r4 (blank m) = Some (CONN_RELEASE, [], r')" "\<not> complete r'" "error r' = TCP_REQ_OK" "has_clen r'" "state r' = H_BODY"
      "bytes_to_go r' = - int k" "buf r' = msg_text m" "start r' = 0"
    using stream_blank [OF bl, of r4 ping "\<lambda>_. True"] c assms(2,4) by (auto simp: r4_def init_tcp_req_def msg_text_def)
  have s: "stream ping (\<lambda>_. True) ?i (msg_text m) = Some (CONN_RELEASE, [], r')"
    using stream_head [OF assms(1), of ping "\<lambda>_. True" n "blank m"] r'(1) assms(2) by (simp add: msg_text_def r4_def)
  have i: "buf ?i = []" "\<not> complete ?i" by (simp_all add: init_tcp_req_def)
  obtain q r1 where l: "headers_loop ping 0 (ext ?i (msg_text m)) = Some (q, r1)" "stream_cases ping (\<lambda>_. True) 0 (msg_text m) CONN_RELEASE [] r' (r1\<lparr>parsed := q\<rparr>)"
    using stream_loop [OF s resting_init] i(1) by auto
  have r1: "r' = r1\<lparr>parsed := q\<rparr>" "q = length (msg_text m)"
    using l(2) r'(2,3) unfolding stream_cases_def by (cases "complete r1"; cases "error r1"; auto)+
  have "headers_loop ping 0 (ext ?i (msg_text m @ x)) = headers_loop ping q (ext r1 x)"
    using headers_loop_append [OF l(1), of x] i r1(1) r'(2,3) by simp
  also have "\<dots> = Some (length (msg_text m) - k, (ext r1 x)\<lparr>bytes_to_go := 0, complete := True\<rparr>)"
  proof -
    have "read_body q (ext r1 x) = Skip (length (msg_text m) - k) ((ext r1 x)\<lparr>bytes_to_go := 0, complete := True\<rparr>)"
      using r1 r'(6,7) assms(4,6) by (auto simp: read_body_def Let_def nat_diff_distrib)
    then show ?thesis using r1 r'(3,5,7) assms(7) by (simp add: headers_loop.simps [of ping "length (msg_text m)"] hdr_step_def)
  qed
  finally show ?thesis using r1 r' i(1) by simp
qed

text \<open>C35: a content length of 2 to the 32 less k.  The digits are added up in an \<^verbatim>\<open>int\<close> without a check, so the length is -k: the parser goes back k bytes
  from the end of the headers, hands on a message that lacks its last k bytes, and parses those bytes again as the start of the next message.
\<close>

theorem content_length_wrap:
  assumes "head_ok m" and "msg_body m = []" and "clen_value m = 2 ^ 32 - k" and "0 < k" and "k \<le> 2 ^ 31" and "k \<le> length (msg_text m)"
    and "x \<noteq> []" and "length (msg_text m @ x) \<le> n" and "req con = init_tcp_req (n + 1)" and "cstate con \<noteq> S_CONN_EOF"
    and "recv (take (length (msg_text m) - k) (msg_text m))"
  shows "\<exists>con' fl' t. req_pass ping recv (con\<lparr>sock := [Bytes (msg_text m @ x)]\<rparr>) no_flags 0 = Some (Again con' fl' t) \<and>
    events con' = events con @ [Receive_msg (take (length (msg_text m) - k) (msg_text m))] \<and>
    buf (req con') = drop (length (msg_text m) - k) (msg_text m) @ x"
proof -
  let ?h = "msg_text m" and ?con = "con\<lparr>sock := [Bytes (msg_text m @ x)]\<rparr>"
  obtain r where r: "headers_loop ping 0 ((init_tcp_req (n + 1))\<lparr>buf := ?h @ x\<rparr>) = Some (length ?h - k, r)" "buf r = ?h @ x" "complete r" "error r = TCP_REQ_OK"
      "has_clen r" "state r = H_BODY" "start r = 0"
    using headers_wrap [OF assms(1-7)] by blast
  have i: "buf (req con) = []" "parsed (req con) = 0" "b_size (req con) = n" "error (req con) = TCP_REQ_OK" using assms(9) by (simp_all add: init_tcp_req_def)
  define con1 where "con1 = con\<lparr>sock := [], cstate := established (cstate con), req := r\<lparr>parsed := length ?h - k\<rparr>\<rparr>"
  have pos: "0 < n" "\<not> int (length ?h) + int (length x) \<le> 0" using assms(7,8) by (cases x; simp)+
  have "\<exists>fl. tcp_read ?con no_flags = (int (length (?h @ x)), con\<lparr>sock := [], cstate := established (cstate con), req := (req con)\<lparr>buf := ?h @ x\<rparr>\<rparr>, fl)"
    using assms(8) i pos(1) assms(7) by (auto simp: tcp_read_def Let_def no_flags_def)
  then obtain fl where "tcp_read_headers ping ?con no_flags = Some (int (length (?h @ x)), con1, fl)"
    using pos(2) i r(1) [folded assms(9)] by (auto simp: tcp_read_headers_def con1_def)
  moreover have "cstate con1 \<noteq> S_CONN_EOF" using assms(10) by (simp add: con1_def established_def)
  ultimately have "req_pass ping recv ?con no_flags 0 = req_complete recv con1 fl (int (length (?h @ x)))"
    using i(4) r by (simp add: req_pass_def con1_def)
  moreover have "length ?h - k < length (?h @ x)" using assms(4,7) by (cases x) auto
  ultimately show ?thesis
    using r assms(11) by (simp add: req_complete_def event_of_def next_req_def con1_def Let_def)
qed

theorem content_length_wrap_witness:
  "\<exists>con' fl' t. req_pass False (\<lambda>_. True) (demo_con\<lparr>sock := [Bytes (msg_text (demo_msg ''4294967295'' []) @ ''x'')]\<rparr>) no_flags 0 = Some (Again con' fl' t) \<and>
    events con' = [Receive_msg (take (length (msg_text (demo_msg ''4294967295'' [])) - 1) (msg_text (demo_msg ''4294967295'' [])))]"
proof -
  let ?m = "demo_msg ''4294967295'' []"
  have a: "head_ok ?m" "msg_body ?m = []" by code_simp+
  have b: "clen_value ?m = 2 ^ 32 - 1" by (simp add: demo_msg_def dec_value_def digit_val_def)
  have c: "1 \<le> length (msg_text ?m)" "length (msg_text ?m @ ''x'') \<le> 200" by code_simp+
  have d: "req demo_con = init_tcp_req (200 + 1)" "cstate demo_con \<noteq> S_CONN_EOF" "events demo_con = []" by (simp_all add: demo_con_def)
  show ?thesis using content_length_wrap [OF a b _ _ c(1) _ c(2) d(1,2), of "\<lambda>_. True" False] d(3) by auto
qed

section \<open>The loop over the messages ends\<close>

fun sock_bytes :: "read_result list \<Rightarrow> nat" where
  "sock_bytes [] = 0"
| "sock_bytes (Bytes d # s) = length d + sock_bytes s"
| "sock_bytes (x # s) = sock_bytes s"

lemma sys_read_bytes: "sys_read n s = (x, s') \<Longrightarrow> (case x of Bytes d \<Rightarrow> length d | _ \<Rightarrow> 0) + sock_bytes s' \<le> sock_bytes s"
  by (induction n s rule: sys_read.induct) (auto split: if_splits)

lemma tcp_read_bytes:
  assumes "tcp_read c fl = (n, c', fl')"
  shows "length (buf (req c')) + sock_bytes (sock c') \<le> length (buf (req c)) + sock_bytes (sock c) \<and> parsed (req c') = parsed (req c) \<and>
    (if 0 < n then length (buf (req c)) < length (buf (req c')) else length (buf (req c')) = length (buf (req c)))"
proof -
  obtain x s' where s: "sys_read (b_size (req c) - length (buf (req c))) (sock c) = (x, s')" by force
  show ?thesis using assms sys_read_bytes [OF s] s by (cases x) (auto simp: tcp_read_def Let_def split: if_splits)
qed

lemma headers_loop_buf: "headers_loop ping p r = Some (q, r') \<Longrightarrow> p \<le> length (buf r) \<Longrightarrow> buf r' = buf r"
proof (induction ping p r rule: headers_loop.induct)
  case (1 ping p r)
  note u = headers_loop.simps [of ping p r]
  show ?case
  proof (cases "p < length (buf r) \<and> error r = TCP_REQ_OK")
    case False
    then show ?thesis using "1.prems" by (auto simp: u)
  next
    case True
    then obtain x where x: "hdr_step ping p r = Some x" using "1.prems"(1) by (auto simp: u split: option.splits)
    show ?thesis
    proof (cases x)
      case (Next p' r1)
      then show ?thesis using "1.IH" [OF True x Next] hdr_step_Next [of p r ping p' r1] True x "1.prems"(1) by (simp add: u)
    qed (use "1.prems" True x hdr_step_flags [OF x] in \<open>simp_all add: u\<close>)
  qed
qed

lemma helpers_ping:
  "state (crlf_default_skip c r) \<noteq> H_PING_CRLF" "st \<noteq> H_PING_CRLF \<Longrightarrow> state (change_state a b st c r) \<noteq> H_PING_CRLF"
  "state r \<noteq> H_PING_CRLF \<Longrightarrow> state (skip_empty ping c p r) \<noteq> H_PING_CRLF" "state r \<noteq> H_PING_CRLF \<Longrightarrow> state (l_colon c r) \<noteq> H_PING_CRLF"
  "state r \<noteq> H_PING_CRLF \<Longrightarrow> state (cont_len_body c r) \<noteq> H_PING_CRLF" "state r \<noteq> H_PING_CRLF \<Longrightarrow> state (cont_len_body_parse c r) \<noteq> H_PING_CRLF"
  "content_len_beg c r \<noteq> Some H_PING_CRLF"
  by (simp_all add: hdr_defs)

lemma hdr_step_ping:
  assumes "hdr_step ping p r = Some x"
  shows "(case x of Next p' r' \<Rightarrow> state r' \<noteq> H_PING_CRLF | Skip p' r' \<Rightarrow> state r' = H_PING_CRLF \<longrightarrow> 0 < p' | Bad_pos \<Rightarrow> True)"
proof -
  have "content_len_beg c r = Some st \<Longrightarrow> st \<noteq> H_PING_CRLF" for c st using helpers_ping(7) [of c r] by auto
  then show ?thesis
    using assms by (cases "state r") (auto simp: hdr_step_def Let_def helpers_ping end_of_headers_def read_body_def skip_line_def split: option.splits)
qed

lemma headers_loop_ping: "headers_loop ping p r = Some (q, r') \<Longrightarrow> state r' = H_PING_CRLF \<Longrightarrow> state r \<noteq> H_PING_CRLF \<Longrightarrow> 0 < q"
proof (induction ping p r rule: headers_loop.induct)
  case (1 ping p r)
  note u = headers_loop.simps [of ping p r]
  show ?case
  proof (cases "p < length (buf r) \<and> error r = TCP_REQ_OK")
    case False
    then show ?thesis using "1.prems" by (auto simp: u)
  next
    case True
    then obtain x where x: "hdr_step ping p r = Some x" using "1.prems"(1) by (auto simp: u split: option.splits)
    show ?thesis
    proof (cases x)
      case (Next p' r1)
      then show ?thesis using "1.IH" [OF True x Next] True x "1.prems" hdr_step_ping [OF x] by (simp add: u)
    qed (use "1.prems" True x hdr_step_ping [OF x] in \<open>simp_all add: u\<close>)
  qed
qed

lemma loop_pass:
  assumes "headers_loop ping p r = Some (q, r')" "p < length (buf r)" "error r' = TCP_REQ_OK"
  shows "buf r' = buf r" "q = 0 \<Longrightarrow> state r' \<noteq> H_PING_CRLF"
proof -
  show "buf r' = buf r" using headers_loop_buf [OF assms(1)] assms(2) by simp
  have "state r \<noteq> H_PING_CRLF" using assms by (auto simp: headers_loop.simps [of ping p r] hdr_step_def split: if_splits)
  then show "q = 0 \<Longrightarrow> state r' \<noteq> H_PING_CRLF" using headers_loop_ping [OF assms(1)] by auto
qed

lemma read_headers_pass:
  assumes "tcp_read_headers ping con fl = Some (b, con1, fl1)" "parsed (req con) \<le> length (buf (req con))" "error (req con1) = TCP_REQ_OK" "parsed (req con1) < length (buf (req con1))"
  shows "length (buf (req con1)) + sock_bytes (sock con1) \<le> length (buf (req con)) + sock_bytes (sock con) \<and> (parsed (req con1) = 0 \<longrightarrow> state (req con1) \<noteq> H_PING_CRLF)"
proof (cases "parsed (req con) < length (buf (req con))")
  case True
  then obtain q r where "headers_loop ping (parsed (req con)) (req con) = Some (q, r)" "con1 = con\<lparr>req := r\<lparr>parsed := q\<rparr>\<rparr>"
    using assms(1) by (auto simp: tcp_read_headers_def bind_eq_Some_conv)
  then show ?thesis using loop_pass [of ping "parsed (req con)" "req con" q r] True assms(3) by simp
next
  case False
  obtain n con2 fl2 where t: "tcp_read con fl = (n, con2, fl2)" by (cases "tcp_read con fl")
  note b = tcp_read_bytes [OF t]
  show ?thesis
  proof (cases "n \<le> 0")
    case True
    then have "con1 = con2" using assms(1) False t by (auto simp: tcp_read_headers_def)
    then show ?thesis using b True False assms(2,4) by simp
  next
    case pos: False
    then obtain q r where "headers_loop ping (parsed (req con2)) (req con2) = Some (q, r)" "con1 = con2\<lparr>req := r\<lparr>parsed := q\<rparr>\<rparr>"
      using assms(1) False t by (auto simp: tcp_read_headers_def bind_eq_Some_conv)
    then show ?thesis using loop_pass [of ping "parsed (req con2)" "req con2" q r] b pos assms(2,3) by simp
  qed
qed

text \<open>One more round.\<close>

definition again :: "bool \<Rightarrow> (string \<Rightarrow> bool) \<Rightarrow> tcp_connection \<times> rd_flags \<times> int \<Rightarrow> tcp_connection \<times> rd_flags \<times> int \<Rightarrow> bool" where
  "again ping recv x y \<longleftrightarrow> (case (x, y) of ((con, fl, n), (con', fl', n')) \<Rightarrow> req_pass ping recv con fl n = Some (Again con' fl' n'))"

lemma again_less:
  assumes "again ping recv (con, fl, n) (con', fl', n')" "\<not> recv []" "parsed (req con) \<le> length (buf (req con))"
  shows "length (buf (req con')) + sock_bytes (sock con') < length (buf (req con)) + sock_bytes (sock con) \<and> parsed (req con') = 0"
proof -
  obtain b con1 fl1 where h: "tcp_read_headers ping con fl = Some (b, con1, fl1)" "error (req con1) = TCP_REQ_OK" "complete (req con1)"
      "req_complete recv con1 fl1 (n + b) = Some (Again con' fl' n')"
    using assms(1) by (auto simp: again_def req_pass_def Let_def bind_eq_Some_conv split: if_splits)
  have lt: "parsed (req con1) < length (buf (req con1))" "req con' = next_req (req con1)" "sock con' = sock con1" "snd (event_of recv (req con1))"
    using h(4) by (auto simp: req_complete_def Let_def split: if_splits prod.splits)
  have le: "length (buf (req con1)) + sock_bytes (sock con1) \<le> length (buf (req con)) + sock_bytes (sock con)" "parsed (req con1) = 0 \<Longrightarrow> state (req con1) \<noteq> H_PING_CRLF"
    using read_headers_pass [OF h(1) assms(3) h(2) lt(1)] by simp_all
  have "parsed (req con1) \<noteq> 0" using lt(4) le(2) assms(2) by (cases "parsed (req con1) = 0") (simp_all add: event_of_def Let_def)
  then show ?thesis using le(1) lt by (simp add: next_req_def)
qed



end
