(* ===== verification/IpAddr.thy ===== *)
theory IpAddr
  imports SerPrelude
begin

text \<open>
  IP addresses: \<^verbatim>\<open>src/sip_router/ip_addr.h\<close> and \<^verbatim>\<open>ip_addr.c\<close>, and the readers \<^verbatim>\<open>str2ip\<close> and \<^verbatim>\<open>str2ip6\<close> of \<^verbatim>\<open>resolve.h\<close>, on a little endian
  machine.  An address holds the \<^verbatim>\<open>len\<close> bytes of the union that are in use; a 32 bit part of it is a block of four bytes.  The printers return
  the text they write; an index outside an array of the reader has no result.
\<close>

type_synonym octet = "8 word"
type_synonym u16 = "16 word"

section \<open>Addresses and networks\<close>

datatype addr_family = AF_INET | AF_INET6 | AF_OTHER u32

record ip_addr =
  af :: addr_family
  len :: nat
  addr :: "octet list"

record net =
  net_ip :: ip_addr
  net_mask :: ip_addr

text \<open>The type invariant: the length fits the family.\<close>

definition addr_wf :: "ip_addr \<Rightarrow> bool" where
  "addr_wf a \<longleftrightarrow> length (addr a) = len a \<and> (af a = AF_INET \<and> len a = 4 \<or> af a = AF_INET6 \<and> len a = 16)"

definition ip_addr_any :: "ip_addr \<Rightarrow> bool" where
  "ip_addr_any ip = list_all (\<lambda>r. list_all (\<lambda>k. addr ip ! (4 * r + k) = 0) [0..<4]) [0..<len ip div 4]"

definition ip_addr_loopback :: "ip_addr \<Rightarrow> bool" where
  "ip_addr_loopback ip =
     (if af ip = AF_INET then take 4 (addr ip) = [127, 0, 0, 1]
      else if af ip = AF_INET6 then take 16 (addr ip) = replicate 15 0 @ [1]
      else False)"

definition ip_addr_mk_any :: "addr_family \<Rightarrow> ip_addr" where
  "ip_addr_mk_any f = (if f = AF_INET then \<lparr>af = f, len = 4, addr = replicate 4 0\<rparr> else \<lparr>af = f, len = 16, addr = replicate 16 0\<rparr>)"

definition matchnet :: "ip_addr \<Rightarrow> net \<Rightarrow> int" where
  "matchnet ip n =
     (if af ip = af (net_ip n) then
        (if list_all (\<lambda>r. map (\<lambda>k. addr ip ! (4 * r + k) AND addr (net_mask n) ! (4 * r + k)) [0..<4] =
               map (\<lambda>k. addr (net_ip n) ! (4 * r + k)) [0..<4]) [0..<len ip div 4] then 1 else 0)
      else -1)"

definition ip_addr_cmp :: "ip_addr \<Rightarrow> ip_addr \<Rightarrow> bool" where
  "ip_addr_cmp ip1 ip2 \<longleftrightarrow> af ip1 = af ip2 \<and> take (len ip1) (addr ip1) = take (len ip1) (addr ip2)"

text \<open>\<open>mem\<close> tells whether \<^verbatim>\<open>pkg_malloc\<close> succeeds; the network, with a warning if the address was changed.\<close>

definition mk_net :: "bool \<Rightarrow> ip_addr \<Rightarrow> ip_addr \<Rightarrow> (net \<times> bool) option" where
  "mk_net mem ip nm =
     (if af ip \<noteq> af nm \<or> len ip \<noteq> len nm then None
      else if \<not> mem then None
      else let a = map2 (AND) (take (4 * (len ip div 4)) (addr ip)) (addr nm) @ drop (4 * (len ip div 4)) (addr ip)
           in Some (\<lparr>net_ip = ip\<lparr>addr := a\<rparr>, net_mask = nm\<rparr>, a \<noteq> addr ip))"

definition mk_net_bitlen :: "bool \<Rightarrow> ip_addr \<Rightarrow> nat \<Rightarrow> (net \<times> bool) option" where
  "mk_net_bitlen mem ip bitlen =
     (if bitlen > len ip * 8 then None
      else let m = replicate (bitlen div 8) 0xff;
               m = (if bitlen mod 8 \<noteq> 0 then m @ [NOT (push_bit (8 - bitlen mod 8) 1 - 1)] else m);
               m = m @ replicate (len ip - length m) 0
           in mk_net mem ip \<lparr>af = af ip, len = len ip, addr = m\<rparr>)"

section \<open>Printing\<close>

definition IP6_MAX_STR_SIZE :: nat where "IP6_MAX_STR_SIZE = 39"
definition IP4_MAX_STR_SIZE :: nat where "IP4_MAX_STR_SIZE = 15"

definition HEXDIG :: "nat \<Rightarrow> char" where
  "HEXDIG x = (if x \<ge> 10 then chr_of (x - 10 + 65) else chr_of (x + 48))"

definition hex4_text :: "octet \<Rightarrow> octet \<Rightarrow> string" where
  "hex4_text hi lo =
     (let hex4 = unat hi * 256 + unat lo;
          a = hex4 div 4096; b = hex4 div 256 mod 16; c = hex4 div 16 mod 16; d = hex4 mod 16
      in if a \<noteq> 0 then [HEXDIG a, HEXDIG b, HEXDIG c, HEXDIG d]
         else if b \<noteq> 0 then [HEXDIG b, HEXDIG c, HEXDIG d]
         else if c \<noteq> 0 then [HEXDIG c, HEXDIG d]
         else [HEXDIG d])"

definition ip6tosbuf :: "octet list \<Rightarrow> nat \<Rightarrow> string" where
  "ip6tosbuf ip6 l =
     (if l < IP6_MAX_STR_SIZE then []
      else concat (map (\<lambda>r. hex4_text (ip6 ! (r * 2)) (ip6 ! (r * 2 + 1)) @ '':'') [0..<7]) @ hex4_text (ip6 ! 14) (ip6 ! 15))"

definition dec3_text :: "octet \<Rightarrow> string" where
  "dec3_text x =
     (let a = unat x div 100; c = unat x mod 10; b = unat x mod 100 div 10
      in if a \<noteq> 0 then [digit_chr a, digit_chr b, digit_chr c] else if b \<noteq> 0 then [digit_chr b, digit_chr c] else [digit_chr c])"

definition ip4tosbuf :: "octet list \<Rightarrow> nat \<Rightarrow> string" where
  "ip4tosbuf ip4 l =
     (if l < IP4_MAX_STR_SIZE then [] else concat (map (\<lambda>r. dec3_text (ip4 ! r) @ ''.'') [0..<3]) @ dec3_text (ip4 ! 3))"

definition ip_addr2sbuf :: "ip_addr \<Rightarrow> nat \<Rightarrow> string" where
  "ip_addr2sbuf ip l = (case af ip of AF_INET6 \<Rightarrow> ip6tosbuf (addr ip) l | AF_INET \<Rightarrow> ip4tosbuf (addr ip) l | AF_OTHER _ \<Rightarrow> [])"

definition ip_addr2a :: "ip_addr \<Rightarrow> string" where
  "ip_addr2a ip = ip_addr2sbuf ip IP6_MAX_STR_SIZE"

section \<open>Reading\<close>

fun str2ip_loop :: "string \<Rightarrow> nat \<Rightarrow> octet list \<Rightarrow> (nat \<times> octet list) option" where
  "str2ip_loop [] i a = Some (i, a)"
| "str2ip_loop (c # s) i a =
     (if c = CHR ''.'' then (if i + 1 > 3 then None else str2ip_loop s (i + 1) a)
      else if is_digit c then str2ip_loop s i (a[i := a ! i * 10 + of_nat (digit_val c)])
      else None)"

definition str2ip :: "string \<Rightarrow> ip_addr option" where
  "str2ip s =
     (case str2ip_loop s 0 (replicate 4 0) of
        None \<Rightarrow> None
      | Some (i, a) \<Rightarrow> if i < 3 then None else Some \<lparr>af = AF_INET, len = 4, addr = a\<rparr>)"

definition HEX2I :: "char \<Rightarrow> int" where
  "HEX2I c =
     (let n = int (ord_of c)
      in if 48 \<le> n \<and> n \<le> 57 then n - 48 else if 65 \<le> n \<and> n \<le> 70 then n - 65 + 10 else if 97 \<le> n \<and> n \<le> 102 then n - 97 + 10 else -1)"

text \<open>\<open>at_end\<close> is the test \<^verbatim>\<open>addr==addr_end\<close>.\<close>

record ip6_st =
  i6 :: nat
  idx1 :: nat
  no_colons :: nat
  double_colon :: bool
  at_end :: bool
  addr_start :: "u16 list"
  addr_end :: "u16 list"

definition cur6 :: "ip6_st \<Rightarrow> u16 list" where
  "cur6 st = (if at_end st then addr_end st else addr_start st)"

definition set6 :: "ip6_st \<Rightarrow> u16 \<Rightarrow> ip6_st" where
  "set6 st v = (if at_end st then st\<lparr>addr_end := (addr_end st)[i6 st := v]\<rparr> else st\<lparr>addr_start := (addr_start st)[i6 st := v]\<rparr>)"

definition htons :: "u16 \<Rightarrow> u16" where
  "htons v = of_nat (unat v mod 256 * 256 + unat v div 256)"

text \<open>\<open>None\<close> is an index outside the array, \<open>Some None\<close> a malformed address.\<close>

definition ip6_step :: "char \<Rightarrow> ip6_st \<Rightarrow> ip6_st option option" where
  "ip6_step c st =
     (if c = CHR '':'' then
        (let st = st\<lparr>no_colons := no_colons st + 1\<rparr>
         in if no_colons st > 7 then Some None
            else if double_colon st then
              (let st = st\<lparr>idx1 := i6 st, i6 := 0\<rparr>
               in if at_end st then Some None else Some (Some (st\<lparr>at_end := True\<rparr>)))
            else
              (let st = st\<lparr>double_colon := True\<rparr>
               in if i6 st < 8 then (let st = set6 st (htons (cur6 st ! i6 st)) in Some (Some (st\<lparr>i6 := i6 st + 1\<rparr>))) else None))
      else if HEX2I c \<ge> 0 then
        (if i6 st < 8 then Some (Some ((set6 st (cur6 st ! i6 st * 16 + of_int (HEX2I c)))\<lparr>double_colon := False\<rparr>)) else None)
      else Some None)"

fun ip6_loop :: "string \<Rightarrow> ip6_st \<Rightarrow> ip6_st option option" where
  "ip6_loop [] st = Some (Some st)"
| "ip6_loop (c # s) st = (case ip6_step c st of Some (Some st) \<Rightarrow> ip6_loop s st | x \<Rightarrow> x)"

definition ip6_init :: ip6_st where
  "ip6_init = \<lparr>i6 = 0, idx1 = 0, no_colons = 0, double_colon = False, at_end = False, addr_start = replicate 8 0, addr_end = replicate 8 0\<rparr>"

definition u16_bytes :: "u16 \<Rightarrow> octet list" where
  "u16_bytes v = [of_nat (unat v mod 256), of_nat (unat v div 256)]"

definition ip6_finish :: "ip6_st \<Rightarrow> u16 list option option" where
  "ip6_finish st =
     (let st' = (if \<not> double_colon st then
                   (if i6 st < 8 then Some ((set6 st (htons (cur6 st ! i6 st)))\<lparr>i6 := i6 st + 1\<rparr>) else None)
                 else Some st)
      in case st' of
           None \<Rightarrow> None
         | Some st \<Rightarrow>
             if at_end st then
               (let rest = 8 - int (i6 st) - int (idx1 st); p = int (idx1 st) + rest
                in if 0 \<le> p \<and> p + int (i6 st) \<le> 8 \<and> i6 st \<le> 8 then
                     Some (Some (take (nat p) (addr_start st) @ take (i6 st) (addr_end st) @ drop (nat p + i6 st) (addr_start st)))
                   else None)
             else if no_colons st < 7 then Some None
             else Some (Some (addr_start st)))"

definition str2ip6 :: "string \<Rightarrow> ip_addr option option" where
  "str2ip6 s =
     (if s \<noteq> [] \<and> hd s = CHR ''['' \<and> last s \<noteq> CHR '']'' then Some None
      else let t = (if s \<noteq> [] \<and> hd s = CHR ''['' then butlast (tl s) else s)
           in case ip6_loop t ip6_init of
                None \<Rightarrow> None
              | Some None \<Rightarrow> Some None
              | Some (Some st) \<Rightarrow>
                  map_option (map_option (\<lambda>a. \<lparr>af = AF_INET6, len = 16, addr = concat (map u16_bytes a)\<rparr>)) (ip6_finish st))"

section \<open>Decimal addresses\<close>

fun split_dots :: "string \<Rightarrow> string list" where
  "split_dots [] = [[]]"
| "split_dots (c # s) = (if c = CHR ''.'' then [] # split_dots s else (c # hd (split_dots s)) # tl (split_dots s))"

lemma split_dots_not_Nil [simp]: "split_dots s \<noteq> []"
  by (cases s) auto

lemma is_digit_dot [simp]: "\<not> is_digit CHR ''.''"
  by (simp add: is_digit_def)

definition dec_octet :: "string \<Rightarrow> octet" where
  "dec_octet p = of_nat (dec_value p)"

lemma str2ip_loop_spec:
  assumes "length pre = i" "i \<le> 3"
  shows "str2ip_loop s i (pre @ x # replicate (3 - i) 0) =
    (if list_all (\<lambda>p. all_digits p) (split_dots s) \<and> i + length (split_dots s) \<le> 4
     then Some (i + length (split_dots s) - 1, pre @ (x * 10 ^ length (hd (split_dots s)) + dec_octet (hd (split_dots s))) # map dec_octet (tl (split_dots s)) @
       replicate (4 - (i + length (split_dots s))) 0)
     else None)"
  using assms
proof (induction s arbitrary: i pre x)
  case Nil
  then show ?case by (simp add: dec_octet_def)
next
  case (Cons c s)
  obtain p ps where ps: "split_dots s = p # ps" by (cases "split_dots s") auto
  show ?case
  proof (cases "c = CHR ''.''")
    case True
    have "i < 3 \<Longrightarrow> pre @ x # replicate (3 - i) 0 = (pre @ [x]) @ 0 # replicate (3 - Suc i) 0" by (cases "3 - i") (simp_all add: Suc_diff_Suc)
    then show ?thesis using Cons.IH [of "pre @ [x]" "Suc i" 0] Cons.prems True ps by (auto simp: dec_octet_def)
  next
    case False
    then show ?thesis
      using Cons.IH [of pre i "x * 10 + of_nat (digit_val c)"] Cons.prems ps
      by (auto simp: dec_octet_def dec_value_Cons list_update_append algebra_simps)
  qed
qed

lemma str2ip_parts:
  "str2ip s =
     (if length (split_dots s) = 4 \<and> list_all all_digits (split_dots s)
      then Some \<lparr>af = AF_INET, len = 4, addr = map (\<lambda>p. of_nat (dec_value p)) (split_dots s)\<rparr> else None)"
proof -
  obtain p ps where ps: "split_dots s = p # ps" by (cases "split_dots s") auto
  have "replicate 4 0 = [] @ (0 :: octet) # replicate (3 - 0) 0" by (simp add: eval_nat_numeral)
  then have "str2ip_loop s 0 (replicate 4 0) = str2ip_loop s 0 ([] @ 0 # replicate (3 - 0) 0)" by simp
  also have "\<dots> = (if list_all all_digits (p # ps) \<and> Suc (length ps) \<le> 4
      then Some (length ps, dec_octet p # map dec_octet ps @ replicate (4 - Suc (length ps)) 0) else None)"
    using str2ip_loop_spec [of "[]" 0 s 0] by (simp add: ps)
  finally show ?thesis by (auto simp: str2ip_def ps dec_octet_def)
qed

text \<open>C25: \<^verbatim>\<open>str2ip\<close> accepts exactly the strings of four parts between dots made of digits, empty parts included, and takes each part modulo 256.\<close>

theorem str2ip_spec:
  "str2ip s =
     (if length (split_dots s) = 4 \<and> list_all all_digits (split_dots s)
      then Some \<lparr>af = AF_INET, len = 4, addr = map (\<lambda>p. of_nat (dec_value p)) (split_dots s)\<rparr> else None)"
  by (rule str2ip_parts)

section \<open>IPv6 addresses stay in their arrays\<close>

definition ip6_inv :: "ip6_st \<Rightarrow> bool" where
  "ip6_inv st \<longleftrightarrow> i6 st \<le> no_colons st \<and> no_colons st \<le> 7 \<and> length (addr_start st) = 8 \<and> length (addr_end st) = 8"

lemma set6_simps [simp]:
  "i6 (set6 st v) = i6 st" "no_colons (set6 st v) = no_colons st" "double_colon (set6 st v) = double_colon st" "at_end (set6 st v) = at_end st" "idx1 (set6 st v) = idx1 st"
  "length (addr_start (set6 st v)) = length (addr_start st)" "length (addr_end (set6 st v)) = length (addr_end st)"
  by (simp_all add: set6_def)

lemma ip6_step_inv: "ip6_inv st \<Longrightarrow> \<exists>x. ip6_step c st = Some x \<and> (\<forall>st'. x = Some st' \<longrightarrow> ip6_inv st')"
  by (auto simp: ip6_step_def ip6_inv_def Let_def)

lemma ip6_loop_inv: "ip6_inv st \<Longrightarrow> \<exists>x. ip6_loop s st = Some x \<and> (\<forall>st'. x = Some st' \<longrightarrow> ip6_inv st')"
proof (induction s arbitrary: st)
  case Nil
  then show ?case by simp
next
  case (Cons c s)
  obtain x where "ip6_step c st = Some x" "\<forall>st'. x = Some st' \<longrightarrow> ip6_inv st'" using ip6_step_inv [OF Cons.prems] by blast
  then show ?case using Cons.IH by (cases x) auto
qed

lemma ip6_init_inv: "ip6_inv ip6_init"
  by (simp add: ip6_inv_def ip6_init_def)

lemma ip6_finish_length: "ip6_inv st \<Longrightarrow> \<exists>x. ip6_finish st = Some x \<and> (\<forall>a. x = Some a \<longrightarrow> length a = 8)"
  by (auto simp: ip6_finish_def ip6_inv_def Let_def)

lemma length_bytes: "length (concat (map u16_bytes a)) = 2 * length a"
  by (induction a) (simp_all add: u16_bytes_def)

lemma str2ip6_wf: "\<exists>x. str2ip6 s = Some x \<and> (\<forall>a. x = Some a \<longrightarrow> addr_wf a \<and> af a = AF_INET6)"
proof -
  define t where "t = (if s \<noteq> [] \<and> hd s = CHR ''['' then butlast (tl s) else s)"
  obtain x where x: "ip6_loop t ip6_init = Some x" "\<forall>st'. x = Some st' \<longrightarrow> ip6_inv st'" using ip6_loop_inv [OF ip6_init_inv] by blast
  show ?thesis
  proof (cases x)
    case None
    then show ?thesis using x by (simp add: str2ip6_def t_def [symmetric])
  next
    case (Some st)
    then obtain y where "ip6_finish st = Some y" "\<forall>a. y = Some a \<longrightarrow> length a = 8" using x(2) ip6_finish_length by blast
    then show ?thesis using x Some by (cases y) (simp_all add: str2ip6_def t_def [symmetric] addr_wf_def length_bytes)
  qed
qed

lemma str2ip_wf: "str2ip s = Some a \<Longrightarrow> addr_wf a \<and> af a = AF_INET"
  by (auto simp: str2ip_parts addr_wf_def split: if_splits)


section \<open>Round trips\<close>

lemma split_dots_append: "CHR ''.'' \<notin> set p \<Longrightarrow> split_dots (p @ CHR ''.'' # s) = p # split_dots s"
  by (induction p) auto

lemma split_dots_one: "CHR ''.'' \<notin> set p \<Longrightarrow> split_dots p = [p]"
  by (induction p) auto

lemma digit_chr_dot: "d < 10 \<Longrightarrow> digit_chr d \<noteq> CHR ''.''"
  using digit_chr_is_digit [of d] by (metis is_digit_dot)

lemma octet_less: "unat (x :: octet) < 256"
  using unsigned_less [of x, where 'a = nat] by simp

lemma dec3_split:
  assumes "n < 1000"
  obtains a b c where "n = a * 100 + (b * 10 + c)" "a < 10" "b < 10" "c < 10" "n div 100 = a" "n mod 100 div 10 = b" "n mod 10 = (c :: nat)"
proof (rule that)
  have "n mod 100 mod 10 = n mod 10" by (rule mod_mod_cancel) simp
  then show "n = n div 100 * 100 + (n mod 100 div 10 * 10 + n mod 10)" using div_mult_mod_eq [of n 100] div_mult_mod_eq [of "n mod 100" 10] by linarith
qed (use assms in auto)

lemma dec3_text_facts: "all_digits (dec3_text x)" "CHR ''.'' \<notin> set (dec3_text x)" "dec_value (dec3_text x) = unat x" "length (dec3_text x) \<le> 3"
proof -
  obtain a b c where x: "unat x = a * 100 + (b * 10 + c)" "a < 10" "b < 10" "c < 10" "unat x div 100 = a" "unat x mod 100 div 10 = b" "unat x mod 10 = c"
    by (rule dec3_split [of "unat x"]) (use octet_less [of x] in simp)
  have t: "dec3_text x = (if a \<noteq> 0 then [digit_chr a, digit_chr b, digit_chr c] else if b \<noteq> 0 then [digit_chr b, digit_chr c] else [digit_chr c])"
    unfolding dec3_text_def Let_def x(5-7) ..
  show "all_digits (dec3_text x)" unfolding t using x(2-4) by simp
  show "CHR ''.'' \<notin> set (dec3_text x)" unfolding t using digit_chr_dot [OF x(2)] digit_chr_dot [OF x(3)] digit_chr_dot [OF x(4)] by auto
  show "dec_value (dec3_text x) = unat x" unfolding t x(1) using x(2-4) by (simp add: dec_value_Cons)
  show "length (dec3_text x) \<le> 3" unfolding t by simp
qed

lemma ip4_roundtrip: "length a = 4 \<Longrightarrow> 15 \<le> l \<Longrightarrow> str2ip (ip4tosbuf a l) = Some \<lparr>af = AF_INET, len = 4, addr = a\<rparr> \<and> length (ip4tosbuf a l) \<le> 15"
proof -
  assume "length a = 4" "15 \<le> l"
  then obtain w x y z where a: "a = [w, x, y, z]" by (auto simp: length_Suc_conv eval_nat_numeral)
  have t: "ip4tosbuf a l = dec3_text w @ CHR ''.'' # dec3_text x @ CHR ''.'' # dec3_text y @ CHR ''.'' # dec3_text z"
    using \<open>15 \<le> l\<close> by (simp add: ip4tosbuf_def IP4_MAX_STR_SIZE_def a upt_rec)
  have "split_dots (ip4tosbuf a l) = map dec3_text a"
    unfolding t by (simp add: a split_dots_append split_dots_one dec3_text_facts(2))
  moreover have "length (ip4tosbuf a l) \<le> 15" unfolding t using dec3_text_facts(4) [of w] dec3_text_facts(4) [of x] dec3_text_facts(4) [of y] dec3_text_facts(4) [of z] by simp
  ultimately show ?thesis by (simp add: str2ip_parts a dec3_text_facts(1,3))
qed

lemma HEX2I_HEXDIG: "d < 16 \<Longrightarrow> HEX2I (HEXDIG d) = int d"
  by (auto simp: HEX2I_def HEXDIG_def Let_def)

lemma HEXDIG_colon: "d < 16 \<Longrightarrow> HEXDIG d \<noteq> CHR '':''"
  using HEX2I_HEXDIG [of d] by (auto simp: HEX2I_def)

definition group_val :: "octet \<Rightarrow> octet \<Rightarrow> u16" where
  "group_val hi lo = of_nat (unat hi * 256 + unat lo)"

definition hex_fold :: "u16 \<Rightarrow> string \<Rightarrow> u16" where
  "hex_fold v h = foldl (\<lambda>v c. v * 16 + of_int (HEX2I c)) v h"

lemma hex4_split:
  assumes "n < 65536"
  obtains a b c d where "n = a * 4096 + (b * 256 + (c * 16 + d))" "a < 16" "b < 16" "c < 16" "d < 16" "n div 4096 = a" "n div 256 mod 16 = b" "n div 16 mod 16 = c" "n mod 16 = (d :: nat)"
proof (rule that)
  have "n div 16 div 16 = n div 256" "n div 256 div 16 = n div 4096" by (simp_all add: div_mult2_eq [symmetric])
  then show "n = n div 4096 * 4096 + (n div 256 mod 16 * 256 + (n div 16 mod 16 * 16 + n mod 16))"
    using div_mult_mod_eq [of n 16] div_mult_mod_eq [of "n div 16" 16] div_mult_mod_eq [of "n div 256" 16] by linarith
qed (use assms in auto)

lemma hex4_text_facts:
  "hex4_text hi lo \<noteq> []" "list_all (\<lambda>c. HEX2I c \<ge> 0 \<and> c \<noteq> CHR '':'' \<and> c \<noteq> CHR ''['') (hex4_text hi lo)" "hex_fold 0 (hex4_text hi lo) = group_val hi lo" "length (hex4_text hi lo) \<le> 4"
proof -
  let ?n = "unat hi * 256 + unat lo"
  obtain a b c d where n: "?n = a * 4096 + (b * 256 + (c * 16 + d))" "a < 16" "b < 16" "c < 16" "d < 16" "?n div 4096 = a" "?n div 256 mod 16 = b" "?n div 16 mod 16 = c" "?n mod 16 = d"
    by (rule hex4_split [of ?n]) (use octet_less [of hi] octet_less [of lo] in simp)
  have t: "hex4_text hi lo = (if a \<noteq> 0 then [HEXDIG a, HEXDIG b, HEXDIG c, HEXDIG d] else if b \<noteq> 0 then [HEXDIG b, HEXDIG c, HEXDIG d]
      else if c \<noteq> 0 then [HEXDIG c, HEXDIG d] else [HEXDIG d])"
    unfolding hex4_text_def Let_def n(6-9) ..
  have ch: "x < 16 \<Longrightarrow> HEX2I (HEXDIG x) \<ge> 0 \<and> HEXDIG x \<noteq> CHR '':'' \<and> HEXDIG x \<noteq> CHR ''[''" for x
    using HEX2I_HEXDIG [of x] HEXDIG_colon [of x] by (auto simp: HEX2I_def)
  show "hex4_text hi lo \<noteq> []" "length (hex4_text hi lo) \<le> 4" unfolding t by simp_all
  show "list_all (\<lambda>c. HEX2I c \<ge> 0 \<and> c \<noteq> CHR '':'' \<and> c \<noteq> CHR ''['') (hex4_text hi lo)" unfolding t using ch n(2-5) by simp
  show "hex_fold 0 (hex4_text hi lo) = group_val hi lo"
    unfolding t group_val_def n(1) hex_fold_def using n(2-5) by (simp add: HEX2I_HEXDIG algebra_simps)
qed

lemma ip6_loop_hex:
  "list_all (\<lambda>c. HEX2I c \<ge> 0 \<and> c \<noteq> CHR '':'' \<and> c \<noteq> CHR ''['') h \<Longrightarrow> h \<noteq> [] \<Longrightarrow> \<not> at_end st \<Longrightarrow> i6 st < 8 \<Longrightarrow> length (addr_start st) = 8 \<Longrightarrow>
   ip6_loop (h @ s) st = ip6_loop s (st\<lparr>addr_start := (addr_start st)[i6 st := hex_fold (addr_start st ! i6 st) h], double_colon := False\<rparr>)"
proof (induction h arbitrary: st)
  case Nil
  then show ?case by simp
next
  case (Cons c h)
  let ?st = "st\<lparr>addr_start := (addr_start st)[i6 st := addr_start st ! i6 st * 16 + of_int (HEX2I c)], double_colon := False\<rparr>"
  have st: "ip6_step c st = Some (Some ?st)" using Cons.prems by (simp add: ip6_step_def set6_def cur6_def)
  show ?case
  proof (cases "h = []")
    case True
    then show ?thesis using st by (simp add: hex_fold_def)
  next
    case False
    then show ?thesis using Cons.IH [of ?st] Cons.prems st by (simp add: hex_fold_def)
  qed
qed

definition ip6_at :: "u16 list \<Rightarrow> ip6_st" where
  "ip6_at gs = \<lparr>i6 = length gs, idx1 = 0, no_colons = length gs, double_colon = (gs \<noteq> []), at_end = False,
     addr_start = map htons gs @ replicate (8 - length gs) 0, addr_end = replicate 8 0\<rparr>"

lemma ip6_loop_group:
  assumes "length gs < 7"
  shows "ip6_loop (hex4_text hi lo @ CHR '':'' # s) (ip6_at gs) = ip6_loop s (ip6_at (gs @ [group_val hi lo]))"
proof -
  have r: "replicate (8 - length gs) 0 = (0 :: u16) # replicate (7 - length gs) 0" using assms by (simp add: Suc_diff_le flip: replicate_Suc)
  show ?thesis
    using assms ip6_loop_hex [OF hex4_text_facts(2) [of hi lo] hex4_text_facts(1) [of hi lo], of "ip6_at gs" "CHR '':'' # s"]
    by (simp add: ip6_at_def r nth_append list_update_append hex4_text_facts(3) ip6_step_def set6_def cur6_def Let_def)
qed

lemma ip6_last_group:
  assumes "length gs = 7"
  shows "\<exists>st. ip6_loop (hex4_text hi lo) (ip6_at gs) = Some (Some st) \<and> ip6_finish st = Some (Some (map htons (gs @ [group_val hi lo])))"
  using assms ip6_loop_hex [OF hex4_text_facts(2) [of hi lo] hex4_text_facts(1) [of hi lo], of "ip6_at gs" "[]"]
  by (simp add: ip6_at_def nth_append list_update_append hex4_text_facts(3) ip6_finish_def set6_def cur6_def)

lemma htons_bytes: "u16_bytes (htons (group_val hi lo)) = [hi, lo]"
proof -
  have u: "n < 65536 \<Longrightarrow> unat (of_nat n :: u16) = n" for n by (simp add: unat_of_nat)
  note b = octet_less [of hi] octet_less [of lo]
  have g: "unat (group_val hi lo) = unat hi * 256 + unat lo" unfolding group_val_def using b by (intro u) linarith
  have "unat (group_val hi lo) mod 256 * 256 + unat (group_val hi lo) div 256 = unat lo * 256 + unat hi" unfolding g using b by simp
  then have "unat (htons (group_val hi lo)) = unat lo * 256 + unat hi" unfolding htons_def using b by (simp only: u)
  then show ?thesis using b by (simp add: u16_bytes_def)
qed

lemma ip6_loop_groups:
  "length gs + length ps \<le> 7 \<Longrightarrow>
   ip6_loop (concat (map (\<lambda>(hi, lo). hex4_text hi lo @ '':'') ps) @ s) (ip6_at gs) = ip6_loop s (ip6_at (gs @ map (\<lambda>(hi, lo). group_val hi lo) ps))"
  by (induction ps arbitrary: gs) (auto simp: ip6_loop_group)

lemma pairs_take: "2 * n \<le> length a \<Longrightarrow> concat (map (\<lambda>r. [a ! (r * 2), a ! (r * 2 + 1)]) [0..<n]) = take (2 * n) a"
  by (induction n) (auto simp: take_Suc_conv_app_nth mult.commute)

lemma ip6_text:
  assumes "length a = 16" "39 \<le> l"
  shows "\<exists>st x. ip6_loop (ip6tosbuf a l) ip6_init = Some (Some st) \<and> ip6_finish st = Some (Some x) \<and> concat (map u16_bytes x) = a"
proof -
  let ?ps = "map (\<lambda>r. (a ! (r * 2), a ! (r * 2 + 1))) [0..<7]"
  let ?gs = "map (\<lambda>(hi, lo). group_val hi lo) ?ps"
  have t: "ip6tosbuf a l = concat (map (\<lambda>(hi, lo). hex4_text hi lo @ '':'') ?ps) @ hex4_text (a ! 14) (a ! 15)"
    using assms(2) by (simp add: ip6tosbuf_def IP6_MAX_STR_SIZE_def comp_def)
  have i: "ip6_init = ip6_at []" by (simp add: ip6_init_def ip6_at_def)
  have "ip6_loop (ip6tosbuf a l) ip6_init = ip6_loop (hex4_text (a ! 14) (a ! 15)) (ip6_at ?gs)"
    unfolding t i by (subst ip6_loop_groups) simp_all
  moreover obtain st where "ip6_loop (hex4_text (a ! 14) (a ! 15)) (ip6_at ?gs) = Some (Some st)"
      "ip6_finish st = Some (Some (map htons (?gs @ [group_val (a ! 14) (a ! 15)])))"
    using ip6_last_group [of ?gs "a ! 14" "a ! 15"] by auto
  moreover have "concat (map u16_bytes (map htons (?gs @ [group_val (a ! 14) (a ! 15)]))) = a"
  proof -
    have "concat (map u16_bytes (map htons (?gs @ [group_val (a ! 14) (a ! 15)]))) = concat (map (\<lambda>r. [a ! (r * 2), a ! (r * 2 + 1)]) [0..<8])"
      by (simp add: comp_def htons_bytes upt_rec)
    then show ?thesis using pairs_take [of 8 a] assms(1) by simp
  qed
  ultimately show ?thesis by auto
qed

lemma length_concat_le: "(\<And>x. length (f x) \<le> k) \<Longrightarrow> length (concat (map f xs)) \<le> length xs * k"
  by (induction xs) (simp_all add: add_mono)

lemma ip6_text_length: "length (ip6tosbuf a l) \<le> 39"
proof -
  have "length (concat (map (\<lambda>r. hex4_text (a ! (r * 2)) (a ! (r * 2 + 1)) @ '':'') [0..<7])) \<le> length [0..<7] * 5"
    by (rule length_concat_le) (use hex4_text_facts(4) in \<open>simp add: le_diff_conv\<close>)
  then show ?thesis using hex4_text_facts(4) [of "a ! 14" "a ! 15"] by (simp add: ip6tosbuf_def del: upt_rec_numeral)
qed

lemma hd_hex4: "hd (hex4_text hi lo) \<noteq> CHR ''[''"
  using hex4_text_facts(1,2) [of hi lo] hd_in_set [of "hex4_text hi lo"] by (auto simp: list_all_iff)

lemma ip6_text_chars: "39 \<le> l \<Longrightarrow> ip6tosbuf a l \<noteq> [] \<and> hd (ip6tosbuf a l) \<noteq> CHR ''[''"
  using hex4_text_facts(1) hd_hex4 by (simp add: ip6tosbuf_def IP6_MAX_STR_SIZE_def upt_rec)

text \<open>C23: the text \<^verbatim>\<open>ip_addr2a\<close> gives for an address is read back as that address by \<^verbatim>\<open>str2ip\<close> or \<^verbatim>\<open>str2ip6\<close>, in the case of IPv6 also
  between brackets, and is no longer than the sizes \<^verbatim>\<open>IP4_MAX_STR_SIZE\<close> and \<^verbatim>\<open>IP6_MAX_STR_SIZE\<close> that the callers allocate.
\<close>

theorem ip_addr_roundtrip:
  assumes "addr_wf a"
  shows "(af a = AF_INET \<longrightarrow> str2ip (ip_addr2a a) = Some a \<and> length (ip_addr2a a) \<le> IP4_MAX_STR_SIZE) \<and>
    (af a = AF_INET6 \<longrightarrow> str2ip6 (ip_addr2a a) = Some (Some a) \<and> str2ip6 (''['' @ ip_addr2a a @ '']'') = Some (Some a) \<and> length (ip_addr2a a) \<le> IP6_MAX_STR_SIZE)"
proof -
  have v4: "af a = AF_INET \<Longrightarrow> str2ip (ip_addr2a a) = Some a \<and> length (ip_addr2a a) \<le> 15"
    using ip4_roundtrip [of "addr a" 39] assms by (auto simp: addr_wf_def ip_addr2a_def ip_addr2sbuf_def IP6_MAX_STR_SIZE_def)
  have v6: "str2ip6 t = Some (Some a) \<and> str2ip6 (''['' @ t @ '']'') = Some (Some a) \<and> length t \<le> 39" if "af a = AF_INET6" "t = ip_addr2a a" for t
  proof -
    have w: "length (addr a) = 16" "len a = 16" using assms that(1) by (auto simp: addr_wf_def)
    have t: "t = ip6tosbuf (addr a) 39" using that by (simp add: ip_addr2a_def ip_addr2sbuf_def IP6_MAX_STR_SIZE_def)
    obtain st x where st: "ip6_loop t ip6_init = Some (Some st)" "ip6_finish st = Some (Some x)" "concat (map u16_bytes x) = addr a"
      using ip6_text [OF w(1), of 39] t by auto
    have "\<lparr>af = AF_INET6, len = 16, addr = addr a\<rparr> = a" using w that(1) by (cases a) simp
    then show ?thesis using st ip6_text_chars [of 39 "addr a"] ip6_text_length [of "addr a" 39] t by (simp add: str2ip6_def)
  qed
  show ?thesis using v4 v6 by (simp add: IP4_MAX_STR_SIZE_def IP6_MAX_STR_SIZE_def)
qed

theorem ip_addr_roundtrip_witness:
  "str2ip6 (''['' @ ip_addr2a \<lparr>af = AF_INET6, len = 16, addr = [0x20, 1, 0xd, 0xb8] @ replicate 11 0 @ [0x1f]\<rparr> @ '']'') =
     Some (Some \<lparr>af = AF_INET6, len = 16, addr = [0x20, 1, 0xd, 0xb8] @ replicate 11 0 @ [0x1f]\<rparr>) \<and>
   str2ip (ip_addr2a \<lparr>af = AF_INET, len = 4, addr = [192, 168, 0, 1]\<rparr>) = Some \<lparr>af = AF_INET, len = 4, addr = [192, 168, 0, 1]\<rparr>"
  using ip_addr_roundtrip [of "\<lparr>af = AF_INET6, len = 16, addr = [0x20, 1, 0xd, 0xb8] @ replicate 11 0 @ [0x1f]\<rparr>"]
    ip_addr_roundtrip [of "\<lparr>af = AF_INET, len = 4, addr = [192, 168, 0, 1]\<rparr>"] by (simp add: addr_wf_def)


section \<open>Networks\<close>

text \<open>The first bits of an address, the most significant bit of each byte first.\<close>

definition addr_bit :: "octet list \<Rightarrow> nat \<Rightarrow> bool" where
  "addr_bit a i = bit (a ! (i div 8)) (7 - i mod 8)"

definition bits_of :: "octet list \<Rightarrow> nat \<Rightarrow> bool list" where
  "bits_of a n = map (addr_bit a) [0..<n]"

lemma bits_of_eq: "bits_of a n = bits_of b n \<longleftrightarrow> (\<forall>i<n. addr_bit a i = addr_bit b i)"
  by (auto simp: bits_of_def)

definition net_bytes :: "nat \<Rightarrow> nat \<Rightarrow> octet list" where
  "net_bytes l n =
     (let m = replicate (n div 8) 0xff; m = (if n mod 8 \<noteq> 0 then m @ [NOT (push_bit (8 - n mod 8) 1 - 1)] else m) in m @ replicate (l - length m) 0)"

lemma net_bytes_length: "n \<le> 8 * l \<Longrightarrow> length (net_bytes l n) = l"
proof -
  assume n: "n \<le> 8 * l"
  have "n div 8 \<le> l" using n by linarith
  moreover have "n mod 8 \<noteq> 0 \<Longrightarrow> n div 8 < l" using n div_mult_mod_eq [of n 8] by linarith
  ultimately show ?thesis by (auto simp: net_bytes_def Let_def)
qed

lemma net_byte_partial: "0 < k \<Longrightarrow> k < 8 \<Longrightarrow> j < 8 \<Longrightarrow> bit (NOT (push_bit (8 - k) 1 - 1) :: octet) (7 - j) \<longleftrightarrow> j < k"
proof -
  assume k: "0 < k" "k < 8" "j < 8"
  have "(push_bit (8 - k) 1 - 1 :: octet) = mask (8 - k)" by (simp add: mask_eq_exp_minus_1 push_bit_eq_mult)
  then show ?thesis using k by (auto simp: bit_simps)
qed

lemma net_bytes_bit:
  assumes "n \<le> 8 * l" "i < 8 * l"
  shows "addr_bit (net_bytes l n) i \<longleftrightarrow> i < n"
proof -
  have l: "i div 8 < l" using assms(2) by auto
  have n: "n = 8 * (n div 8) + n mod 8" and i: "i = 8 * (i div 8) + i mod 8" by simp_all
  consider "i div 8 < n div 8" | "i div 8 = n div 8" "n mod 8 \<noteq> 0" | "i div 8 = n div 8" "n mod 8 = 0" | "n div 8 < i div 8" by linarith
  then show ?thesis
  proof cases
    case 1
    then have "net_bytes l n ! (i div 8) = 0xff" by (simp add: net_bytes_def Let_def nth_append)
    moreover have "bit (0xff :: octet) (7 - i mod 8)"
    proof -
      have "(0xff :: octet) = - 1" by simp
      then show ?thesis by (simp only: bit_minus_1_iff) simp
    qed
    moreover have "i < n" using 1 n i mod_less_divisor [of 8 i] by linarith
    ultimately show ?thesis by (simp add: addr_bit_def)
  next
    case 2
    then have "net_bytes l n ! (i div 8) = NOT (push_bit (8 - n mod 8) 1 - 1)" by (simp add: net_bytes_def Let_def nth_append)
    moreover have "i < n \<longleftrightarrow> i mod 8 < n mod 8" using 2(1) n i by (intro iffI) linarith+
    ultimately show ?thesis using net_byte_partial [of "n mod 8" "i mod 8"] 2(2) by (simp add: addr_bit_def)
  next
    case 3
    then have "net_bytes l n ! (i div 8) = 0" using l by (simp add: net_bytes_def Let_def nth_append)
    then show ?thesis using 3 n i by (simp add: addr_bit_def)
  next
    case 4
    then have "net_bytes l n ! (i div 8) = 0" using l by (simp add: net_bytes_def Let_def nth_append)
    moreover have "\<not> i < n" using 4 n i mod_less_divisor [of 8 n] by linarith
    ultimately show ?thesis by (simp add: addr_bit_def)
  qed
qed

text \<open>Bytes are equal when their bits are.\<close>

lemma octet_eqI: "(\<And>k. k < 8 \<Longrightarrow> bit x (7 - k) = bit y (7 - k)) \<Longrightarrow> x = (y :: octet)"
proof (rule bit_word_eqI)
  fix n assume a: "\<And>k. k < 8 \<Longrightarrow> bit x (7 - k) = bit y (7 - k)" and "n < LENGTH(8)"
  then show "bit x n = bit y n" using a [of "7 - n"] by simp
qed

lemma addr_bit_at: "k < 8 \<Longrightarrow> addr_bit a (8 * j + k) = bit (a ! j) (7 - k)"
  by (simp add: addr_bit_def)

lemma bytes_masked:
  assumes "n \<le> 8 * l" "length a = l" "length b = l"
  shows "map2 (AND) a (net_bytes l n) = map2 (AND) b (net_bytes l n) \<longleftrightarrow> bits_of a n = bits_of b n"
proof -
  have len: "length (net_bytes l n) = l" by (rule net_bytes_length [OF assms(1)])
  have "map2 (AND) a (net_bytes l n) = map2 (AND) b (net_bytes l n) \<longleftrightarrow> (\<forall>j<l. a ! j AND net_bytes l n ! j = b ! j AND net_bytes l n ! j)"
    using assms len by (auto simp: list_eq_iff_nth_eq)
  also have "\<dots> \<longleftrightarrow> (\<forall>j<l. \<forall>k<8. 8 * j + k < n \<longrightarrow> addr_bit a (8 * j + k) = addr_bit b (8 * j + k))"
  proof (intro all_cong1 imp_cong refl)
    fix j assume j: "j < l"
    have m: "k < 8 \<Longrightarrow> bit (net_bytes l n ! j) (7 - k) \<longleftrightarrow> 8 * j + k < n" for k
      using net_bytes_bit [OF assms(1), of "8 * j + k"] j addr_bit_at [of k "net_bytes l n" j] by simp
    show "(a ! j AND net_bytes l n ! j = b ! j AND net_bytes l n ! j) = (\<forall>k<8. 8 * j + k < n \<longrightarrow> addr_bit a (8 * j + k) = addr_bit b (8 * j + k))"
    proof
      assume e: "a ! j AND net_bytes l n ! j = b ! j AND net_bytes l n ! j"
      show "\<forall>k<8. 8 * j + k < n \<longrightarrow> addr_bit a (8 * j + k) = addr_bit b (8 * j + k)"
        using arg_cong [OF e, of bit] m by (auto simp: addr_bit_at bit_and_iff fun_eq_iff)
    next
      assume "\<forall>k<8. 8 * j + k < n \<longrightarrow> addr_bit a (8 * j + k) = addr_bit b (8 * j + k)"
      then show "a ! j AND net_bytes l n ! j = b ! j AND net_bytes l n ! j" using m by (intro octet_eqI) (auto simp: addr_bit_at bit_and_iff)
    qed
  qed
  also have "\<dots> \<longleftrightarrow> (\<forall>i<n. addr_bit a i = addr_bit b i)"
  proof
    assume *: "\<forall>j<l. \<forall>k<8. 8 * j + k < n \<longrightarrow> addr_bit a (8 * j + k) = addr_bit b (8 * j + k)"
    show "\<forall>i<n. addr_bit a i = addr_bit b i"
    proof (intro allI impI)
      fix i assume i: "i < n"
      then have "i div 8 < l" using assms(1) by auto
      then show "addr_bit a i = addr_bit b i" using *[rule_format, of "i div 8" "i mod 8"] i by simp
    qed
  qed auto
  finally show ?thesis by (simp add: bits_of_eq)
qed

lemma blocks4: "(\<forall>r<n. \<forall>k<4. P (4 * r + k)) \<longleftrightarrow> (\<forall>j<4 * n. P (j :: nat))"
proof (intro iffI allI impI)
  fix j assume a: "\<forall>r<n. \<forall>k<4. P (4 * r + k)" and "j < 4 * n"
  then show "P j" using a [rule_format, of "j div 4" "j mod 4"] by simp
qed auto

lemma matchnet_bits:
  assumes "addr_wf ip" "addr_wf a" "n \<le> 8 * len a"
  shows "\<exists>nt w. mk_net_bitlen True a n = Some (nt, w) \<and>
    matchnet ip nt = (if af ip \<noteq> af a then -1 else if bits_of (addr ip) n = bits_of (addr a) n then 1 else 0)"
proof -
  define m where "m = net_bytes (len a) n"
  define b where "b = map2 (AND) (addr a) m"
  have lm: "length m = len a" "length (addr a) = len a" "4 * (len a div 4) = len a" using net_bytes_length [OF assms(3)] assms(2) by (auto simp: m_def addr_wf_def)
  have mk: "\<exists>w. mk_net_bitlen True a n = Some (\<lparr>net_ip = a\<lparr>addr := b\<rparr>, net_mask = \<lparr>af = af a, len = len a, addr = m\<rparr>\<rparr>, w)"
    using assms(3) lm by (simp add: mk_net_bitlen_def mk_net_def m_def net_bytes_def b_def Let_def mult.commute)
  have "matchnet ip \<lparr>net_ip = a\<lparr>addr := b\<rparr>, net_mask = \<lparr>af = af a, len = len a, addr = m\<rparr>\<rparr> =
      (if af ip \<noteq> af a then -1 else if bits_of (addr ip) n = bits_of (addr a) n then 1 else 0)"
  proof (cases "af ip = af a")
    case True
    then have l: "len ip = len a" "length (addr ip) = len a" using assms(1,2) by (auto simp: addr_wf_def)
    have "list_all (\<lambda>r. map (\<lambda>k. addr ip ! (4 * r + k) AND m ! (4 * r + k)) [0..<4] = map (\<lambda>k. b ! (4 * r + k)) [0..<4]) [0..<len a div 4] \<longleftrightarrow>
        (\<forall>r<len a div 4. \<forall>k<4. addr ip ! (4 * r + k) AND m ! (4 * r + k) = b ! (4 * r + k))"
      by (auto simp: list_all_iff)
    also have "\<dots> \<longleftrightarrow> (\<forall>j<len a. addr ip ! j AND m ! j = b ! j)"
      using blocks4 [of "len a div 4" "\<lambda>j. addr ip ! j AND m ! j = b ! j"] lm(3) by simp
    also have "\<dots> \<longleftrightarrow> map2 (AND) (addr ip) m = map2 (AND) (addr a) m"
      using l lm by (auto simp: list_eq_iff_nth_eq b_def)
    also have "\<dots> \<longleftrightarrow> bits_of (addr ip) n = bits_of (addr a) n"
      unfolding m_def by (rule bytes_masked [OF assms(3) l(2) lm(2)])
    finally show ?thesis using True l(1) by (simp add: matchnet_def)
  qed (simp add: matchnet_def)
  then show ?thesis using mk by blast
qed

end
