(* ===== verification/IpTree.thy ===== *)
theory IpTree
  imports IpAddr "HOL-Library.Sublist"
begin

text \<open>
  The tree of address prefixes of the module \<^verbatim>\<open>permissions\<close>, \<^verbatim>\<open>src/sip_router/modules/permissions/ip_tree.c\<close>.  A node holds the bits that
  all addresses below it share, packed in bytes as in an address; the next bit chooses the child.  Positions in the packed bits are a byte and a
  mask, as in the code; a pointer to a node is the path to it from the root.  The abstract view of a tree is the set of its prefixes.
\<close>

section \<open>The tree\<close>

datatype ip_tree = Null | Leaf (prefix_match_len: nat) (prefix_match: "octet list") (next0: ip_tree) (next1: ip_tree)

record ip_tree_find =
  leaf :: "bool list option"
  leaf_prefix_match_len :: nat
  leaf_prefix_match :: nat
  leaf_prefix_match_mask :: octet
  ip :: nat
  ip_len :: nat
  ip_mask :: octet

definition IP_TREE_FIND_NOT_FOUND :: int where "IP_TREE_FIND_NOT_FOUND = 0"
definition IP_TREE_FIND_FOUND :: int where "IP_TREE_FIND_FOUND = 1"
definition IP_TREE_FIND_FOUND_UPPER_SET :: int where "IP_TREE_FIND_FOUND_UPPER_SET = 2"

definition next_pos :: "nat \<times> octet \<Rightarrow> nat \<times> octet" where
  "next_pos c = (if snd c = 1 then (fst c + 1, 0x80) else (fst c, snd c div 2))"

definition bit_set :: "octet list \<Rightarrow> nat \<times> octet \<Rightarrow> bool" where
  "bit_set a c \<longleftrightarrow> a ! fst c AND snd c \<noteq> 0"

abbreviation ip_pos :: "ip_tree_find \<Rightarrow> nat \<times> octet" where "ip_pos h \<equiv> (ip h, ip_mask h)"
abbreviation leaf_pos :: "ip_tree_find \<Rightarrow> nat \<times> octet" where "leaf_pos h \<equiv> (leaf_prefix_match h, leaf_prefix_match_mask h)"

definition ip_next :: "ip_tree_find \<Rightarrow> ip_tree_find" where
  "ip_next h = h\<lparr>ip := fst (next_pos (ip_pos h)), ip_mask := snd (next_pos (ip_pos h))\<rparr>"

definition leaf_next :: "ip_tree_find \<Rightarrow> ip_tree_find" where
  "leaf_next h = h\<lparr>leaf_prefix_match := fst (next_pos (leaf_pos h)), leaf_prefix_match_mask := snd (next_pos (leaf_pos h))\<rparr>"

text \<open>The inner loop over the bits of a node; \<open>None\<close> is its end.\<close>

function match_loop :: "octet list \<Rightarrow> nat \<Rightarrow> octet list \<Rightarrow> ip_tree_find \<Rightarrow> int option \<times> ip_tree_find" where
  "match_loop a n pm h =
     (if leaf_prefix_match_len h < n then
        (if bit_set a (ip_pos h) \<noteq> bit_set pm (leaf_pos h) then (Some IP_TREE_FIND_NOT_FOUND, h)
         else let h = h\<lparr>leaf_prefix_match_len := leaf_prefix_match_len h + 1, ip_len := ip_len h - 1\<rparr>
              in if ip_len h = 0 then (Some IP_TREE_FIND_FOUND_UPPER_SET, h) else match_loop a n pm (leaf_next (ip_next h)))
      else (None, h))"
  by pat_completeness auto
termination
  by (relation "measure (\<lambda>(a, n, pm, h). n - leaf_prefix_match_len h)") (auto simp: leaf_next_def ip_next_def)

declare match_loop.simps [simp del]

fun find_walk :: "octet list \<Rightarrow> ip_tree \<Rightarrow> bool list \<Rightarrow> ip_tree_find \<Rightarrow> int \<times> ip_tree_find" where
  "find_walk a Null path h = (IP_TREE_FIND_FOUND, h\<lparr>leaf := None\<rparr>)"
| "find_walk a (Leaf n pm l r) path h =
     (let h = h\<lparr>leaf := Some path, leaf_prefix_match_mask := 0x80, leaf_prefix_match := 0, leaf_prefix_match_len := 0\<rparr>
      in if ip_len h = 0 then (IP_TREE_FIND_FOUND_UPPER_SET, h)
         else case match_loop a n pm h of
                (Some ret, h) \<Rightarrow> (ret, h)
              | (None, h) \<Rightarrow>
                  (let b = bit_set a (ip_pos h); h = (ip_next h)\<lparr>ip_len := ip_len h - 1\<rparr>
                   in if b then find_walk a r (path @ [b]) h else find_walk a l (path @ [b]) h))"

definition ip_tree_find_ip :: "ip_tree \<Rightarrow> octet list \<Rightarrow> nat \<Rightarrow> int \<times> ip_tree_find" where
  "ip_tree_find_ip tree a n =
     (let h = \<lparr>leaf = None, leaf_prefix_match_len = 0, leaf_prefix_match = 0, leaf_prefix_match_mask = 0, ip = 0, ip_len = n, ip_mask = 0x80\<rparr>
      in if tree = Null then (IP_TREE_FIND_NOT_FOUND, h) else find_walk a tree [] h)"

fun subtree :: "ip_tree \<Rightarrow> bool list \<Rightarrow> ip_tree" where
  "subtree t [] = t"
| "subtree Null (b # q) = Null"
| "subtree (Leaf n pm l r) (b # q) = subtree (if b then r else l) q"

fun put :: "ip_tree \<Rightarrow> bool list \<Rightarrow> ip_tree \<Rightarrow> ip_tree" where
  "put t [] s = s"
| "put Null (b # q) s = Null"
| "put (Leaf n pm l r) (b # q) s = (if b then Leaf n pm l (put r q s) else Leaf n pm (put l q s) r)"

definition leaf_bytes :: "nat \<Rightarrow> nat" where
  "leaf_bytes k = (if k = 0 then 0 else (k - 1) div 8 + 1)"

text \<open>The loops that copy \<open>k\<close> bits, starting after the current position; \<open>g\<close> is what fresh memory holds.\<close>

fun copy_bits :: "nat \<Rightarrow> octet list \<Rightarrow> nat \<times> octet \<Rightarrow> octet list \<Rightarrow> nat \<times> octet \<Rightarrow> octet list" where
  "copy_bits 0 src sc dst dc = dst"
| "copy_bits (Suc k) src sc dst dc =
     (let sc = next_pos sc;
          dst = (if snd dc = 0x80 then dst[fst dc := 0] else dst);
          dst = (if bit_set src sc then dst[fst dc := dst ! fst dc OR snd dc] else dst)
      in copy_bits k src sc dst (next_pos dc))"

definition new_leaf :: "octet \<Rightarrow> nat \<Rightarrow> octet list \<Rightarrow> nat \<times> octet \<Rightarrow> ip_tree \<Rightarrow> ip_tree \<Rightarrow> ip_tree" where
  "new_leaf g k src sc l r = Leaf k (copy_bits k src sc (replicate (leaf_bytes k) g) (0, 0x80)) l r"

text \<open>\<open>m1\<close> and \<open>m2\<close> tell whether the allocations succeed.\<close>

definition ip_tree_add_ip :: "octet \<Rightarrow> bool \<Rightarrow> bool \<Rightarrow> ip_tree \<Rightarrow> octet list \<Rightarrow> nat \<Rightarrow> int \<times> ip_tree" where
  "ip_tree_add_ip g m1 m2 tree a n =
     (let (ret, h) = ip_tree_find_ip tree a n
      in if ret = IP_TREE_FIND_FOUND_UPPER_SET then
           (case leaf h of
              None \<Rightarrow> (ret, tree)
            | Some q \<Rightarrow> (ret, put tree q (Leaf (leaf_prefix_match_len h) (prefix_match (subtree tree q)) Null Null)))
         else if ret = IP_TREE_FIND_FOUND then (ret, tree)
         else if ret = IP_TREE_FIND_NOT_FOUND then
           (case leaf h of
              Some q \<Rightarrow>
                (let t = subtree tree q; pm = prefix_match t;
                     l1 = new_leaf g (ip_len h - 1) a (ip_pos h) Null Null;
                     l0 = new_leaf g (prefix_match_len t - leaf_prefix_match_len h - 1) pm (leaf_pos h) (next0 t) (next1 t);
                     i = bit_set pm (leaf_pos h)
                 in if \<not> m1 \<or> \<not> m2 then (-1, tree)
                    else (ret, put tree q (Leaf (leaf_prefix_match_len h) pm (if i then l1 else l0) (if i then l0 else l1))))
            | None \<Rightarrow> if m1 then (ret, Leaf n (take (leaf_bytes n) a) Null Null) else (-1, tree))
         else (-1, tree))"

text \<open>The bits as \<^verbatim>\<open>ip_tree_mask_to_str\<close> prints them.\<close>

fun mask_loop :: "nat \<Rightarrow> octet list \<Rightarrow> nat \<times> octet \<Rightarrow> string" where
  "mask_loop 0 pm c = []"
| "mask_loop (Suc k) pm c = (if bit_set pm c then CHR ''1'' else CHR ''0'') # mask_loop k pm (next_pos c)"

definition ip_tree_mask_to_str :: "octet list \<Rightarrow> nat \<Rightarrow> string" where
  "ip_tree_mask_to_str pm l = (let l = (if l \<ge> 129 then 128 else l) in mask_loop l pm (0, 0x80))"

section \<open>Positions\<close>

definition pos :: "nat \<Rightarrow> nat \<times> octet" where
  "pos p = (p div 8, push_bit (7 - p mod 8) 1)"

lemma pos_0: "pos 0 = (0, 0x80)"
  by (simp add: pos_def)

lemma next_pos_pos: "next_pos (pos p) = pos (Suc p)"
proof -
  have k: "p mod 8 < 8" by simp
  have "p mod 8 = 7 \<Longrightarrow> Suc p div 8 = Suc (p div 8) \<and> Suc p mod 8 = 0" by (simp add: mod_Suc div_Suc)
  moreover have "p mod 8 < 7 \<Longrightarrow> Suc p div 8 = p div 8 \<and> Suc p mod 8 = Suc (p mod 8)" by (simp add: mod_Suc div_Suc)
  moreover have "p mod 8 \<in> {0, 1, 2, 3, 4, 5, 6, 7}" using k by auto
  ultimately show ?thesis by (elim insertE emptyE) (simp_all add: next_pos_def pos_def)
qed

lemma bit_set_pos: "bit_set a (pos p) \<longleftrightarrow> addr_bit a p"
  by (simp add: bit_set_def pos_def addr_bit_def bit_iff_and_push_bit_not_eq_0)

lemma bits_of_take: "k \<le> n \<Longrightarrow> take k (bits_of a n) = bits_of a k"
  by (simp add: bits_of_def take_map)

lemma bits_of_length [simp]: "length (bits_of a n) = n"
  by (simp add: bits_of_def)

lemma bits_of_nth [simp]: "i < n \<Longrightarrow> bits_of a n ! i = addr_bit a i"
  by (simp add: bits_of_def)

text \<open>The bits from a position on.\<close>

definition bits_from :: "octet list \<Rightarrow> nat \<Rightarrow> nat \<Rightarrow> bool list" where
  "bits_from a p k = map (addr_bit a) [p..<p + k]"

lemma bits_from_0: "bits_from a p 0 = []" "bits_from a 0 k = bits_of a k"
  by (simp_all add: bits_from_def bits_of_def)

lemma bits_from_Suc: "bits_from a p (Suc k) = addr_bit a p # bits_from a (Suc p) k"
  by (simp add: bits_from_def upt_conv_Cons del: upt_Suc)

lemma bits_from_length [simp]: "length (bits_from a p k) = k"
  by (simp add: bits_from_def)

lemma bits_from_nth [simp]: "i < k \<Longrightarrow> bits_from a p k ! i = addr_bit a (p + i)"
  by (simp add: bits_from_def)

lemma bits_from_append: "bits_from a p (j + k) = bits_from a p j @ bits_from a (p + j) k"
  unfolding bits_from_def add.assoc [symmetric] by (simp add: upt_add_eq_append [of p "p + j" k])

section \<open>Copies\<close>

lemma addr_bit_update: "j < length a \<Longrightarrow> addr_bit (a[j := v]) i = (if i div 8 = j then bit v (7 - i mod 8) else addr_bit a i)"
  by (auto simp: addr_bit_def)

lemma bit_pos_mask: "bit (snd (pos q)) (7 - i mod 8) \<longleftrightarrow> i mod 8 = q mod 8"
proof -
  have "q mod 8 < 8" "i mod 8 < 8" by simp_all
  then have "7 - i mod 8 = 7 - q mod 8 \<longleftrightarrow> i mod 8 = q mod 8" by linarith
  then show ?thesis by (auto simp: pos_def bit_simps)
qed

lemma pos_first: "snd (pos q) = 0x80 \<longleftrightarrow> q mod 8 = 0"
proof -
  have "q mod 8 \<in> {0, 1, 2, 3, 4, 5, 6, 7}" by auto
  then show ?thesis by (elim insertE emptyE) (simp_all add: pos_def)
qed

definition write_bit :: "octet list \<Rightarrow> nat \<times> octet \<Rightarrow> bool \<Rightarrow> octet list" where
  "write_bit dst dc b =
     (let dst = (if snd dc = 0x80 then dst[fst dc := 0] else dst) in if b then dst[fst dc := dst ! fst dc OR snd dc] else dst)"

lemma write_bit_length [simp]: "length (write_bit dst dc b) = length dst"
  by (simp add: write_bit_def Let_def)

lemma write_bit_bits:
  assumes "q div 8 < length dst"
  shows "addr_bit (write_bit dst (pos q) b) i =
    (if i div 8 = q div 8 then (b \<and> i mod 8 = q mod 8) \<or> (q mod 8 \<noteq> 0 \<and> addr_bit dst i) else addr_bit dst i)"
proof -
  define d where "d = (if snd (pos q) = 0x80 then dst[q div 8 := 0] else dst)"
  have d: "addr_bit d j = (if j div 8 = q div 8 \<and> q mod 8 = 0 then False else addr_bit dst j)" "length d = length dst" for j
    using assms by (simp_all add: d_def pos_first addr_bit_update)
  have "write_bit dst (pos q) b = (if b then d[q div 8 := d ! (q div 8) OR snd (pos q)] else d)"
    by (simp add: write_bit_def Let_def d_def pos_def)
  moreover have "i div 8 = q div 8 \<Longrightarrow> bit (d ! (q div 8) OR snd (pos q)) (7 - i mod 8) \<longleftrightarrow> addr_bit d i \<or> i mod 8 = q mod 8"
    by (simp add: bit_or_iff bit_pos_mask addr_bit_def)
  ultimately show ?thesis using assms d by (auto simp: addr_bit_update)
qed

lemma copy_bits_write: "copy_bits (Suc k) src sc dst dc = copy_bits k src (next_pos sc) (write_bit dst dc (bit_set src (next_pos sc))) (next_pos dc)"
  by (simp add: write_bit_def Let_def)

text \<open>The rest of a byte that was begun is zero.\<close>

definition clean :: "nat \<Rightarrow> octet list \<Rightarrow> bool" where
  "clean q dst \<longleftrightarrow> (\<forall>i. i div 8 = q div 8 \<longrightarrow> q \<le> i \<longrightarrow> q mod 8 \<noteq> 0 \<longrightarrow> \<not> addr_bit dst i)"

lemma same_byte: "i div 8 = q div 8 \<Longrightarrow> i mod 8 = q mod 8 \<longleftrightarrow> i = (q :: nat)" "i div 8 = q div 8 \<Longrightarrow> i < q \<Longrightarrow> q mod 8 \<noteq> 0"
proof -
  assume d: "i div 8 = q div 8"
  show "i mod 8 = q mod 8 \<longleftrightarrow> i = q" using d div_mult_mod_eq [of i 8] div_mult_mod_eq [of q 8] by auto
  assume "i < q"
  then show "q mod 8 \<noteq> 0" using d div_mult_mod_eq [of i 8] div_mult_mod_eq [of q 8] by linarith
qed

lemma copy_bits_bits:
  assumes "q + k \<le> 8 * length dst" "clean q dst"
  shows "length (copy_bits k src (pos p) dst (pos q)) = length dst \<and> (\<forall>i<q. addr_bit (copy_bits k src (pos p) dst (pos q)) i = addr_bit dst i) \<and>
    (\<forall>j<k. addr_bit (copy_bits k src (pos p) dst (pos q)) (q + j) = addr_bit src (Suc p + j))"
  using assms
proof (induction k arbitrary: p q dst)
  case 0
  then show ?case by simp
next
  case (Suc k)
  let ?d = "write_bit dst (pos q) (addr_bit src (Suc p))"
  have q: "q div 8 < length dst" using Suc.prems(1) by simp
  note w = write_bit_bits [OF q, of "addr_bit src (Suc p)"]
  have c: "copy_bits (Suc k) src (pos p) dst (pos q) = copy_bits k src (pos (Suc p)) ?d (pos (Suc q))"
    unfolding copy_bits_write next_pos_pos bit_set_pos ..
  have lo: "i < q \<Longrightarrow> addr_bit ?d i = addr_bit dst i" for i using same_byte [of i q] by (auto simp: w)
  have at: "addr_bit ?d q = addr_bit src (Suc p)" using Suc.prems(2) by (auto simp: w clean_def)
  have cl: "clean (Suc q) ?d" unfolding clean_def
  proof (intro allI impI)
    fix i assume i: "i div 8 = Suc q div 8" "Suc q \<le> i" "Suc q mod 8 \<noteq> 0"
    then have "Suc q div 8 = q div 8" by (simp add: div_Suc)
    then have "i div 8 = q div 8" "i mod 8 \<noteq> q mod 8" using i same_byte(1) [of i q] by auto
    then show "\<not> addr_bit ?d i" using i(2) Suc.prems(2) by (auto simp: w clean_def)
  qed
  note IH = Suc.IH [of "Suc q" ?d "Suc p", OF _ cl]
  have len: "Suc q + k \<le> 8 * length ?d" using Suc.prems(1) by simp
  show ?case unfolding c
  proof (intro conjI allI impI)
    fix j assume "j < Suc k"
    then show "addr_bit (copy_bits k src (pos (Suc p)) ?d (pos (Suc q))) (q + j) = addr_bit src (Suc p + j)"
      using IH [OF len] at by (cases j) auto
  qed (use IH [OF len] lo in auto)
qed

lemma leaf_bytes_le: "k \<le> 8 * leaf_bytes k"
  by (simp add: leaf_bytes_def) linarith

lemma new_leaf_bits:
  "new_leaf g k src (pos p) l r = Leaf k pm l r \<Longrightarrow> bits_of pm k = bits_from src (Suc p) k \<and> k \<le> 8 * length pm"
proof -
  assume "new_leaf g k src (pos p) l r = Leaf k pm l r"
  then have pm: "pm = copy_bits k src (pos p) (replicate (leaf_bytes k) g) (pos 0)" by (simp add: new_leaf_def pos_0)
  have "clean 0 (replicate (leaf_bytes k) g)" by (simp add: clean_def)
  then have "length pm = leaf_bytes k" "\<forall>j<k. addr_bit pm j = addr_bit src (Suc p + j)"
    using copy_bits_bits [of 0 k "replicate (leaf_bytes k) g" src p] leaf_bytes_le [of k] by (simp_all add: pm)
  then show ?thesis using leaf_bytes_le [of k] by (intro conjI nth_equalityI) simp_all
qed

section \<open>The prefixes in a tree\<close>

fun ents :: "ip_tree \<Rightarrow> bool list set" where
  "ents Null = {}"
| "ents (Leaf n pm l r) =
     (if l = Null \<and> r = Null then {bits_of pm n} else (\<lambda>e. bits_of pm n @ False # e) ` ents l \<union> (\<lambda>e. bits_of pm n @ True # e) ` ents r)"

fun tree_wf :: "ip_tree \<Rightarrow> bool" where
  "tree_wf Null = True"
| "tree_wf (Leaf n pm l r) \<longleftrightarrow> n \<le> 8 * length pm \<and> (l = Null \<longleftrightarrow> r = Null) \<and> tree_wf l \<and> tree_wf r"

fun path_bits :: "ip_tree \<Rightarrow> bool list \<Rightarrow> bool list" where
  "path_bits t [] = []"
| "path_bits Null (b # q) = []"
| "path_bits (Leaf n pm l r) (b # q) = bits_of pm n @ b # path_bits (if b then r else l) q"

lemma subtree_Null [simp]: "subtree Null q = Null"
  by (cases q) auto

lemma put_not_Null: "subtree t q \<noteq> Null \<Longrightarrow> s \<noteq> Null \<Longrightarrow> put t q s \<noteq> Null"
  by (induction t q s rule: put.induct) auto

lemma ents_put:
  "tree_wf t \<Longrightarrow> subtree t q \<noteq> Null \<Longrightarrow> s \<noteq> Null \<Longrightarrow>
   ents (put t q s) = {e \<in> ents t. \<not> prefix (path_bits t q) e} \<union> (\<lambda>e. path_bits t q @ e) ` ents s"
proof (induction t q s rule: put.induct)
  case (3 n pm l r b q s)
  have n: "put (if b then r else l) q s \<noteq> Null" "l \<noteq> Null" "r \<noteq> Null" using 3 put_not_Null [of "if b then r else l" q s] by (auto split: if_splits)
  show ?case using 3 n by (cases b) (auto simp: image_iff)
qed auto

lemma ents_sub: "tree_wf t \<Longrightarrow> subtree t q \<noteq> Null \<Longrightarrow> path_bits t q @ e \<in> ents t \<longleftrightarrow> e \<in> ents (subtree t q)"
proof (induction t q rule: subtree.induct)
  case (3 n pm l r b q)
  then have "l \<noteq> Null" "r \<noteq> Null" by (auto split: if_splits)
  then show ?case using 3 by (cases b) (auto simp: image_iff)
qed auto

lemma tree_wf_put: "tree_wf t \<Longrightarrow> tree_wf s \<Longrightarrow> subtree t q \<noteq> Null \<Longrightarrow> s \<noteq> Null \<Longrightarrow> tree_wf (put t q s)"
  by (induction t q s rule: put.induct) (auto simp: put_not_Null)

lemma tree_wf_subtree: "tree_wf t \<Longrightarrow> tree_wf (subtree t q)"
  by (induction t q rule: subtree.induct) auto

section \<open>Finding\<close>

definition agree :: "octet list \<Rightarrow> nat \<Rightarrow> octet list \<Rightarrow> nat \<Rightarrow> nat \<Rightarrow> bool" where
  "agree a p pm k j \<longleftrightarrow> (\<forall>i<j. addr_bit a (p + i) = addr_bit pm (k + i))"

lemma agree_Suc: "addr_bit a p = addr_bit pm k \<Longrightarrow> agree a (Suc p) pm (Suc k) j \<Longrightarrow> agree a p pm k (Suc j)"
  unfolding agree_def
proof (intro allI impI)
  fix i assume "addr_bit a p = addr_bit pm k" "\<forall>i<j. addr_bit a (Suc p + i) = addr_bit pm (Suc k + i)" "i < Suc j"
  then show "addr_bit a (p + i) = addr_bit pm (k + i)" by (cases i) auto
qed

text \<open>How the loop over the bits of a node ends, from bit \<open>k\<close> of the node and bit \<open>p\<close> of the address with \<open>m\<close> bits left.\<close>

definition match_end :: "octet list \<Rightarrow> nat \<Rightarrow> octet list \<Rightarrow> nat \<Rightarrow> nat \<Rightarrow> nat \<Rightarrow> int option \<Rightarrow> ip_tree_find \<Rightarrow> bool" where
  "match_end a n pm p k m x h \<longleftrightarrow>
     (case x of
        None \<Rightarrow> n - k < m \<and> agree a p pm k (n - k) \<and> ip_pos h = pos (p + (n - k)) \<and> ip_len h = m - (n - k)
      | Some ret \<Rightarrow>
          ret = IP_TREE_FIND_NOT_FOUND \<and> (\<exists>j. k + j < n \<and> j < m \<and> agree a p pm k j \<and> addr_bit a (p + j) \<noteq> addr_bit pm (k + j) \<and>
            ip_pos h = pos (p + j) \<and> leaf_pos h = pos (k + j) \<and> leaf_prefix_match_len h = k + j \<and> ip_len h = m - j) \<or>
          ret = IP_TREE_FIND_FOUND_UPPER_SET \<and> k + m \<le> n \<and> agree a p pm k m \<and> leaf_prefix_match_len h = k + m)"

lemma match_end_Suc:
  assumes "match_end a n pm (Suc p) (Suc k) m x h" "addr_bit a p = addr_bit pm k" "k < n"
  shows "match_end a n pm p k (Suc m) x h"
proof (cases x)
  case None
  obtain d where "n = Suc (k + d)" using assms(3) less_imp_Suc_add by blast
  then show ?thesis using assms None agree_Suc [OF assms(2), of d] by (simp add: match_end_def)
next
  case (Some ret)
  show ?thesis
  proof (cases "ret = IP_TREE_FIND_NOT_FOUND")
    case True
    then obtain j where j: "Suc k + j < n" "j < m" "agree a (Suc p) pm (Suc k) j" "addr_bit a (Suc p + j) \<noteq> addr_bit pm (Suc k + j)"
        "ip_pos h = pos (Suc p + j)" "leaf_pos h = pos (Suc k + j)" "leaf_prefix_match_len h = Suc k + j" "ip_len h = m - j"
      using assms(1) Some by (auto simp: match_end_def IP_TREE_FIND_NOT_FOUND_def IP_TREE_FIND_FOUND_UPPER_SET_def)
    then show ?thesis using True Some agree_Suc [OF assms(2) j(3)] by (auto simp: match_end_def intro!: exI [of _ "Suc j"])
  next
    case False
    then show ?thesis using assms Some agree_Suc [OF assms(2), of m] by (auto simp: match_end_def)
  qed
qed

lemma match_loop_spec:
  "match_loop a n pm h = (x, h') \<Longrightarrow> ip_pos h = pos p \<Longrightarrow> leaf_pos h = pos k \<Longrightarrow> leaf_prefix_match_len h = k \<Longrightarrow> ip_len h = m \<Longrightarrow> 0 < m \<Longrightarrow>
   leaf h' = leaf h \<and> match_end a n pm p k m x h'"
proof (induction a n pm h arbitrary: p k m rule: match_loop.induct)
  case (1 a n pm h)
  note u = match_loop.simps [of a n pm h]
  have b: "bit_set a (ip_pos h) = addr_bit a p" "bit_set pm (leaf_pos h) = addr_bit pm k" using "1.prems"(2,3) by (simp_all add: bit_set_pos)
  consider "n \<le> k" | "k < n" "addr_bit a p \<noteq> addr_bit pm k" | "k < n" "addr_bit a p = addr_bit pm k" "m = 1" | "k < n" "addr_bit a p = addr_bit pm k" "1 < m"
    using "1.prems"(6) by linarith
  then show ?case
  proof cases
    case 1
    then show ?thesis using "1.prems" by (simp add: u match_end_def agree_def)
  next
    case 2
    then have "x = Some IP_TREE_FIND_NOT_FOUND" "h' = h" using "1.prems"(1,4) b by (simp_all add: u)
    then show ?thesis using 2 "1.prems" by (auto simp: match_end_def agree_def intro!: exI [of _ 0])
  next
    case 3
    then have "x = Some IP_TREE_FIND_FOUND_UPPER_SET" "h' = h\<lparr>leaf_prefix_match_len := Suc k, ip_len := 0\<rparr>" using "1.prems"(1,4,5) b by (auto simp: u)
    then show ?thesis using 3 by (simp add: match_end_def agree_def)
  next
    case 4
    define h1 where "h1 = h\<lparr>leaf_prefix_match_len := leaf_prefix_match_len h + 1, ip_len := ip_len h - 1\<rparr>"
    have r: "match_loop a n pm (leaf_next (ip_next h1)) = (x, h')" using "1.prems"(1,4,5) 4 b by (simp add: u h1_def Let_def)
    have n: "next_pos (ip_pos h) = pos (Suc p)" "next_pos (leaf_pos h) = pos (Suc k)" using "1.prems"(2,3) by (simp_all add: next_pos_pos)
    then have s: "ip_pos (leaf_next (ip_next h1)) = pos (Suc p)" "leaf_pos (leaf_next (ip_next h1)) = pos (Suc k)" "leaf_prefix_match_len (leaf_next (ip_next h1)) = Suc k"
        "ip_len (leaf_next (ip_next h1)) = m - 1" "leaf (leaf_next (ip_next h1)) = leaf h"
      using "1.prems"(4,5) by (simp_all add: leaf_next_def ip_next_def h1_def)
    have "leaf h' = leaf h \<and> match_end a n pm (Suc p) (Suc k) (m - 1) x h'"
      using "1.IH" [OF _ _ h1_def, of "Suc p" "Suc k" "m - 1"] r s 4 b "1.prems"(4,5) by (simp add: h1_def)
    then show ?thesis using match_end_Suc [of a n pm p k "m - 1" x h'] 4 by simp
  qed
qed

lemma agree_bits: "agree a p pm 0 j \<Longrightarrow> j \<le> n \<Longrightarrow> bits_from a p j = take j (bits_of pm n)"
  by (intro nth_equalityI) (auto simp: agree_def)

text \<open>What the walk finds, for the \<open>m\<close> bits of the address from bit \<open>p\<close> on.\<close>

definition found_upper :: "ip_tree \<Rightarrow> bool list \<Rightarrow> bool list \<Rightarrow> bool list \<Rightarrow> ip_tree_find \<Rightarrow> bool" where
  "found_upper t path q w h \<longleftrightarrow> leaf h = Some (path @ q) \<and>
     (\<exists>n pm l r. subtree t q = Leaf n pm l r \<and> leaf_prefix_match_len h \<le> n \<and> w = path_bits t q @ take (leaf_prefix_match_len h) (bits_of pm n))"

definition not_found :: "octet list \<Rightarrow> ip_tree \<Rightarrow> bool list \<Rightarrow> bool list \<Rightarrow> bool list \<Rightarrow> ip_tree_find \<Rightarrow> bool" where
  "not_found a t path q w h \<longleftrightarrow> leaf h = Some (path @ q) \<and>
     (\<exists>n pm l r k p'. subtree t q = Leaf n pm l r \<and> leaf_prefix_match_len h = k \<and> k < n \<and> leaf_pos h = pos k \<and> ip_pos h = pos p' \<and> 0 < ip_len h \<and>
        w = path_bits t q @ take k (bits_of pm n) @ (\<not> addr_bit pm k) # bits_from a (Suc p') (ip_len h - 1))"

definition walk_end :: "octet list \<Rightarrow> ip_tree \<Rightarrow> bool list \<Rightarrow> bool list \<Rightarrow> int \<Rightarrow> ip_tree_find \<Rightarrow> bool" where
  "walk_end a t path w ret h \<longleftrightarrow>
     ret = IP_TREE_FIND_FOUND \<and> (\<exists>e\<in>ents t. prefix e w) \<or>
     ret = IP_TREE_FIND_FOUND_UPPER_SET \<and> (\<exists>q. found_upper t path q w h) \<or>
     ret = IP_TREE_FIND_NOT_FOUND \<and> (\<exists>q. not_found a t path q w h)"

lemma walk_end_child:
  assumes "walk_end a (if b then r else l) (path @ [b]) w ret h" "l \<noteq> Null" "r \<noteq> Null"
  shows "walk_end a (Leaf n pm l r) path (bits_of pm n @ b # w) ret h"
proof -
  have u: "found_upper (if b then r else l) (path @ [b]) q w h \<Longrightarrow> found_upper (Leaf n pm l r) path (b # q) (bits_of pm n @ b # w) h" for q
    by (auto simp: found_upper_def)
  have v: "not_found a (if b then r else l) (path @ [b]) q w h \<Longrightarrow> not_found a (Leaf n pm l r) path (b # q) (bits_of pm n @ b # w) h" for q
    by (auto simp: not_found_def)
  have e: "e \<in> ents (if b then r else l) \<Longrightarrow> prefix e w \<Longrightarrow> \<exists>e\<in>ents (Leaf n pm l r). prefix e (bits_of pm n @ b # w)" for e
    using assms(2,3) by (intro bexI [of _ "bits_of pm n @ b # e"]) (auto split: if_splits)
  show ?thesis using assms(1) u v e unfolding walk_end_def by blast
qed

lemma match_end_leaf:
  assumes "match_end a n pm p 0 m (Some ret) h" "leaf h = Some path"
  shows "walk_end a (Leaf n pm l r) path (bits_from a p m) ret h"
proof -
  consider j where "ret = IP_TREE_FIND_NOT_FOUND" "j < n" "j < m" "agree a p pm 0 j" "addr_bit a (p + j) \<noteq> addr_bit pm j"
        "ip_pos h = pos (p + j)" "leaf_pos h = pos j" "leaf_prefix_match_len h = j" "ip_len h = m - j"
      | "ret = IP_TREE_FIND_FOUND_UPPER_SET" "m \<le> n" "agree a p pm 0 m" "leaf_prefix_match_len h = m"
    using assms(1) unfolding match_end_def by auto
  then show ?thesis
  proof cases
    case (1 j)
    have "bits_from a p m = bits_from a p j @ bits_from a (p + j) (Suc (m - j - 1))" using 1(3) by (simp flip: bits_from_append)
    then have "bits_from a p m = take j (bits_of pm n) @ (\<not> addr_bit pm j) # bits_from a (Suc (p + j)) (ip_len h - 1)"
      using agree_bits [OF 1(4), of n] 1 by (auto simp: bits_from_Suc)
    then have "not_found a (Leaf n pm l r) path [] (bits_from a p m) h" unfolding not_found_def using 1 assms(2) by auto
    then show ?thesis using 1(1) unfolding walk_end_def by blast
  next
    case 2
    then have "found_upper (Leaf n pm l r) path [] (bits_from a p m) h" unfolding found_upper_def using assms(2) agree_bits [OF 2(3,2)] by auto
    then show ?thesis using 2(1) unfolding walk_end_def by blast
  qed
qed

lemma find_walk_spec:
  "find_walk a t path h = (ret, h') \<Longrightarrow> t \<noteq> Null \<Longrightarrow> tree_wf t \<Longrightarrow> ip_pos h = pos p \<Longrightarrow> walk_end a t path (bits_from a p (ip_len h)) ret h'"
proof (induction t arbitrary: path h p)
  case Null
  then show ?case by simp
next
  case (Leaf n pm l r)
  let ?w = "bits_from a p (ip_len h)"
  define h0 where "h0 = h\<lparr>leaf := Some path, leaf_prefix_match_mask := 0x80, leaf_prefix_match := 0, leaf_prefix_match_len := 0\<rparr>"
  show ?case
  proof (cases "ip_len h = 0")
    case True
    then have "ret = IP_TREE_FIND_FOUND_UPPER_SET" "h' = h0" using Leaf.prems(1) by (simp_all add: h0_def)
    then show ?thesis using True by (auto simp: walk_end_def found_upper_def h0_def bits_from_0 intro!: exI [of _ "[]"])
  next
    case False
    obtain x h1 where m: "match_loop a n pm h0 = (x, h1)" by force
    have h0: "ip_pos h0 = pos p" "leaf_pos h0 = pos 0" "leaf_prefix_match_len h0 = 0" "ip_len h0 = ip_len h" using Leaf.prems(4) by (simp_all add: h0_def pos_0)
    have e: "leaf h1 = Some path" "match_end a n pm p 0 (ip_len h) x h1" using match_loop_spec [OF m h0] False by (simp_all add: h0_def)
    show ?thesis
    proof (cases x)
      case (Some ret')
      then have ret: "ret' = ret" "h1 = h'" using Leaf.prems(1) False m by (simp_all add: h0_def Let_def)
      then show ?thesis using match_end_leaf [of a n pm p "ip_len h" ret h1 path l r] e Some by simp
    next
      case None
      define b where "b = addr_bit a (p + n)"
      define h2 where "h2 = (ip_next h1)\<lparr>ip_len := ip_len h1 - 1\<rparr>"
      have n: "n < ip_len h" "agree a p pm 0 n" "ip_pos h1 = pos (p + n)" "ip_len h1 = ip_len h - n" using e(2) None by (simp_all add: match_end_def)
      have bs: "bit_set a (ip_pos h1) = b" using n(3) by (simp add: bit_set_pos b_def)
      have "find_walk a (Leaf n pm l r) path h = (if b then find_walk a r (path @ [b]) h2 else find_walk a l (path @ [b]) h2)"
        unfolding find_walk.simps Let_def h0_def [symmetric] using False None by (simp add: h0(4) m bs h2_def)
      then have r: "find_walk a (if b then r else l) (path @ [b]) h2 = (ret, h')" using Leaf.prems(1) by (cases b) simp_all
      have "?w = bits_from a p n @ bits_from a (p + n) (Suc (ip_len h - n - 1))" using n(1) by (simp flip: bits_from_append)
      then have w: "?w = bits_of pm n @ b # bits_from a (Suc (p + n)) (ip_len h2)"
        using agree_bits [OF n(2), of n] n by (simp add: bits_from_Suc b_def h2_def)
      have p2: "ip_pos h2 = pos (Suc (p + n))" using n(3) next_pos_pos [of "p + n"] by (simp add: h2_def ip_next_def)
      show ?thesis
      proof (cases "l = Null")
        case True
        then have "r = Null" using Leaf.prems(3) by simp
        then have "ret = IP_TREE_FIND_FOUND" using r True by (cases b) simp_all
        then show ?thesis using True \<open>r = Null\<close> w by (auto simp: walk_end_def)
      next
        case False
        then have lr: "l \<noteq> Null" "r \<noteq> Null" "tree_wf l" "tree_wf r" using Leaf.prems(3) by simp_all
        have "walk_end a (if b then r else l) (path @ [b]) (bits_from a (Suc (p + n)) (ip_len h2)) ret h'"
          using Leaf.IH(1) [of "path @ [b]" h2 "Suc (p + n)"] Leaf.IH(2) [of "path @ [b]" h2 "Suc (p + n)"] r lr p2 by (cases b) simp_all
        then show ?thesis unfolding w by (rule walk_end_child [OF _ lr(1,2)])
      qed
    qed
  qed
qed

section \<open>Adding and testing\<close>

lemma ents_prefix: "e \<in> ents (Leaf n pm l r) \<Longrightarrow> prefix (bits_of pm n) e"
  by (auto split: if_splits)

lemma put_subtree: "put t q (subtree t q) = t"
  by (induction t q rule: subtree.induct) auto

lemma ents_parts:
  "tree_wf t \<Longrightarrow> subtree t q \<noteq> Null \<Longrightarrow> ents t = {e \<in> ents t. \<not> prefix (path_bits t q) e} \<union> (\<lambda>e. path_bits t q @ e) ` ents (subtree t q)"
  using ents_put [of t q "subtree t q"] by (simp add: put_subtree)

text \<open>An entry beside the path differs from it.\<close>

lemma ents_beside: "tree_wf t \<Longrightarrow> subtree t q \<noteq> Null \<Longrightarrow> e \<in> ents t \<Longrightarrow> \<not> prefix (path_bits t q) e \<Longrightarrow> \<not> prefix e (path_bits t q)"
proof (induction t q arbitrary: e rule: subtree.induct)
  case (3 n pm l r b q)
  then have "l \<noteq> Null" "r \<noteq> Null" by (auto split: if_splits)
  then show ?case using 3 by (cases b) (auto simp: image_iff)
qed auto

definition covers :: "ip_tree \<Rightarrow> bool list \<Rightarrow> bool" where
  "covers t x \<longleftrightarrow> (\<exists>e\<in>ents t. prefix e x)"

lemma ents_split:
  assumes "bits_of pm n = bits_of pm' k @ b # bits_of pm0 n0"
  shows "ents (Leaf n pm l r) = (\<lambda>e. bits_of pm' k @ b # e) ` ents (Leaf n0 pm0 l r)"
  using assms by (auto simp: image_iff)

lemma split_bits: "k < n \<Longrightarrow> bits_of pm n = bits_of pm k @ addr_bit pm k # bits_from pm (Suc k) (n - k - 1)"
  using bits_from_append [of pm 0 k "Suc (n - k - 1)"] by (simp add: bits_from_0 bits_from_Suc)

lemma split_ents:
  assumes "tree_wf (Leaf n pm l r)" "k < n"
    and "l1 = new_leaf g m a (pos p) Null Null" "l0 = new_leaf g (n - k - 1) pm (pos k) l r"
  shows "tree_wf (Leaf k pm (if addr_bit pm k then l1 else l0) (if addr_bit pm k then l0 else l1))"
    "ents (Leaf k pm (if addr_bit pm k then l1 else l0) (if addr_bit pm k then l0 else l1)) =
       ents (Leaf n pm l r) \<union> {take k (bits_of pm n) @ (\<not> addr_bit pm k) # bits_from a (Suc p) m}"
proof -
  obtain pm1 pm0 where l1: "l1 = Leaf m pm1 Null Null" and l0: "l0 = Leaf (n - k - 1) pm0 l r" using assms(3,4) by (simp add: new_leaf_def)
  note b1 = new_leaf_bits [OF assms(3) [unfolded l1, symmetric]] and b0 = new_leaf_bits [OF assms(4) [unfolded l0, symmetric]]
  show "tree_wf (Leaf k pm (if addr_bit pm k then l1 else l0) (if addr_bit pm k then l0 else l1))"
    using assms(1,2) b1 b0 by (simp add: l1 l0)
  have "ents (Leaf n pm l r) = (\<lambda>e. bits_of pm k @ addr_bit pm k # e) ` ents l0"
    unfolding l0 by (rule ents_split) (use split_bits [OF assms(2), of pm] b0 in simp)
  moreover have "take k (bits_of pm n) = bits_of pm k" using assms(2) by (simp add: bits_of_take)
  ultimately show "ents (Leaf k pm (if addr_bit pm k then l1 else l0) (if addr_bit pm k then l0 else l1)) =
       ents (Leaf n pm l r) \<union> {take k (bits_of pm n) @ (\<not> addr_bit pm k) # bits_from a (Suc p) m}"
    using b1 by (auto simp: l1 l0)
qed

lemma find_ip_spec:
  assumes "ip_tree_find_ip t a n = (ret, h)" "t \<noteq> Null" "tree_wf t"
  shows "walk_end a t [] (bits_of a n) ret h"
proof -
  define h0 where "h0 = \<lparr>leaf = None, leaf_prefix_match_len = 0, leaf_prefix_match = 0, leaf_prefix_match_mask = 0, ip = 0, ip_len = n, ip_mask = 0x80\<rparr>"
  have "find_walk a t [] h0 = (ret, h)" using assms(1,2) by (simp add: ip_tree_find_ip_def h0_def)
  moreover have "ip_pos h0 = pos 0" "ip_len h0 = n" by (simp_all add: h0_def pos_0)
  ultimately show ?thesis using find_walk_spec [of a t "[]" h0 ret h 0] assms(2,3) by (simp add: bits_from_0)
qed

text \<open>The effect of an addition on the prefixes.\<close>

definition adds :: "ip_tree \<Rightarrow> ip_tree \<Rightarrow> bool list \<Rightarrow> bool" where
  "adds t t' w \<longleftrightarrow> tree_wf t' \<and> t' \<noteq> Null \<and> ents t' \<subseteq> insert w (ents t) \<and> (\<forall>x. covers t' x \<longleftrightarrow> covers t x \<or> prefix w x)"

lemma first_adds:
  assumes "n \<le> 8 * length a"
  shows "adds Null (Leaf n (take (leaf_bytes n) a) Null Null) (bits_of a n)"
proof -
  have "n \<le> 8 * length (take (leaf_bytes n) a)" using assms leaf_bytes_le [of n] by (auto simp: min_def)
  moreover have "bits_of (take (leaf_bytes n) a) n = bits_of a n"
  proof (rule nth_equalityI)
    fix i assume i: "i < length (bits_of (take (leaf_bytes n) a) n)"
    then have "i div 8 < leaf_bytes n" using leaf_bytes_le [of n] by auto
    then show "bits_of (take (leaf_bytes n) a) n ! i = bits_of a n ! i" using i by (simp add: addr_bit_def)
  qed simp
  ultimately show ?thesis by (simp add: adds_def covers_def)
qed

lemma found_adds: "tree_wf t \<Longrightarrow> t \<noteq> Null \<Longrightarrow> e \<in> ents t \<Longrightarrow> prefix e w \<Longrightarrow> adds t t w"
  by (auto simp: adds_def covers_def intro: prefix_order.trans)

lemma upper_adds:
  assumes "tree_wf t" "found_upper t [] q w h"
  shows "adds t (put t q (Leaf (leaf_prefix_match_len h) (prefix_match (subtree t q)) Null Null)) w"
proof -
  obtain m pm l r where s: "subtree t q = Leaf m pm l r" "leaf_prefix_match_len h \<le> m" "w = path_bits t q @ take (leaf_prefix_match_len h) (bits_of pm m)"
    using assms(2) unfolding found_upper_def by auto
  define s' where "s' = Leaf (leaf_prefix_match_len h) pm Null Null"
  have e: "ents (put t q s') = {e \<in> ents t. \<not> prefix (path_bits t q) e} \<union> {w}"
    using ents_put [OF assms(1), of q s'] s by (simp add: s'_def bits_of_take)
  have under: "prefix w e" if a: "e \<in> ents t" "prefix (path_bits t q) e" for e
  proof -
    obtain e' where e': "e = path_bits t q @ e'" using a(2) by (auto elim: prefixE)
    then have "prefix (bits_of pm m) e'" using a(1) ents_sub [OF assms(1), of q e'] s(1) ents_prefix by simp
    then show ?thesis using e' s(3) take_is_prefix prefix_order.trans by (metis same_prefix_prefix)
  qed
  have "tree_wf s'" using s(1,2) tree_wf_subtree [OF assms(1), of q] by (simp add: s'_def)
  then have "tree_wf (put t q s')" "put t q s' \<noteq> Null" using assms(1) s(1) by (simp_all add: tree_wf_put put_not_Null s'_def)
  moreover have "covers (put t q s') x \<longleftrightarrow> covers t x \<or> prefix w x" for x
    using under unfolding covers_def e by (auto intro: prefix_order.trans)
  ultimately have "adds t (put t q s') w" using e by (auto simp: adds_def)
  then show ?thesis by (simp add: s'_def s(1))
qed

lemma split_adds:
  assumes "tree_wf t" "not_found a t [] q w h"
    and "s = subtree t q" "pm = prefix_match s" "l1 = new_leaf g (ip_len h - 1) a (ip_pos h) Null Null"
    and "l0 = new_leaf g (prefix_match_len s - leaf_prefix_match_len h - 1) pm (leaf_pos h) (next0 s) (next1 s)" "i = bit_set pm (leaf_pos h)"
  shows "adds t (put t q (Leaf (leaf_prefix_match_len h) pm (if i then l1 else l0) (if i then l0 else l1))) w"
proof -
  obtain m l r k p where s: "s = Leaf m pm l r" "leaf_prefix_match_len h = k" "k < m" "leaf_pos h = pos k" "ip_pos h = pos p"
      "w = path_bits t q @ take k (bits_of pm m) @ (\<not> addr_bit pm k) # bits_from a (Suc p) (ip_len h - 1)"
    using assms(2) unfolding not_found_def assms(3,4) by auto
  have l: "l1 = new_leaf g (ip_len h - 1) a (pos p) Null Null" "l0 = new_leaf g (m - k - 1) pm (pos k) l r" "i = addr_bit pm k"
    using assms(5-7) s(1,2,4,5) by (simp_all add: bit_set_pos)
  define s' where "s' = Leaf k pm (if i then l1 else l0) (if i then l0 else l1)"
  have t: "subtree t q \<noteq> Null" "tree_wf s" using s(1) assms(3) tree_wf_subtree [OF assms(1), of q] by simp_all
  have w: "tree_wf s'" "ents s' = ents s \<union> {take k (bits_of pm m) @ (\<not> addr_bit pm k) # bits_from a (Suc p) (ip_len h - 1)}"
    using split_ents [OF _ s(3) l(1,2)] t(2) s(1) unfolding s'_def l(3) by simp_all
  have "ents (put t q s') = {e \<in> ents t. \<not> prefix (path_bits t q) e} \<union> (\<lambda>e. path_bits t q @ e) ` ents s \<union> {w}"
    using ents_put [OF assms(1) t(1), of s'] s(6) w(2) by (auto simp: s'_def)
  then have "ents (put t q s') = ents t \<union> {w}" using ents_parts [OF assms(1) t(1)] assms(3) by simp
  moreover have "tree_wf (put t q s')" "put t q s' \<noteq> Null" using assms(1) t(1) w(1) by (simp_all add: tree_wf_put put_not_Null s'_def)
  ultimately have "adds t (put t q s') w" by (auto simp: adds_def covers_def)
  then show ?thesis by (simp add: s'_def s(2))
qed

lemma add_adds:
  assumes "tree_wf t" "n \<le> 8 * length a" "ip_tree_add_ip g True True t a n = (ret, t')"
  shows "0 \<le> ret \<and> adds t t' (bits_of a n)"
proof -
  obtain r h where f: "ip_tree_find_ip t a n = (r, h)" by force
  note codes = IP_TREE_FIND_NOT_FOUND_def IP_TREE_FIND_FOUND_def IP_TREE_FIND_FOUND_UPPER_SET_def
  note u = assms(3) [unfolded ip_tree_add_ip_def f Let_def]
  consider "t = Null" | e where "t \<noteq> Null" "r = IP_TREE_FIND_FOUND" "e \<in> ents t" "prefix e (bits_of a n)"
      | q where "r = IP_TREE_FIND_FOUND_UPPER_SET" "found_upper t [] q (bits_of a n) h"
      | q where "r = IP_TREE_FIND_NOT_FOUND" "not_found a t [] q (bits_of a n) h"
    using find_ip_spec [OF f _ assms(1)] unfolding walk_end_def by blast
  then show ?thesis
  proof cases
    case 1
    then show ?thesis using first_adds [OF assms(2)] u f by (auto simp: ip_tree_find_ip_def codes)
  next
    case (2 e)
    then show ?thesis using found_adds [OF assms(1)] u by (auto simp: codes)
  next
    case (3 q)
    then have "leaf h = Some q" by (simp add: found_upper_def)
    then show ?thesis using upper_adds [OF assms(1) 3(2)] u 3(1) by (auto simp: codes)
  next
    case (4 q)
    then have "leaf h = Some q" by (simp add: not_found_def)
    then show ?thesis using split_adds [OF assms(1) 4(2) refl refl refl refl refl, of g] u 4(1) by (auto simp: codes)
  qed
qed

lemma add_fails: "\<not> (m1 \<and> m2) \<Longrightarrow> ip_tree_add_ip g m1 m2 t a n = (ret, t') \<Longrightarrow> ret = -1 \<and> t' = t \<or> ip_tree_add_ip g True True t a n = (ret, t')"
  by (auto simp: ip_tree_add_ip_def Let_def split: prod.splits if_splits option.splits)

text \<open>A test with all bits of an address.\<close>

lemma ents_not_empty: "t \<noteq> Null \<Longrightarrow> ents t \<noteq> {}"
  by (induction t) auto

lemma not_found_uncovered:
  assumes "tree_wf t" "not_found a t [] q w h"
  shows "\<not> covers t w"
proof
  assume "covers t w"
  then obtain e where e: "e \<in> ents t" "prefix e w" unfolding covers_def by blast
  obtain m pm l r k p where s: "subtree t q = Leaf m pm l r" "k < m" "w = path_bits t q @ take k (bits_of pm m) @ (\<not> addr_bit pm k) # bits_from a (Suc p) (ip_len h - 1)"
    using assms(2) unfolding not_found_def by blast
  show False
  proof (cases "prefix (path_bits t q) e")
    case True
    then obtain e' where e': "e = path_bits t q @ e'" by (auto elim: prefixE)
    then have "prefix (bits_of pm m) e'" using e(1) ents_sub [OF assms(1), of q e'] s(1) ents_prefix by simp
    moreover have "prefix e' (take k (bits_of pm m) @ (\<not> addr_bit pm k) # bits_from a (Suc p) (ip_len h - 1))" using e(2) e' s(3) by simp
    ultimately have pp: "prefix (bits_of pm m) (take k (bits_of pm m) @ (\<not> addr_bit pm k) # bits_from a (Suc p) (ip_len h - 1))"
      by (rule prefix_order.trans)
    have t: "take k (bits_of pm m) = bits_of pm k" using s(2) by (simp add: bits_of_take)
    show False using pp [unfolded t split_bits [OF s(2), of pm]] by simp
  next
    case False
    have "prefix (path_bits t q) w" using s(3) by simp
    then have "prefix e (path_bits t q)" using e(2) False prefix_same_cases by blast
    then show False using ents_beside [OF assms(1) _ e(1) False] s(1) by simp
  qed
qed

lemma find_covers:
  assumes "tree_wf t" "\<forall>e\<in>ents t. length e \<le> n" "ip_tree_find_ip t a n = (ret, h)"
  shows "0 < ret \<longleftrightarrow> covers t (bits_of a n)"
proof (cases "t = Null")
  case True
  then show ?thesis using assms(3) by (simp add: ip_tree_find_ip_def IP_TREE_FIND_NOT_FOUND_def covers_def)
next
  case False
  note codes = IP_TREE_FIND_NOT_FOUND_def IP_TREE_FIND_FOUND_def IP_TREE_FIND_FOUND_UPPER_SET_def
  consider e where "ret = IP_TREE_FIND_FOUND" "e \<in> ents t" "prefix e (bits_of a n)"
      | q where "ret = IP_TREE_FIND_FOUND_UPPER_SET" "found_upper t [] q (bits_of a n) h"
      | q where "ret = IP_TREE_FIND_NOT_FOUND" "not_found a t [] q (bits_of a n) h"
    using find_ip_spec [OF assms(3) False assms(1)] unfolding walk_end_def by blast
  then show ?thesis
  proof cases
    case (1 e)
    then show ?thesis by (auto simp: codes covers_def)
  next
    case (2 q)
    obtain m pm l r where s: "subtree t q = Leaf m pm l r" "bits_of a n = path_bits t q @ take (leaf_prefix_match_len h) (bits_of pm m)"
      using 2(2) unfolding found_upper_def by auto
    obtain e where e: "e \<in> ents (subtree t q)" using ents_not_empty [of "subtree t q"] s(1) by auto
    have pe: "path_bits t q @ e \<in> ents t" using ents_sub [OF assms(1), of q e] s(1) e by simp
    have "prefix (bits_of pm m) e" using e s(1) ents_prefix by simp
    then have "prefix (bits_of a n) (path_bits t q @ e)" using s(2) take_is_prefix prefix_order.trans by (metis same_prefix_prefix)
    moreover have "length (path_bits t q @ e) \<le> n" using pe assms(2) by blast
    ultimately have "path_bits t q @ e = bits_of a n" by (elim prefixE) (metis add_diff_cancel_left' append_Nil2 bits_of_length diff_is_0_eq length_0_conv length_append)
    then show ?thesis using 2(1) pe by (auto simp: codes covers_def)
  next
    case (3 q)
    then show ?thesis using not_found_uncovered [OF assms(1) 3(2)] by (simp add: codes)
  qed
qed

end
