(* ===== verification/IpSet.thy ===== *)
theory IpSet
  imports IpTree Ut
begin

text \<open>
  Sets of addresses of the module \<^verbatim>\<open>permissions\<close>, \<^verbatim>\<open>src/sip_router/modules/permissions/ip_set.c\<close>: a tree for IPv4 and one for IPv6, filled from
  a list of addresses and networks in the configuration.  \<open>mem k\<close> are the outcomes of the two allocations of the \<open>k\<close>-th addition and \<open>g\<close>
  is what fresh memory holds.
\<close>

record ip_set =
  use_shm :: bool
  ipv4_tree :: ip_tree
  ipv6_tree :: ip_tree

definition ip_set_init :: "bool \<Rightarrow> ip_set" where
  "ip_set_init shm = \<lparr>use_shm = shm, ipv4_tree = Null, ipv6_tree = Null\<rparr>"

definition ip_set_destroy :: "ip_set \<Rightarrow> ip_set" where
  "ip_set_destroy s = s\<lparr>ipv4_tree := Null, ipv6_tree := Null\<rparr>"

definition prefix_bits :: "ip_addr \<Rightarrow> nat \<Rightarrow> nat" where
  "prefix_bits a network_prefix = (if len a * 8 < network_prefix then len a * 8 else network_prefix)"

definition ip_set_add_ip :: "octet \<Rightarrow> bool \<times> bool \<Rightarrow> ip_set \<Rightarrow> ip_addr \<Rightarrow> nat \<Rightarrow> int \<times> ip_set" where
  "ip_set_add_ip g m s a network_prefix =
     (case af a of
        AF_INET \<Rightarrow> (let (ret, t) = ip_tree_add_ip g (fst m) (snd m) (ipv4_tree s) (addr a) (prefix_bits a network_prefix) in (ret, s\<lparr>ipv4_tree := t\<rparr>))
      | AF_INET6 \<Rightarrow> (let (ret, t) = ip_tree_add_ip g (fst m) (snd m) (ipv6_tree s) (addr a) (prefix_bits a network_prefix) in (ret, s\<lparr>ipv6_tree := t\<rparr>))
      | AF_OTHER _ \<Rightarrow> (-1, s))"

definition ip_set_ip_exists :: "ip_set \<Rightarrow> ip_addr \<Rightarrow> int" where
  "ip_set_ip_exists s a =
     (case af a of
        AF_INET \<Rightarrow> (if fst (ip_tree_find_ip (ipv4_tree s) (addr a) (len a * 8)) > 0 then 1 else 0)
      | AF_INET6 \<Rightarrow> (if fst (ip_tree_find_ip (ipv6_tree s) (addr a) (len a * 8)) > 0 then 1 else 0)
      | AF_OTHER _ \<Rightarrow> -1)"

section \<open>Reading networks\<close>

definition str2any :: "string \<Rightarrow> ip_addr option" where
  "str2any s = (case str2ip s of Some a \<Rightarrow> Some a | None \<Rightarrow> (case str2ip6 s of Some (Some a) \<Rightarrow> Some a | _ \<Rightarrow> None))"

definition mask_char :: "char \<Rightarrow> bool" where
  "mask_char c \<longleftrightarrow> is_digit c \<or> 97 \<le> ord_of c \<and> ord_of c \<le> 102 \<or> 65 \<le> ord_of c \<and> ord_of c \<le> 70 \<or> c \<in> set ''.:[]''"

text \<open>The loop over the bits of a network mask: the number of ones, and whether a zero was seen.\<close>

fun mask_bits :: "octet \<Rightarrow> octet list \<Rightarrow> nat \<Rightarrow> bool \<Rightarrow> (nat \<times> bool) option" where
  "mask_bits b [] pre fl = Some (pre, fl)"
| "mask_bits b (msk # ms) pre fl =
     (if b AND msk \<noteq> 0 then (if fl then None else mask_bits b ms (pre + 1) fl) else mask_bits b ms pre True)"

fun mask_bytes :: "octet list \<Rightarrow> nat \<Rightarrow> bool \<Rightarrow> nat option" where
  "mask_bytes [] pre fl = Some pre"
| "mask_bytes (b # bs) pre fl =
     (case mask_bits b [0x80, 0x40, 0x20, 0x10, 8, 4, 2, 1] pre fl of None \<Rightarrow> None | Some (pre, fl) \<Rightarrow> mask_bytes bs pre fl)"

definition mask_prefix :: "addr_family \<Rightarrow> string \<Rightarrow> nat option" where
  "mask_prefix f mask_s =
     (if list_ex (\<lambda>c. \<not> is_digit c) (takeWhile mask_char mask_s) then
        (case str2any mask_s of
           None \<Rightarrow> None
         | Some a \<Rightarrow> if f \<noteq> af a then None else mask_bytes (take (len a) (addr a)) 0 False)
      else (case str2int mask_s of (e, v) \<Rightarrow> if e < 0 then None else Some v))"

text \<open>The address and the prefix length an entry of the list denotes.\<close>

definition entry :: "string \<times> string \<Rightarrow> (ip_addr \<times> nat) option" where
  "entry e =
     (case str2any (fst e) of
        None \<Rightarrow> None
      | Some a \<Rightarrow>
          if snd e \<noteq> [] then map_option (Pair a) (mask_prefix (af a) (snd e)) else Some (a, len a * 8))"

definition ip_set_add_ip_s :: "octet \<Rightarrow> bool \<times> bool \<Rightarrow> ip_set \<Rightarrow> string \<times> string \<Rightarrow> int \<times> ip_set" where
  "ip_set_add_ip_s g m s e =
     (case entry e of
        None \<Rightarrow> (-1, s)
      | Some (a, pre) \<Rightarrow> (case ip_set_add_ip g m s a pre of (ret, s) \<Rightarrow> if ret < 0 then (-1, s) else (0, s)))"

definition list_sep :: "char \<Rightarrow> bool" where
  "list_sep c \<longleftrightarrow> c = CHR '','' \<or> c = CHR '';'' \<or> c = CHR '' ''"

text \<open>The next entry of the list and what follows it; \<open>None\<close> at the end.\<close>

definition next_entry :: "string \<Rightarrow> ((string \<times> string) \<times> string) option" where
  "next_entry s =
     (let s = dropWhile list_sep s
      in if s = [] then None
         else let ip_s = takeWhile (\<lambda>c. \<not> list_sep c \<and> c \<noteq> CHR ''/'') s; s = drop (length ip_s) s
              in if s \<noteq> [] \<and> hd s = CHR ''/'' then
                   (let s = tl s; mask_s = takeWhile (\<lambda>c. \<not> list_sep c) s in Some ((ip_s, mask_s), drop (length mask_s) s))
                 else Some ((ip_s, []), s))"

lemma next_entry_less: "next_entry s = Some (e, s') \<Longrightarrow> length s' < length s"
proof -
  assume n: "next_entry s = Some (e, s')"
  define t where "t = dropWhile list_sep s"
  define u where "u = takeWhile (\<lambda>c. \<not> list_sep c \<and> c \<noteq> CHR ''/'') t"
  have t: "t \<noteq> []" "length t \<le> length s" using n by (auto simp: next_entry_def t_def Let_def length_dropWhile_le split: if_splits)
  have hd: "\<not> list_sep (hd t)" using t(1) hd_dropWhile [of list_sep s] by (simp add: t_def)
  show ?thesis
  proof (cases "drop (length u) t \<noteq> [] \<and> hd (drop (length u) t) = CHR ''/''")
    case True
    then have "s' = drop (length (takeWhile (\<lambda>c. \<not> list_sep c) (tl (drop (length u) t)))) (tl (drop (length u) t))"
      using n t(1) by (simp add: next_entry_def t_def [symmetric] u_def [symmetric] Let_def)
    then have "length s' \<le> length t - length u - 1" by simp
    moreover have "length u < length t" using True by simp
    ultimately show ?thesis using t(2) by simp
  next
    case False
    then have s': "s' = drop (length u) t" using n t(1) by (auto simp: next_entry_def t_def [symmetric] u_def [symmetric] Let_def)
    have "u \<noteq> []"
    proof
      assume "u = []"
      then have "hd t = CHR ''/''" using hd t(1) by (cases t) (auto simp: u_def split: if_splits)
      then show False using False t(1) \<open>u = []\<close> by simp
    qed
    then have "0 < length u" "0 < length t" using t(1) by simp_all
    then show ?thesis unfolding s' length_drop using t(2) by linarith
  qed
qed

function ip_set_add_list :: "octet \<Rightarrow> (nat \<Rightarrow> bool \<times> bool) \<Rightarrow> nat \<Rightarrow> ip_set \<Rightarrow> string \<Rightarrow> int \<times> ip_set" where
  "ip_set_add_list g mem k s str =
     (case next_entry str of
        None \<Rightarrow> (0, s)
      | Some (e, str') \<Rightarrow> (case ip_set_add_ip_s g (mem k) s e of (ret, s) \<Rightarrow> if ret < 0 then (-1, s) else ip_set_add_list g mem (k + 1) s str'))"
  by pat_completeness auto
termination
  by (relation "measure (\<lambda>(g, mem, k, s, str). length str)") (auto dest: next_entry_less)

declare ip_set_add_list.simps [simp del]

text \<open>All entries of a list.\<close>

function entries :: "string \<Rightarrow> (string \<times> string) list" where
  "entries str = (case next_entry str of None \<Rightarrow> [] | Some (e, str') \<Rightarrow> e # entries str')"
  by pat_completeness auto
termination
  by (relation "measure length") (auto dest: next_entry_less)

declare entries.simps [simp del]

section \<open>Members\<close>

definition set_wf :: "ip_set \<Rightarrow> bool" where
  "set_wf s \<longleftrightarrow> tree_wf (ipv4_tree s) \<and> tree_wf (ipv6_tree s) \<and> (\<forall>e\<in>ents (ipv4_tree s). length e \<le> 32) \<and> (\<forall>e\<in>ents (ipv6_tree s). length e \<le> 128)"

definition tree_for :: "addr_family \<Rightarrow> ip_set \<Rightarrow> ip_tree" where
  "tree_for f s = (if f = AF_INET then ipv4_tree s else ipv6_tree s)"

definition in_net :: "ip_addr \<Rightarrow> ip_addr \<times> nat \<Rightarrow> bool" where
  "in_net b n \<longleftrightarrow> (\<exists>nt w. mk_net_bitlen True (fst n) (prefix_bits (fst n) (snd n)) = Some (nt, w) \<and> matchnet b nt = 1)"

lemma prefix_bits_le: "prefix_bits a n \<le> 8 * len a"
  by (simp add: prefix_bits_def)

lemma in_net_bits:
  assumes "addr_wf a" "addr_wf b"
  shows "in_net b (a, n) \<longleftrightarrow> af b = af a \<and> prefix (bits_of (addr a) (prefix_bits a n)) (bits_of (addr b) (8 * len b))"
proof -
  obtain nt w where "mk_net_bitlen True a (prefix_bits a n) = Some (nt, w)"
      "matchnet b nt = (if af b \<noteq> af a then -1 else if bits_of (addr b) (prefix_bits a n) = bits_of (addr a) (prefix_bits a n) then 1 else 0)"
    using matchnet_bits [OF assms(2,1) prefix_bits_le] by blast
  moreover have "af b = af a \<Longrightarrow> len b = len a" using assms by (auto simp: addr_wf_def)
  then have "af b = af a \<Longrightarrow> take (prefix_bits a n) (bits_of (addr b) (8 * len b)) = bits_of (addr b) (prefix_bits a n)"
    using prefix_bits_le [of a n] by (simp add: bits_of_take)
  ultimately show ?thesis by (auto simp: in_net_def prefix_def dest: sym) (metis append_take_drop_id append_eq_conv_conj bits_of_length)+
qed

lemma exists_covers:
  assumes "set_wf s" "addr_wf b"
  shows "ip_set_ip_exists s b = (if covers (tree_for (af b) s) (bits_of (addr b) (8 * len b)) then 1 else 0)"
proof -
  obtain r4 h4 r6 h6 where f: "ip_tree_find_ip (ipv4_tree s) (addr b) (len b * 8) = (r4, h4)" "ip_tree_find_ip (ipv6_tree s) (addr b) (len b * 8) = (r6, h6)" by force
  show ?thesis
    using assms find_covers [OF _ _ f(1)] find_covers [OF _ _ f(2)] f
    by (auto simp: ip_set_ip_exists_def set_wf_def addr_wf_def tree_for_def mult.commute)
qed

lemma add_ip_covers:
  assumes "set_wf s" "addr_wf a" "ip_set_add_ip g (True, True) s a n = (ret, s')" "addr_wf b"
  shows "0 \<le> ret \<and> set_wf s' \<and> ip_set_ip_exists s' b = (if ip_set_ip_exists s b = 1 \<or> in_net b (a, n) then 1 else 0)"
proof -
  let ?w = "bits_of (addr a) (prefix_bits a n)"
  obtain t where t: "ip_tree_add_ip g True True (tree_for (af a) s) (addr a) (prefix_bits a n) = (ret, t)"
      "s' = (if af a = AF_INET then s\<lparr>ipv4_tree := t\<rparr> else s\<lparr>ipv6_tree := t\<rparr>)"
    using assms(2,3) by (auto simp: ip_set_add_ip_def addr_wf_def tree_for_def Let_def split: prod.splits)
  have "tree_wf (tree_for (af a) s)" using assms(1) by (simp add: set_wf_def tree_for_def)
  then have ad: "0 \<le> ret" "adds (tree_for (af a) s) t ?w" using add_adds [OF _ _ t(1)] prefix_bits_le [of a n] assms(2) by (auto simp: addr_wf_def)
  have len: "length ?w \<le> 8 * len a" "af a = AF_INET \<and> len a = 4 \<or> af a = AF_INET6 \<and> len a = 16" using prefix_bits_le [of a n] assms(2) by (auto simp: addr_wf_def)
  have wf: "set_wf s'" using assms(1) ad(2) len t(2) by (auto simp: set_wf_def adds_def tree_for_def subset_iff)
  have "covers (tree_for (af b) s') x \<longleftrightarrow> covers (tree_for (af b) s) x \<or> af b = af a \<and> prefix ?w x" for x
    using ad(2) t(2) len(2) assms(4) by (auto simp: adds_def tree_for_def addr_wf_def)
  then show ?thesis using ad(1) wf exists_covers [OF wf assms(4)] exists_covers [OF assms(1,4)] in_net_bits [OF assms(2,4), of n] by simp
qed

lemma str2any_wf: "str2any s = Some a \<Longrightarrow> addr_wf a"
  using str2ip_wf [of s] str2ip6_wf [of s] by (auto simp: str2any_def split: option.splits)

lemma entry_wf: "entry e = Some (a, n) \<Longrightarrow> addr_wf a"
  by (auto simp: entry_def str2any_wf split: option.splits if_splits)

lemma add_list_members:
  assumes "\<And>k. mem k = (True, True)" "addr_wf b" "set_wf s" "ip_set_add_list g mem k s str = (ret, s')"
  shows "(ret = 0 \<longleftrightarrow> list_all (\<lambda>e. entry e \<noteq> None) (entries str)) \<and>
    (ret = 0 \<longrightarrow> set_wf s' \<and> ip_set_ip_exists s' b = (if ip_set_ip_exists s b = 1 \<or> (\<exists>e\<in>set (entries str). \<exists>n. entry e = Some n \<and> in_net b n) then 1 else 0))"
  using assms(3,4)
proof (induction str arbitrary: s k rule: entries.induct)
  case (1 str)
  note u = ip_set_add_list.simps [of g mem k s str] entries.simps [of str]
  have ex: "ip_set_ip_exists s b = 0 \<or> ip_set_ip_exists s b = 1" for s using assms(2) by (auto simp: ip_set_ip_exists_def addr_wf_def)
  show ?case
  proof (cases "next_entry str")
    case None
    then show ?thesis using "1.prems" ex [of s] by (auto simp: u)
  next
    case (Some p)
    obtain e str' where p: "p = (e, str')" by (cases p)
    show ?thesis
    proof (cases "entry e")
      case None
      then show ?thesis using "1.prems" Some p by (simp add: u ip_set_add_ip_s_def)
    next
      case e: (Some an)
      obtain a n where an: "an = (a, n)" by force
      obtain r s1 where r: "ip_set_add_ip g (True, True) s a n = (r, s1)" by force
      note ad = add_ip_covers [OF "1.prems"(1) entry_wf [OF e [unfolded an]] r assms(2)]
      have "ip_set_add_list g mem (k + 1) s1 str' = (ret, s')" using "1.prems"(2) Some p e an r assms(1) [of k] ad by (simp add: u ip_set_add_ip_s_def)
      then show ?thesis using "1.IH" [OF Some p [symmetric], of s1 "k + 1"] ad Some p e an by (auto simp: u)
    qed
  qed
qed

text \<open>C18: filling a set from a list of addresses and networks succeeds exactly when every entry of the list can be read, and afterwards the set
  contains exactly the addresses that \<^verbatim>\<open>matchnet\<close> finds in one of the networks of the list: the bit tree implements the list of networks.\<close>

theorem ip_set_members:
  assumes "\<And>k. mem k = (True, True)" and "addr_wf b" and "ip_set_add_list g mem 0 (ip_set_init shm) str = (ret, s)"
  shows "(ret = 0 \<longleftrightarrow> list_all (\<lambda>e. entry e \<noteq> None) (entries str)) \<and>
    (ret = 0 \<longrightarrow> ip_set_ip_exists s b = (if \<exists>e\<in>set (entries str). \<exists>n. entry e = Some n \<and> in_net b n then 1 else 0))"
proof -
  have i: "set_wf (ip_set_init shm)" "ip_set_ip_exists (ip_set_init shm) b = 0"
    using assms(2) by (auto simp: set_wf_def ip_set_init_def ip_set_ip_exists_def addr_wf_def ip_tree_find_ip_def IP_TREE_FIND_NOT_FOUND_def)
  show ?thesis using add_list_members [OF assms(1,2) i(1) assms(3)] i(2) by auto
qed

theorem ip_set_members_witness:
  "ip_set_ip_exists (snd (ip_set_add_list 7 (\<lambda>_. (True, True)) 0 (ip_set_init False) ''10.0.0.1, 192.168.0.0/255.255.0.0''))
     \<lparr>af = AF_INET, len = 4, addr = [192, 168, 3, 4]\<rparr> = 1"
proof -
  let ?b = "\<lparr>af = AF_INET, len = 4, addr = [192, 168, 3, 4]\<rparr>" and ?l = "''10.0.0.1, 192.168.0.0/255.255.0.0''"
  let ?n = "(\<lparr>af = AF_INET, len = 4, addr = [192, 168, 0, 0]\<rparr>, 16)"
  obtain ret s where r: "ip_set_add_list 7 (\<lambda>_. (True, True)) 0 (ip_set_init False) ?l = (ret, s)" by force
  have e: "list_all (\<lambda>e. entry e \<noteq> None) (entries ?l)" "entries ?l = [(''10.0.0.1'', []), (''192.168.0.0'', ''255.255.0.0'')]"
      "entry (''192.168.0.0'', ''255.255.0.0'') = Some ?n" by code_simp+
  have "in_net ?b ?n" by (subst in_net_bits) (simp add: addr_wf_def, simp add: addr_wf_def, code_simp)
  then show ?thesis using ip_set_members [OF refl _ r, of ?b] e r by (auto simp: addr_wf_def)
qed

text \<open>An addition that fails for want of memory leaves the set as it was.\<close>

lemma ip_set_add_fails:
  "\<not> (fst m \<and> snd m) \<Longrightarrow> ip_set_add_ip g m s a n = (ret, s') \<Longrightarrow> (ret = -1 \<and> s' = s) \<or> ip_set_add_ip g (True, True) s a n = (ret, s')"
  using add_fails [of "fst m" "snd m" g "ipv4_tree s" "addr a" "prefix_bits a n"] add_fails [of "fst m" "snd m" g "ipv6_tree s" "addr a" "prefix_bits a n"]
  by (auto simp: ip_set_add_ip_def Let_def split: addr_family.splits prod.splits)

end
